(* ===== verification/Grav_Prelude.thy ===== *)
theory Grav_Prelude
  imports Main "HOL-Library.Word"
begin

text \<open>
  Shared vocabulary of the development: the errors and run-time panics of the Go program,
  the result types the models return, Go's bounds-checked indexing, generic facts on lists
  and maps, and two small interfaces that the component theories interpret: an invariant of
  a transition system, and a round-robin source.
\<close>

section \<open>Collections and type names\<close>

named_theorems grav_simps \<open>unfolding rules for the small operations of the components\<close>
named_theorems grav_inv \<open>preservation of the component invariants\<close>

type_synonym uuid = string
type_synonym byte = "8 word"
type_synonym int64 = "64 word"
type_synonym addr = nat

section \<open>Errors and panics\<close>

text \<open>
  The package-level error values of \<open>grav/grav.go\<close>, \<open>grav/pod.go\<close>, \<open>grav/pool.go\<close>,
  \<open>grav/receipt.go\<close> and \<open>grav/transport.go\<close>. \<open>ErrorText\<close> is an error made in place by
  \<open>errors.New\<close>, and \<open>Wrapped\<close> the result of \<open>errors.Wrap\<close>: the source compares errors
  with \<open>==\<close>, and a wrapped error is a new value, different from the one it wraps.
\<close>

datatype error =
    ErrTransportNotConfigured
  | ErrTunnelNotEstablished
  | ErrMsgNotWanted
  | ErrWaitTimeout
  | ErrNoReceipt
  | ErrConnectionClosed
  | ErrNodeUUIDMismatch
  | ErrBelongsToMismatch
  | ErrNodeWithdrawn
  | errFailedMessage
  | errFailedMessageMax
  | ErrorText string
  | Wrapped error string

text \<open>
  The Go run-time panics the modelled code can reach, and the error with which Go ends a program that reads a map
  in one goroutine while another writes it.
\<close>

datatype panic =
    IndexOutOfRange
  | NilDereference
  | CloseOfClosedChannel
  | SendOnClosedChannel
  | MakechanSizeOutOfRange
  | ConcurrentMapAccess

text \<open>
  A piece of code that always comes back returns \<open>panic + 'a\<close>. A piece of code with a loop
  that is not structurally bounded returns \<open>'a run\<close>: \<open>None\<close> if it never comes back.
\<close>

type_synonym 'a run = "(panic + 'a) option"

definition returns :: "'a run \<Rightarrow> bool" where
  "returns r \<longleftrightarrow> (\<exists>x. r = Some (Inr x))"

lemma returns_Some [simp]: "returns (Some (Inr x))"
  by (simp add: returns_def)

text \<open>Go's \<open>xs[i]\<close>: a panic when the index is out of range.\<close>

definition go_index :: "'a list \<Rightarrow> nat \<Rightarrow> panic + 'a" where
  "go_index xs i = (if i < length xs then Inr (xs ! i) else Inl IndexOutOfRange)"

lemma go_index_in_range [simp]: "i < length xs \<Longrightarrow> go_index xs i = Inr (xs ! i)"
  by (simp add: go_index_def)

lemma go_index_eq_Inr: "go_index xs i = Inr x \<longleftrightarrow> i < length xs \<and> x = xs ! i"
  by (auto simp: go_index_def)

lemma go_index_eq_Inl: "go_index xs i = Inl p \<longleftrightarrow> length xs \<le> i \<and> p = IndexOutOfRange"
  by (auto simp: go_index_def)

text \<open>A nil pointer or interface value is \<open>None\<close>; using it is a nil dereference.\<close>

definition go_deref :: "'a option \<Rightarrow> panic + 'a" where
  "go_deref p = (case p of None \<Rightarrow> Inl NilDereference | Some x \<Rightarrow> Inr x)"

lemma go_deref_simps [simp]:
  "go_deref (Some x) = Inr x" "go_deref None = Inl NilDereference"
  by (simp_all add: go_deref_def)

section \<open>Lists\<close>

lemma rotate_less_drop_take: "n \<le> length xs \<Longrightarrow> rotate n xs = drop n xs @ take n xs"
  by (cases "n = length xs") (simp_all add: rotate_drop_take)

lemma rotate_nth_hd: "n < length xs \<Longrightarrow> rotate n xs = xs ! n # drop (Suc n) xs @ take n xs"
  by (simp add: rotate_less_drop_take Cons_nth_drop_Suc [symmetric])

lemma rotate_Suc_index:
  "n < length xs \<Longrightarrow> rotate (if n = length xs - 1 then 0 else Suc n) xs = rotate1 (rotate n xs)"
proof (cases "n = length xs - 1")
  case True
  assume "n < length xs"
  with True have "Suc n = length xs" by simp
  then have "rotate1 (rotate n xs) = rotate (length xs) xs"
    by (metis rotate_Suc)
  with True show ?thesis by simp
next
  case False
  then show ?thesis by (simp add: rotate_Suc)
qed

lemma count_list_rotate1 [simp]: "count_list (rotate1 xs) x = count_list xs x"
  by (cases xs) simp_all

lemma count_list_rotate [simp]: "count_list (rotate n xs) x = count_list xs x"
  by (induction n) (simp_all add: rotate_Suc)

text \<open>The last \<open>n\<close> elements of a list, all of it if it is shorter.\<close>

definition keep_last :: "nat \<Rightarrow> 'a list \<Rightarrow> 'a list" where
  "keep_last n xs = drop (length xs - n) xs"

lemma keep_last_short [simp]: "length xs \<le> n \<Longrightarrow> keep_last n xs = xs"
  by (simp add: keep_last_def)

lemma length_keep_last [simp]: "length (keep_last n xs) = min n (length xs)"
  by (simp add: keep_last_def)

lemma keep_last_append: "keep_last n (keep_last n xs @ ys) = keep_last n (xs @ ys)"
  by (cases "length xs \<le> n") (auto simp: keep_last_def add.commute)

lemma keep_last_snoc_full:
  "length (x # xs) = n \<Longrightarrow> keep_last n (x # xs @ [y]) = xs @ [y]"
  by (auto simp: keep_last_def)

lemma set_keep_last: "set (keep_last n xs) \<subseteq> set xs"
  by (simp add: keep_last_def set_drop_subset)

text \<open>How an update changes the number of elements with a property.\<close>

lemma length_filter_update:
  "k < length xs \<Longrightarrow> length (filter P (xs[k := y])) + (if P (xs ! k) then 1 else 0) =
     length (filter P xs) + (if P y then 1 else 0)"
proof -
  assume k: "k < length xs"
  show ?thesis
    by (subst id_take_nth_drop [OF k], subst (3) id_take_nth_drop [OF k])
       (use k in \<open>simp add: upd_conv_take_nth_drop\<close>)
qed

lemma set_update_cases: "x \<in> set (xs[k := y]) \<Longrightarrow> x = y \<or> x \<in> set xs"
  using set_update_subset_insert [of xs k y] by auto

section \<open>Transition systems\<close>

text \<open>States that an execution of a step relation reaches from an initial state.\<close>

inductive reach :: "('s \<Rightarrow> bool) \<Rightarrow> ('s \<Rightarrow> 's \<Rightarrow> bool) \<Rightarrow> 's \<Rightarrow> bool"
  for init :: "'s \<Rightarrow> bool" and step :: "'s \<Rightarrow> 's \<Rightarrow> bool" where
  reach_init: "init s \<Longrightarrow> reach init step s"
| reach_step: "reach init step s \<Longrightarrow> step s t \<Longrightarrow> reach init step t"

definition stuck :: "('s \<Rightarrow> 's \<Rightarrow> bool) \<Rightarrow> 's \<Rightarrow> bool" where
  "stuck step s \<longleftrightarrow> (\<forall>t. \<not> step s t)"

lemma reach_steps: "reach init step s \<Longrightarrow> step\<^sup>*\<^sup>* s t \<Longrightarrow> reach init step t"
  by (rotate_tac 1) (induction rule: rtranclp_induct, auto intro: reach_step)

text \<open>
  An invariant: it holds initially and every step keeps it. The state machines of the
  development interpret this locale with their own initial states, steps and invariant.
\<close>

locale invariant_system =
  fixes init :: "'s \<Rightarrow> bool"
    and step :: "'s \<Rightarrow> 's \<Rightarrow> bool"
    and inv :: "'s \<Rightarrow> bool"
  assumes inv_init: "init s \<Longrightarrow> inv s"
    and inv_step: "inv s \<Longrightarrow> step s t \<Longrightarrow> inv t"
begin

lemma inv_reach: "reach init step s \<Longrightarrow> inv s"
  by (induction rule: reach.induct) (auto intro: inv_init inv_step)

lemma inv_steps: "inv s \<Longrightarrow> step\<^sup>*\<^sup>* s t \<Longrightarrow> inv t"
  by (rotate_tac 1) (induction rule: rtranclp_induct, auto intro: inv_step)

end

section \<open>Round-robin sources\<close>

text \<open>\<open>n\<close> calls in a row of an operation that returns one item and a new state.\<close>

fun next_seq :: "('b \<Rightarrow> panic + ('a \<times> 'b)) \<Rightarrow> nat \<Rightarrow> 'b \<Rightarrow> panic + ('a list \<times> 'b)" where
  "next_seq f 0 b = Inr ([], b)"
| "next_seq f (Suc n) b =
     (case f b of
        Inl p \<Rightarrow> Inl p
      | Inr (x, b') \<Rightarrow>
          (case next_seq f n b' of
             Inl p \<Rightarrow> Inl p
           | Inr (xs, b'') \<Rightarrow> Inr (x # xs, b'')))"

text \<open>
  The interface of a round-robin source: \<open>items\<close> lists what the coming calls return, and
  a call moves the item it returns to the back.
\<close>

locale round_robin =
  fixes items :: "'b \<Rightarrow> 'a list"
    and rr_next :: "'b \<Rightarrow> panic + ('a \<times> 'b)"
    and rr_inv :: "'b \<Rightarrow> bool"
  assumes next_items:
    "rr_inv b \<Longrightarrow> items b = x # xs \<Longrightarrow> \<exists>b'. rr_next b = Inr (x, b') \<and> items b' = xs @ [x] \<and> rr_inv b'"
begin

lemma next_seq_items:
  "rr_inv b \<Longrightarrow> n \<le> length (items b) \<Longrightarrow>
   \<exists>b'. next_seq rr_next n b = Inr (take n (items b), b') \<and> items b' = rotate n (items b) \<and> rr_inv b'"
proof (induction n arbitrary: b)
  case 0
  then show ?case by simp
next
  case (Suc n)
  then obtain x xs where xs: "items b = x # xs"
    by (cases "items b") auto
  then obtain b1 where b1: "rr_next b = Inr (x, b1)" "items b1 = xs @ [x]" "rr_inv b1"
    using next_items Suc.prems(1) by blast
  then obtain b2 where "next_seq rr_next n b1 = Inr (take n (xs @ [x]), b2)"
      "items b2 = rotate n (xs @ [x])" "rr_inv b2"
    using Suc.IH [of b1] Suc.prems(2) xs by auto
  moreover have "take n (xs @ [x]) = take n xs"
    using Suc.prems(2) xs by simp
  moreover have "rotate (Suc n) (x # xs) = rotate n (xs @ [x])"
    by (simp add: rotate1_rotate_swap)
  ultimately show ?case
    using b1(1) xs by simp
qed

lemma next_seq_append:
  "next_seq rr_next m b = Inr (xs, b') \<Longrightarrow> next_seq rr_next n b' = Inr (ys, b'') \<Longrightarrow>
   next_seq rr_next (m + n) b = Inr (xs @ ys, b'')"
  by (induction m arbitrary: b xs) (auto split: sum.splits prod.splits)

text \<open>A whole number of rounds returns every item equally often and comes back to the start.\<close>

lemma next_seq_rounds:
  "rr_inv b \<Longrightarrow> \<exists>b'. next_seq rr_next (k * length (items b)) b = Inr (concat (replicate k (items b)), b')
     \<and> items b' = items b \<and> rr_inv b'"
proof (induction k arbitrary: b)
  case 0
  then show ?case by simp
next
  case (Suc k)
  obtain b1 where b1: "next_seq rr_next (length (items b)) b = Inr (items b, b1)"
      "items b1 = items b" "rr_inv b1"
    using next_seq_items [OF Suc.prems, of "length (items b)"] by auto
  obtain b2 where "next_seq rr_next (k * length (items b)) b1 = Inr (concat (replicate k (items b)), b2)"
      "items b2 = items b" "rr_inv b2"
    using Suc.IH [OF b1(3)] b1(2) by auto
  with next_seq_append [OF b1(1)] show ?case by simp
qed

end

section \<open>Forward simulation\<close>

text \<open>A run of operations, each of which may panic, and of their abstract counterparts.\<close>

fun run_ops :: "('o \<Rightarrow> 'c \<Rightarrow> panic + 'c) \<Rightarrow> 'o list \<Rightarrow> 'c \<Rightarrow> panic + 'c" where
  "run_ops cstep [] c = Inr c"
| "run_ops cstep (x # xs) c = (case cstep x c of Inl p \<Rightarrow> Inl p | Inr c' \<Rightarrow> run_ops cstep xs c')"

fun run_spec :: "('o \<Rightarrow> 'a \<Rightarrow> 'a option) \<Rightarrow> 'o list \<Rightarrow> 'a \<Rightarrow> 'a option" where
  "run_spec astep [] a = Some a"
| "run_spec astep (x # xs) a = (case astep x a of None \<Rightarrow> None | Some a' \<Rightarrow> run_spec astep xs a')"

text \<open>
  The contract between an implementation and its specification: where the specification allows
  an operation, the implementation performs it without a panic and stays related. The
  specification refuses an operation with \<open>None\<close>.
\<close>

locale forward_simulation =
  fixes rel :: "'c \<Rightarrow> 'a \<Rightarrow> bool"
    and cstep :: "'o \<Rightarrow> 'c \<Rightarrow> panic + 'c"
    and astep :: "'o \<Rightarrow> 'a \<Rightarrow> 'a option"
  assumes simulate: "rel c a \<Longrightarrow> astep x a = Some a' \<Longrightarrow> \<exists>c'. cstep x c = Inr c' \<and> rel c' a'"
begin

lemma simulate_run:
  "rel c a \<Longrightarrow> run_spec astep xs a = Some a' \<Longrightarrow> \<exists>c'. run_ops cstep xs c = Inr c' \<and> rel c' a'"
proof (induction xs arbitrary: c a)
  case Nil
  then show ?case by simp
next
  case (Cons x xs)
  then obtain a1 where a1: "astep x a = Some a1" "run_spec astep xs a1 = Some a'"
    by (auto split: option.splits)
  then obtain c1 where "cstep x c = Inr c1" "rel c1 a1"
    using simulate Cons.prems(1) by blast
  with Cons.IH [OF _ a1(2)] show ?case by auto
qed

end

end
