(* ===== verification/Go_Utf8.thy ===== *)
theory Go_Utf8
  imports Grav_Prelude
begin

text \<open>
  Go strings as sequences of bytes: what the conversions between \<open>string\<close> and \<open>[]byte\<close> and the
  standard package \<open>unicode/utf8\<close> do. A \<open>string\<close> of HOL is the sequence of the bytes of a Go
  string. \<open>rune_width\<close> is the size that \<open>utf8.DecodeRune\<close> reports for the rune at the front, with 0
  where it reports an encoding error; \<open>to_valid_utf8\<close> replaces each byte that is not part of a
  rune by the replacement character, as \<open>encoding/json\<close> does. The locale \<open>codec\<close> is the contract
  of an encoder and its decoder.
\<close>

section \<open>Bytes\<close>

definition code :: "char \<Rightarrow> nat" where
  "code c = of_char c"

definition chr :: "nat \<Rightarrow> char" where
  "chr n = char_of n"

definition to_bytes :: "string \<Rightarrow> byte list" where
  "to_bytes s = map (\<lambda>c. word_of_nat (code c)) s"

definition of_bytes :: "byte list \<Rightarrow> string" where
  "of_bytes bs = map (\<lambda>b. chr (unat b)) bs"

lemma code_less [simp]: "code c < 256"
  by (simp add: code_def)

lemma chr_code [simp]: "chr (code c) = c"
  by (simp add: code_def chr_def)

lemma code_chr [simp]: "n < 256 \<Longrightarrow> code (chr n) = n"
  by (simp add: code_def chr_def)

lemma code_eq_iff: "code c = code d \<longleftrightarrow> c = d"
  by (simp add: code_def)

lemma unat_byte_less: "unat (b :: byte) < 256"
  using unsigned_less [of b] by simp

lemma of_bytes_to_bytes [simp]: "of_bytes (to_bytes s) = s"
  by (induction s) (simp_all add: of_bytes_def to_bytes_def unat_of_nat)

lemma to_bytes_of_bytes [simp]: "to_bytes (of_bytes bs) = bs"
  by (induction bs) (simp_all add: of_bytes_def to_bytes_def unat_byte_less)

lemma to_bytes_inj: "to_bytes s = to_bytes t \<longleftrightarrow> s = t"
  by (metis of_bytes_to_bytes)

lemma to_bytes_Nil [simp]: "to_bytes s = [] \<longleftrightarrow> s = []"
  by (simp add: to_bytes_def)

section \<open>An encoder and its decoder\<close>

text \<open>On the values that satisfy \<open>ok\<close> the decoder undoes the encoder.\<close>

locale codec =
  fixes enc :: "'a \<Rightarrow> 'b"
    and dec :: "'b \<Rightarrow> 'a option"
    and ok :: "'a \<Rightarrow> bool"
  assumes dec_enc: "ok x \<Longrightarrow> dec (enc x) = Some x"
begin

lemma enc_inj: "ok x \<Longrightarrow> ok y \<Longrightarrow> enc x = enc y \<longleftrightarrow> x = y"
  using dec_enc by (metis option.inject)

lemma dec_all: "\<forall>x \<in> set xs. ok x \<Longrightarrow> map dec (map enc xs) = map Some xs"
  by (induction xs) (simp_all add: dec_enc)

end

interpretation go_bytes: codec to_bytes "\<lambda>bs. Some (of_bytes bs)" "\<lambda>_. True"
  by unfold_locales simp

section \<open>Runes\<close>

definition continuation :: "char \<Rightarrow> bool" where
  "continuation c \<longleftrightarrow> 0x80 \<le> code c \<and> code c < 0xC0"

text \<open>The bounds on the second byte exclude overlong forms, surrogates and values above U+10FFFF.\<close>

definition second_ok :: "nat \<Rightarrow> char \<Rightarrow> bool" where
  "second_ok x c \<longleftrightarrow>
     (if x = 0xE0 then 0xA0 \<le> code c \<and> code c < 0xC0
      else if x = 0xED then 0x80 \<le> code c \<and> code c < 0xA0
      else if x = 0xF0 then 0x90 \<le> code c \<and> code c < 0xC0
      else if x = 0xF4 then 0x80 \<le> code c \<and> code c < 0x90
      else continuation c)"

fun rune_width :: "string \<Rightarrow> nat" where
  "rune_width [] = 0"
| "rune_width (a # s) =
     (if code a < 0x80 then 1
      else if 0xC2 \<le> code a \<and> code a < 0xE0 then
        (if 1 \<le> length s \<and> second_ok (code a) (s ! 0) then 2 else 0)
      else if 0xE0 \<le> code a \<and> code a < 0xF0 then
        (if 2 \<le> length s \<and> second_ok (code a) (s ! 0) \<and> continuation (s ! 1) then 3 else 0)
      else if 0xF0 \<le> code a \<and> code a < 0xF5 then
        (if 3 \<le> length s \<and> second_ok (code a) (s ! 0) \<and> continuation (s ! 1) \<and> continuation (s ! 2)
         then 4 else 0)
      else 0)"

lemma rune_width_le: "rune_width s \<le> length s"
  by (cases s) auto

lemma rune_width_le_4: "rune_width s \<le> 4"
  by (cases s) auto

text \<open>How the width comes about.\<close>

lemma rune_width_cases:
  assumes "rune_width s \<noteq> 0"
  obtains a r where "s = a # r" "code a < 0x80"
  | a b r where "s = a # b # r" "0xC2 \<le> code a" "code a < 0xE0" "second_ok (code a) b"
  | a b c r where "s = a # b # c # r" "0xE0 \<le> code a" "code a < 0xF0" "second_ok (code a) b" "continuation c"
  | a b c d r where "s = a # b # c # d # r" "0xF0 \<le> code a" "code a < 0xF5" "second_ok (code a) b"
      "continuation c" "continuation d"
proof (cases s)
  case Nil
  with assms show ?thesis by simp
next
  case (Cons a r)
  then have "rune_width (a # r) \<noteq> 0" using assms by simp
  then consider "code a < 0x80"
    | "0xC2 \<le> code a" "code a < 0xE0" "1 \<le> length r" "second_ok (code a) (r ! 0)"
    | "0xE0 \<le> code a" "code a < 0xF0" "2 \<le> length r" "second_ok (code a) (r ! 0)" "continuation (r ! 1)"
    | "0xF0 \<le> code a" "code a < 0xF5" "3 \<le> length r" "second_ok (code a) (r ! 0)" "continuation (r ! 1)"
        "continuation (r ! 2)"
    by (simp only: rune_width.simps split: if_splits)
  then show ?thesis
  proof cases
    case 1
    then show ?thesis using Cons that(1) by blast
  next
    case 2
    then show ?thesis using Cons that(2) by (cases r) auto
  next
    case 3
    then show ?thesis using Cons that(3) by (cases r; cases "tl r") auto
  next
    case 4
    then show ?thesis using Cons that(4) by (cases r; cases "tl r"; cases "tl (tl r)") auto
  qed
qed

lemma rune_width_take: "rune_width s \<noteq> 0 \<Longrightarrow> rune_width (take (rune_width s) s @ t) = rune_width s"
  by (erule rune_width_cases) simp_all

lemma rune_width_ascii [simp]: "code a < 0x80 \<Longrightarrow> rune_width (a # s) = 1"
  by simp

text \<open>All bytes of a rune of more than one byte are at least 0x80.\<close>

lemma second_ok_ge: "second_ok x c \<Longrightarrow> 0x80 \<le> code c"
  by (auto simp: second_ok_def continuation_def split: if_splits)

lemma rune_bytes_high:
  assumes "0x80 \<le> code a"
  shows "\<forall>c \<in> set (take (rune_width (a # s)) (a # s)). 0x80 \<le> code c"
proof -
  have 2: "\<forall>c \<in> set (take 2 (a # s)). 0x80 \<le> code c" if "1 \<le> length s" "second_ok (code a) (s ! 0)"
    using that assms by (cases s) (auto dest: second_ok_ge)
  have 3: "\<forall>c \<in> set (take 3 (a # s)). 0x80 \<le> code c"
    if "2 \<le> length s" "second_ok (code a) (s ! 0)" "continuation (s ! 1)"
    using that assms by (cases s; cases "tl s") (auto simp: continuation_def dest: second_ok_ge)
  have 4: "\<forall>c \<in> set (take 4 (a # s)). 0x80 \<le> code c"
    if "3 \<le> length s" "second_ok (code a) (s ! 0)" "continuation (s ! 1)" "continuation (s ! 2)"
    using that assms by (cases s; cases "tl s"; cases "tl (tl s)") (auto simp: continuation_def dest: second_ok_ge)
  show ?thesis using 2 3 4 assms by simp
qed

lemma drop_rune_less: "0 < rune_width (a # s) \<Longrightarrow> length (drop (rune_width (a # s)) (a # s)) < length (a # s)"
  by (simp del: rune_width.simps)

declare rune_width.simps(2) [simp del]

section \<open>Valid text\<close>

text \<open>U+FFFD.\<close>

definition replacement :: string where
  "replacement = [CHR 0xEF, CHR 0xBF, CHR 0xBD]"

function to_valid_utf8 :: "string \<Rightarrow> string" where
  "to_valid_utf8 [] = []"
| "to_valid_utf8 (a # s) =
     (let w = rune_width (a # s)
      in if w = 0 then replacement @ to_valid_utf8 s
         else take w (a # s) @ to_valid_utf8 (drop w (a # s)))"
  by pat_completeness auto
termination
  by (relation "measure length") (auto simp del: length_drop intro: drop_rune_less [simplified])

function valid_utf8 :: "string \<Rightarrow> bool" where
  "valid_utf8 [] = True"
| "valid_utf8 (a # s) =
     (let w = rune_width (a # s) in if w = 0 then False else valid_utf8 (drop w (a # s)))"
  by pat_completeness auto
termination
  by (relation "measure length") (auto simp del: length_drop intro: drop_rune_less [simplified])

lemma to_valid_utf8_id: "valid_utf8 s \<Longrightarrow> to_valid_utf8 s = s"
  by (induction s rule: valid_utf8.induct) (auto simp: Let_def)

lemma valid_utf8_ascii: "\<forall>c \<in> set s. code c < 0x80 \<Longrightarrow> valid_utf8 s"
  by (induction s rule: valid_utf8.induct) (auto simp: Let_def)

lemma rune_width_replacement: "rune_width (replacement @ t) = 3"
  by (simp add: rune_width.simps replacement_def second_ok_def continuation_def code_def nth_append)

lemma valid_utf8_append_rune:
  assumes "rune_width s \<noteq> 0"
  shows "valid_utf8 (take (rune_width s) s @ t) = valid_utf8 t"
proof -
  obtain a r where s: "take (rune_width s) s @ t = a # r"
    using assms rune_width_le [of s] by (cases "take (rune_width s) s @ t") auto
  have "rune_width (a # r) = rune_width s" using rune_width_take [OF assms, of t] s by simp
  moreover have "drop (rune_width s) (a # r) = t"
    using rune_width_le [of s] by (simp flip: s)
  ultimately show ?thesis using assms by (simp only: s valid_utf8.simps Let_def) simp
qed

lemma valid_utf8_to_valid: "valid_utf8 (to_valid_utf8 s)"
proof (induction s rule: to_valid_utf8.induct)
  case 1
  then show ?case by simp
next
  case (2 a s)
  show ?case
  proof (cases "rune_width (a # s) = 0")
    case True
    have "take (rune_width replacement) replacement = replacement" "rune_width replacement \<noteq> 0"
      using rune_width_replacement [of "[]"] by (simp_all add: replacement_def)
    then have "valid_utf8 (replacement @ to_valid_utf8 s)"
      using valid_utf8_append_rune [of replacement] 2(1) [OF refl True] by simp
    then show ?thesis using True by simp
  next
    case False
    then show ?thesis
      using valid_utf8_append_rune [OF False] 2(2) [OF refl False]
      by (simp del: valid_utf8.simps add: Let_def)
  qed
qed

end
