(* ===== verification/Go_Json_Text.thy ===== *)
theory Go_Json_Text
  imports Go_Utf8
begin

text \<open>
  The part of the standard package \<open>encoding/json\<close> that the program uses: the syntax tree of a
  JSON text, the scanner, the compact printer, and the quoting of strings with HTML escapes.
  A string of the tree is kept as it is written between its quotes; \<open>unescape\<close> decodes it.
\<close>

section \<open>Syntax\<close>

datatype json =
    JNull
  | JBool bool
  | JNum string
  | JStr string
  | JArr "json list"
  | JObj "(string \<times> json) list"

definition is_space :: "char \<Rightarrow> bool" where
  "is_space c \<longleftrightarrow> c = CHR '' '' \<or> c = CHR 0x09 \<or> c = CHR 0x0A \<or> c = CHR 0x0D"

definition is_digit :: "char \<Rightarrow> bool" where
  "is_digit c \<longleftrightarrow> 48 \<le> code c \<and> code c < 58"

definition skip_space :: "string \<Rightarrow> string" where
  "skip_space s = dropWhile is_space s"

section \<open>Hexadecimal digits\<close>

definition hex_digit :: "nat \<Rightarrow> char" where
  "hex_digit n = (if n < 10 then chr (48 + n) else chr (87 + n))"

definition hex_value :: "char \<Rightarrow> nat option" where
  "hex_value c =
     (if 48 \<le> code c \<and> code c < 58 then Some (code c - 48)
      else if 97 \<le> code c \<and> code c < 103 then Some (code c - 87)
      else if 65 \<le> code c \<and> code c < 71 then Some (code c - 55)
      else None)"

lemma chr_eq_iff: "n < 256 \<Longrightarrow> chr n = c \<longleftrightarrow> n = code c"
  by auto

lemma hex_value_digit [simp]: "n < 16 \<Longrightarrow> hex_value (hex_digit n) = Some n"
  by (auto simp: hex_value_def hex_digit_def)

text \<open>\<open>getu4\<close>, on the text after the \<open>u\<close> of an escape.\<close>

fun getu4 :: "string \<Rightarrow> nat option" where
  "getu4 (a # b # c # d # s) =
     (case (hex_value a, hex_value b, hex_value c, hex_value d) of
        (Some w, Some x, Some y, Some z) \<Rightarrow> Some (((w * 16 + x) * 16 + y) * 16 + z)
      | _ \<Rightarrow> None)"
| "getu4 _ = None"

definition unicode_escape :: "nat \<Rightarrow> string" where
  "unicode_escape n =
     [CHR 0x5C, CHR ''u'', hex_digit (n div 4096 mod 16), hex_digit (n div 256 mod 16),
      hex_digit (n div 16 mod 16), hex_digit (n mod 16)]"

lemma hex_digits_sum: "((n div 4096 * 16 + n div 256 mod 16) * 16 + n div 16 mod 16) * 16 + n mod 16 = (n :: nat)"
proof -
  have 1: "n div 16 * 16 + n mod 16 = n" by simp
  have 2: "n div 16 div 16 * 16 + n div 16 mod 16 = n div 16" by (rule div_mult_mod_eq)
  have 3: "n div 16 div 16 div 16 * 16 + n div 16 div 16 mod 16 = n div 16 div 16" by (rule div_mult_mod_eq)
  show ?thesis using 1 2 3 by (simp flip: div_mult2_eq)
qed

lemma getu4_escape: "n < 65536 \<Longrightarrow> getu4 (drop 2 (unicode_escape n) @ s) = Some n"
  using hex_digits_sum [of n] by (simp add: unicode_escape_def)

section \<open>Quoted strings\<close>

text \<open>The encoder writes an ASCII byte as it is, or as an escape; \<open><\<close>, \<open>>\<close> and \<open>&\<close> are escaped too.\<close>

definition json_escape_ascii :: "char \<Rightarrow> string" where
  "json_escape_ascii c =
     (if c = CHR 0x22 \<or> c = CHR 0x5C then [CHR 0x5C, c]
      else if c = CHR 0x0A then [CHR 0x5C, CHR ''n'']
      else if c = CHR 0x0D then [CHR 0x5C, CHR ''r'']
      else if c = CHR 0x09 then [CHR 0x5C, CHR ''t'']
      else if code c < 32 \<or> c = CHR ''<'' \<or> c = CHR ''>'' \<or> c = CHR ''&'' then unicode_escape (code c)
      else [c])"

text \<open>U+2028 and U+2029, which JavaScript takes for line ends, are escaped as well.\<close>

definition line_separator :: "nat \<Rightarrow> string" where
  "line_separator n = [CHR 0xE2, CHR 0x80, chr (0xA8 + n)]"

function json_escape :: "string \<Rightarrow> string" where
  "json_escape [] = []"
| "json_escape (a # s) =
     (if code a < 0x80 then json_escape_ascii a @ json_escape s
      else let w = rune_width (a # s); r = take w (a # s)
           in if w = 0 then unicode_escape 0xFFFD @ json_escape s
              else if r = line_separator 0 then unicode_escape 0x2028 @ json_escape (drop w (a # s))
              else if r = line_separator 1 then unicode_escape 0x2029 @ json_escape (drop w (a # s))
              else r @ json_escape (drop w (a # s)))"
  by pat_completeness auto
termination
  by (relation "measure length") auto

text \<open>\<open>utf8.EncodeRune\<close>.\<close>

definition encode_rune :: "nat \<Rightarrow> string" where
  "encode_rune r =
     (if r < 0x80 then [chr r]
      else if r < 0x800 then [chr (0xC0 + r div 64), chr (0x80 + r mod 64)]
      else if 0xD800 \<le> r \<and> r < 0xE000 \<or> 0x110000 \<le> r then replacement
      else if r < 0x10000 then
        [chr (0xE0 + r div 4096), chr (0x80 + r div 64 mod 64), chr (0x80 + r mod 64)]
      else [chr (0xF0 + r div 262144), chr (0x80 + r div 4096 mod 64),
            chr (0x80 + r div 64 mod 64), chr (0x80 + r mod 64)])"

definition escape_value :: "char \<Rightarrow> char option" where
  "escape_value c =
     (if c = CHR 0x22 \<or> c = CHR 0x5C \<or> c = CHR ''/'' then Some c
      else if c = CHR ''b'' then Some (CHR 0x08)
      else if c = CHR ''f'' then Some (CHR 0x0C)
      else if c = CHR ''n'' then Some (CHR 0x0A)
      else if c = CHR ''r'' then Some (CHR 0x0D)
      else if c = CHR ''t'' then Some (CHR 0x09)
      else None)"

text \<open>The low half of a surrogate pair, if the text goes on with the escape of one.\<close>

definition low_surrogate :: "string \<Rightarrow> nat option" where
  "low_surrogate s =
     (if take 2 s = [CHR 0x5C, CHR ''u''] then
        (case getu4 (drop 2 s) of
           Some r \<Rightarrow> (if 0xDC00 \<le> r \<and> r < 0xE000 then Some r else None)
         | None \<Rightarrow> None)
      else None)"

function unescape :: "string \<Rightarrow> string option" where
  "unescape [] = Some []"
| "unescape (c # s) =
     (if c = CHR 0x5C then
        (case s of
           [] \<Rightarrow> None
         | e # s' \<Rightarrow>
             (if e = CHR ''u'' then
                (case getu4 s' of
                   None \<Rightarrow> None
                 | Some r \<Rightarrow>
                     (if 0xD800 \<le> r \<and> r < 0xE000 then
                        (case (if r < 0xDC00 then low_surrogate (drop 4 s') else None) of
                           Some r1 \<Rightarrow>
                             map_option ((@) (encode_rune ((r - 0xD800) * 1024 + (r1 - 0xDC00) + 0x10000)))
                               (unescape (drop 10 s'))
                         | None \<Rightarrow> map_option ((@) replacement) (unescape (drop 4 s')))
                      else map_option ((@) (encode_rune r)) (unescape (drop 4 s'))))
              else (case escape_value e of
                      None \<Rightarrow> None
                    | Some x \<Rightarrow> map_option ((#) x) (unescape s'))))
      else if c = CHR 0x22 \<or> code c < 32 then None
      else if code c < 0x80 then map_option ((#) c) (unescape s)
      else (let w = rune_width (c # s)
            in if w = 0 then map_option ((@) replacement) (unescape s)
               else map_option ((@) (take w (c # s))) (unescape (drop w (c # s)))))"
  by pat_completeness auto
termination
  by (relation "measure length") auto

text \<open>The scanner: the raw text up to the closing quote, and what follows it.\<close>

function scan_string :: "string \<Rightarrow> (string \<times> string) option" where
  "scan_string [] = None"
| "scan_string (c # s) =
     (if c = CHR 0x22 then Some ([], s)
      else if c = CHR 0x5C then
        (case s of
           [] \<Rightarrow> None
         | e # s' \<Rightarrow>
             (if e = CHR ''u'' then
                (if getu4 s' = None then None
                 else map_option (map_prod ((@) (c # e # take 4 s')) id) (scan_string (drop 4 s')))
              else if escape_value e = None then None
              else map_option (map_prod ((@) [c, e]) id) (scan_string s')))
      else if code c < 32 then None
      else map_option (map_prod ((#) c) id) (scan_string s))"
  by pat_completeness auto
termination
  by (relation "measure length") auto

section \<open>Escaping and its inverses\<close>

text \<open>A piece of escaped text and what it stands for.\<close>

definition piece :: "string \<Rightarrow> string \<Rightarrow> bool" where
  "piece e v \<longleftrightarrow> (\<forall>s. unescape (e @ s) = map_option ((@) v) (unescape s)) \<and>
     (\<forall>s. scan_string (e @ s) = map_option (map_prod ((@) e) id) (scan_string s))"

lemma pieceD:
  "piece e v \<Longrightarrow> unescape (e @ s) = map_option ((@) v) (unescape s)"
  "piece e v \<Longrightarrow> scan_string (e @ s) = map_option (map_prod ((@) e) id) (scan_string s)"
  by (simp_all add: piece_def)

lemma piece_char: "c \<noteq> CHR 0x22 \<Longrightarrow> c \<noteq> CHR 0x5C \<Longrightarrow> 32 \<le> code c \<Longrightarrow> code c < 0x80 \<Longrightarrow> piece [c] [c]"
  by (auto simp: piece_def fun_eq_iff intro!: arg_cong2 [where f = map_option])

lemma piece_escape: "e \<noteq> CHR ''u'' \<Longrightarrow> escape_value e = Some x \<Longrightarrow> piece [CHR 0x5C, e] [x]"
  by (auto simp: piece_def fun_eq_iff intro!: arg_cong2 [where f = map_option])

lemma piece_unicode:
  assumes "n < 65536" and "\<not> (0xD800 \<le> n \<and> n < 0xE000)"
  shows "piece (unicode_escape n) (encode_rune n)"
proof -
  obtain a b c d where u: "unicode_escape n = [CHR 0x5C, CHR ''u'', a, b, c, d]"
    by (simp add: unicode_escape_def)
  then have "getu4 (a # b # c # d # s) = Some n" for s
    using getu4_escape [OF assms(1), of s] by simp
  with assms(2) show ?thesis by (auto simp: piece_def u simp del: getu4.simps)
qed

lemma scan_high:
  "\<forall>c \<in> set e. 0x80 \<le> code c \<Longrightarrow> scan_string (e @ s) = map_option (map_prod ((@) e) id) (scan_string s)"
proof (induction e)
  case Nil
  then show ?case by (simp add: option.map_ident prod.map_ident)
next
  case (Cons c e)
  then have "c \<noteq> CHR 0x22" "c \<noteq> CHR 0x5C" "32 \<le> code c" by (auto simp: code_def)
  with Cons show ?case by (simp add: option.map_comp o_def prod.map_comp)
qed

lemma piece_rune:
  assumes "0x80 \<le> code a" and "rune_width (a # s) = w" and "w \<noteq> 0"
  shows "piece (take w (a # s)) (take w (a # s))"
proof -
  have w: "w \<le> length (a # s)" using rune_width_le assms(2) by blast
  have a: "a \<noteq> CHR 0x22" "a \<noteq> CHR 0x5C" "\<not> code a < 32" "\<not> code a < 128"
    using assms(1) by (auto simp: code_def)
  have "unescape (take w (a # s) @ t) = map_option ((@) (take w (a # s))) (unescape t)" for t
  proof -
    obtain r where r: "take w (a # s) @ t = a # r" using assms(3) by (cases w) auto
    have "rune_width (a # r) = w" using rune_width_take [of "a # s" t] assms(2,3) r by simp
    moreover have "drop w (a # r) = t" "take w (a # r) = take w (a # s)" using w by (simp_all flip: r)
    ultimately show ?thesis using a assms(3) by (simp only: r unescape.simps Let_def) simp
  qed
  moreover have "\<forall>c \<in> set (take w (a # s)). 0x80 \<le> code c"
    using rune_bytes_high [OF assms(1)] assms(2) by blast
  ultimately show ?thesis using scan_high by (simp add: piece_def)
qed

lemma piece_ifI: "(P \<Longrightarrow> piece e v) \<Longrightarrow> (\<not> P \<Longrightarrow> piece e' v) \<Longrightarrow> piece (if P then e else e') v"
  by simp

lemma escape_ascii_piece: "code a < 0x80 \<Longrightarrow> piece (json_escape_ascii a) [a]"
proof -
  assume a: "code a < 0x80"
  have low: "piece (unicode_escape (code a)) [a]" if "code a < 0x80"
    using piece_unicode [of "code a"] that by (simp add: encode_rune_def)
  have n: "piece [CHR 0x5C, CHR ''n''] [CHR 0x0A]" by (rule piece_escape) (simp_all add: escape_value_def)
  have r: "piece [CHR 0x5C, CHR ''r''] [CHR 0x0D]" by (rule piece_escape) (simp_all add: escape_value_def)
  have t: "piece [CHR 0x5C, CHR ''t''] [CHR 0x09]" by (rule piece_escape) (simp_all add: escape_value_def)
  have q: "piece [CHR 0x5C, CHR 0x22] [CHR 0x22]" by (rule piece_escape) (simp_all add: escape_value_def)
  have b: "piece [CHR 0x5C, CHR 0x5C] [CHR 0x5C]" by (rule piece_escape) (simp_all add: escape_value_def)
  have plain: "\<not> code a < 32 \<Longrightarrow> a \<noteq> CHR 0x22 \<Longrightarrow> a \<noteq> CHR 0x5C \<Longrightarrow> piece [a] [a]"
    using piece_char [of a] a by simp
  show ?thesis
    unfolding json_escape_ascii_def by (intro piece_ifI) (use a low n r t q b plain in blast)+
qed

lemma separator_rune: "encode_rune 0x2028 = line_separator 0" "encode_rune 0x2029 = line_separator 1"
  "encode_rune 0xFFFD = replacement"
  by (simp_all add: encode_rune_def line_separator_def replacement_def chr_eq_iff code_def)

lemma escape_step:
  assumes "s \<noteq> []"
  obtains e v r where "json_escape s = e @ json_escape r" "to_valid_utf8 s = v @ to_valid_utf8 r"
    "piece e v" "length r < length s"
proof -
  obtain a s' where s: "s = a # s'" using assms by (cases s) auto
  let ?w = "rune_width (a # s')"
  have fffd: "piece (unicode_escape 0xFFFD) replacement" "piece (unicode_escape 0x2028) (line_separator 0)"
      "piece (unicode_escape 0x2029) (line_separator 1)"
    using piece_unicode [of "0xFFFD"] piece_unicode [of "0x2028"] piece_unicode [of "0x2029"]
    by (simp_all add: separator_rune)
  show ?thesis
  proof (cases "code a < 0x80")
    case True
    then show ?thesis
      using that [of "json_escape_ascii a" s' "[a]"] escape_ascii_piece [OF True] s True by (simp add: Let_def)
  next
    case high: False
    show ?thesis
    proof (cases "?w = 0")
      case True
      then show ?thesis using that [of "unicode_escape 0xFFFD" s' replacement] fffd(1) s high
        by (simp add: Let_def)
    next
      case False
      have rune: "piece (take ?w (a # s')) (take ?w (a # s'))"
        using piece_rune [of a s' ?w] high False by simp
      define e where "e = (if take ?w (a # s') = line_separator 0 then unicode_escape 0x2028
          else if take ?w (a # s') = line_separator 1 then unicode_escape 0x2029 else take ?w (a # s'))"
      have "piece e (take ?w (a # s'))" using rune fffd by (simp add: e_def)
      moreover have "json_escape s = e @ json_escape (drop ?w (a # s'))"
        using False high s by (simp add: e_def Let_def)
      moreover have "to_valid_utf8 s = take ?w (a # s') @ to_valid_utf8 (drop ?w (a # s'))"
        using False s by (simp add: Let_def)
      moreover have "length (drop ?w (a # s')) < length s" using False s by simp
      ultimately show ?thesis using that by blast
    qed
  qed
qed

text \<open>Decoding an encoded string gives it back, as valid UTF-8.\<close>

lemma unescape_escape: "unescape (json_escape s) = Some (to_valid_utf8 s)"
proof (induction s rule: length_induct)
  case (1 s)
  show ?case
  proof (cases "s = []")
    case False
    then obtain e v r where "json_escape s = e @ json_escape r" "to_valid_utf8 s = v @ to_valid_utf8 r"
      "piece e v" "length r < length s"
      by (rule escape_step)
    with 1 show ?thesis by (simp add: pieceD)
  qed simp
qed

lemma scan_escape: "scan_string (json_escape s @ CHR 0x22 # t) = Some (json_escape s, t)"
proof (induction s rule: length_induct)
  case (1 s)
  show ?case
  proof (cases "s = []")
    case False
    then obtain e v r where "json_escape s = e @ json_escape r" "to_valid_utf8 s = v @ to_valid_utf8 r"
      "piece e v" "length r < length s"
      by (rule escape_step)
    with 1 show ?thesis by (simp add: pieceD)
  qed simp
qed

lemma scan_string_shorter: "scan_string s = Some (raw, r) \<Longrightarrow> length r < length s"
  by (induction s arbitrary: raw r rule: scan_string.induct)
     (fastforce split: if_splits list.splits)+

section \<open>Numbers and literals\<close>

text \<open>One or more digits.\<close>

definition scan_digits :: "string \<Rightarrow> (string \<times> string) option" where
  "scan_digits s = (let d = takeWhile is_digit s in if d = [] then None else Some (d, drop (length d) s))"

definition scan_fraction :: "string \<Rightarrow> (string \<times> string) option" where
  "scan_fraction s =
     (if take 1 s = ''.'' then map_option (map_prod ((#) (CHR ''.'')) id) (scan_digits (drop 1 s)) else Some ([], s))"

definition scan_exponent :: "string \<Rightarrow> (string \<times> string) option" where
  "scan_exponent s =
     (if take 1 s = ''e'' \<or> take 1 s = ''E'' then
        (let sign = takeWhile (\<lambda>c. c = CHR ''+'' \<or> c = CHR ''-'') (take 1 (drop 1 s))
         in map_option (map_prod ((@) (take 1 s @ sign)) id) (scan_digits (drop (1 + length sign) s)))
      else Some ([], s))"

definition scan_integer :: "string \<Rightarrow> (string \<times> string) option" where
  "scan_integer s = (if take 1 s = ''0'' then Some (''0'', drop 1 s) else scan_digits s)"

definition scan_number :: "string \<Rightarrow> (string \<times> string) option" where
  "scan_number s =
     (let sign = (if take 1 s = ''-'' then ''-'' else [])
      in case scan_integer (drop (length sign) s) of
           None \<Rightarrow> None
         | Some (i, r) \<Rightarrow>
             (case scan_fraction r of
                None \<Rightarrow> None
              | Some (f, r') \<Rightarrow> map_option (map_prod ((@) (sign @ i @ f)) id) (scan_exponent r')))"

definition scan_literal :: "string \<Rightarrow> (json \<times> string) option" where
  "scan_literal s =
     (if take 4 s = ''null'' then Some (JNull, drop 4 s)
      else if take 4 s = ''true'' then Some (JBool True, drop 4 s)
      else if take 5 s = ''false'' then Some (JBool False, drop 5 s)
      else map_option (map_prod JNum id) (scan_number s))"

lemma scan_digits_shorter: "scan_digits s = Some (d, r) \<Longrightarrow> length r < length s"
  by (cases s) (auto simp: scan_digits_def Let_def split: if_splits)

lemma scan_fraction_le: "scan_fraction s = Some (d, r) \<Longrightarrow> length r \<le> length s"
  by (auto simp: scan_fraction_def split: if_splits dest!: scan_digits_shorter)

lemma scan_exponent_le: "scan_exponent s = Some (d, r) \<Longrightarrow> length r \<le> length s"
  by (auto simp: scan_exponent_def Let_def split: if_splits dest!: scan_digits_shorter)

lemma scan_integer_shorter: "scan_integer s = Some (d, r) \<Longrightarrow> length r < length s"
  by (cases s) (auto simp: scan_integer_def split: if_splits dest!: scan_digits_shorter)

lemma scan_number_shorter: "scan_number s = Some (d, r) \<Longrightarrow> length r < length s"
  by (auto simp: scan_number_def Let_def split: if_splits option.splits
      dest!: scan_integer_shorter scan_fraction_le scan_exponent_le)

lemma scan_literal_shorter: "scan_literal s = Some (j, r) \<Longrightarrow> length r < length s"
  by (cases s) (auto simp: scan_literal_def split: if_splits dest!: scan_number_shorter)

lemma skip_space_le: "length (skip_space s) \<le> length s"
  by (simp add: skip_space_def length_dropWhile_le)

end
