(* ===== verification/Go_Json.thy ===== *)
theory Go_Json
  imports Go_Json_Text
begin

text \<open>
  The values of a JSON text: the parser behind \<open>json.Unmarshal\<close> (which first checks the whole text
  and fails on more than 10000 nested values), the compact printer behind \<open>json.Marshal\<close>, and the
  way an object is matched against the fields of a struct. The parser takes fuel; twice the
  length of the text is enough (\<open>parse_fuel\<close>).
\<close>

section \<open>Parser\<close>

definition maxNestingDepth :: nat where
  "maxNestingDepth = 10000"

text \<open>The first byte of a text after white space, and what follows it.\<close>

definition next_token :: "string \<Rightarrow> (char \<times> string) option" where
  "next_token s = (case skip_space s of [] \<Rightarrow> None | c # r \<Rightarrow> Some (c, r))"

fun parse_value :: "nat \<Rightarrow> nat \<Rightarrow> string \<Rightarrow> (json \<times> string) option"
  and parse_elems :: "nat \<Rightarrow> nat \<Rightarrow> string \<Rightarrow> (json list \<times> string) option"
  and parse_members :: "nat \<Rightarrow> nat \<Rightarrow> string \<Rightarrow> ((string \<times> json) list \<times> string) option" where
  "parse_value 0 d s = None"
| "parse_value (Suc n) d s =
     (case next_token s of
        None \<Rightarrow> None
      | Some (c, t) \<Rightarrow>
          (if c = CHR 0x22 then map_option (map_prod JStr id) (scan_string t)
           else if c = CHR ''['' then
             (if d = 0 then None
              else case next_token t of
                     None \<Rightarrow> None
                   | Some (c', r) \<Rightarrow>
                       (if c' = CHR '']'' then Some (JArr [], r)
                        else map_option (map_prod JArr id) (parse_elems n (d - 1) t)))
           else if c = CHR ''{'' then
             (if d = 0 then None
              else case next_token t of
                     None \<Rightarrow> None
                   | Some (c', r) \<Rightarrow>
                       (if c' = CHR ''}'' then Some (JObj [], r)
                        else map_option (map_prod JObj id) (parse_members n (d - 1) t)))
           else scan_literal (c # t)))"
| "parse_elems 0 d s = None"
| "parse_elems (Suc n) d s =
     (case parse_value n d s of
        None \<Rightarrow> None
      | Some (x, r) \<Rightarrow>
          (case next_token r of
             None \<Rightarrow> None
           | Some (c, r') \<Rightarrow>
               (if c = CHR '']'' then Some ([x], r')
                else if c = CHR '','' then map_option (map_prod ((#) x) id) (parse_elems n d r')
                else None)))"
| "parse_members 0 d s = None"
| "parse_members (Suc n) d s =
     (case next_token s of
        None \<Rightarrow> None
      | Some (q, t) \<Rightarrow>
          (if q \<noteq> CHR 0x22 then None
           else case scan_string t of
             None \<Rightarrow> None
           | Some (k, r) \<Rightarrow>
               (case next_token r of
                  None \<Rightarrow> None
                | Some (colon, r1) \<Rightarrow>
                    (if colon \<noteq> CHR '':'' then None
                     else case parse_value n d r1 of
                       None \<Rightarrow> None
                     | Some (x, r2) \<Rightarrow>
                         (case next_token r2 of
                            None \<Rightarrow> None
                          | Some (c, r') \<Rightarrow>
                              (if c = CHR ''}'' then Some ([(k, x)], r')
                               else if c = CHR '','' then
                                 map_option (map_prod ((#) (k, x)) id) (parse_members n d r')
                               else None))))))"

definition json_parse :: "string \<Rightarrow> json option" where
  "json_parse s =
     (case parse_value (2 * length s + 1) maxNestingDepth s of
        None \<Rightarrow> None
      | Some (j, r) \<Rightarrow> if skip_space r = [] then Some j else None)"

section \<open>The fuel is enough\<close>

lemma next_token_shorter: "next_token s = Some (c, r) \<Longrightarrow> length r < length s"
  using skip_space_le [of s] by (auto simp: next_token_def split: list.splits)

lemma parse_shorter_all:
  "(\<forall>d s j r. parse_value n d s = Some (j, r) \<longrightarrow> length r < length s) \<and>
   (\<forall>d s js r. parse_elems n d s = Some (js, r) \<longrightarrow> length r < length s) \<and>
   (\<forall>d s ms r. parse_members n d s = Some (ms, r) \<longrightarrow> length r < length s)"
proof (induction n)
  case 0
  then show ?case by simp
next
  case (Suc n)
  then have v: "\<And>d s j r. parse_value n d s = Some (j, r) \<Longrightarrow> length r < length s"
    and e: "\<And>d s js r. parse_elems n d s = Some (js, r) \<Longrightarrow> length r < length s"
    and m: "\<And>d s ms r. parse_members n d s = Some (ms, r) \<Longrightarrow> length r < length s"
    by blast+
  show ?case
    by (intro conjI allI impI)
       (auto split: option.splits if_splits prod.splits
         dest!: next_token_shorter scan_string_shorter scan_literal_shorter v e m)
qed

lemma parse_value_shorter: "parse_value n d s = Some (j, r) \<Longrightarrow> length r < length s"
  using parse_shorter_all by blast

text \<open>Any two amounts of fuel above the bound give the same result.\<close>

lemma parse_fuel_all:
  "(\<forall>d s m. 2 * length s + 1 \<le> n \<longrightarrow> 2 * length s + 1 \<le> m \<longrightarrow> parse_value n d s = parse_value m d s) \<and>
   (\<forall>d s m. 2 * length s + 2 \<le> n \<longrightarrow> 2 * length s + 2 \<le> m \<longrightarrow> parse_elems n d s = parse_elems m d s) \<and>
   (\<forall>d s m. 2 * length s + 2 \<le> n \<longrightarrow> 2 * length s + 2 \<le> m \<longrightarrow> parse_members n d s = parse_members m d s)"
proof (induction n)
  case 0
  then show ?case by simp
next
  case (Suc n)
  then have v: "\<And>d s m. 2 * length s + 1 \<le> n \<Longrightarrow> 2 * length s + 1 \<le> m \<Longrightarrow> parse_value n d s = parse_value m d s"
    and e: "\<And>d s m. 2 * length s + 2 \<le> n \<Longrightarrow> 2 * length s + 2 \<le> m \<Longrightarrow> parse_elems n d s = parse_elems m d s"
    and mm: "\<And>d s m. 2 * length s + 2 \<le> n \<Longrightarrow> 2 * length s + 2 \<le> m \<Longrightarrow> parse_members n d s = parse_members m d s"
    by blast+
  have val: "parse_value (Suc n) d s = parse_value (Suc m) d s"
    if b: "2 * length s + 1 \<le> Suc n" "2 * length s + 1 \<le> Suc m" for d s m
  proof (cases "next_token s")
    case (Some p)
    obtain c t where p: "p = (c, t)" by (cases p)
    have "2 * length t + 2 \<le> n" "2 * length t + 2 \<le> m"
      using next_token_shorter Some p b by force+
    then have "parse_elems n (d - 1) t = parse_elems m (d - 1) t"
        "parse_members n (d - 1) t = parse_members m (d - 1) t"
      using e mm by blast+
    then show ?thesis using Some p by (auto split: option.splits)
  qed simp
  have elems: "parse_elems (Suc n) d s = parse_elems (Suc m) d s"
    if b: "2 * length s + 2 \<le> Suc n" "2 * length s + 2 \<le> Suc m" for d s m
  proof -
    have x: "parse_value n d s = parse_value m d s" by (rule v) (use b in simp_all)
    have "parse_elems n d r' = parse_elems m d r'"
      if "parse_value m d s = Some (j, r)" "next_token r = Some (c, r')" for j r c r'
      using parse_value_shorter [OF that(1)] next_token_shorter [OF that(2)] b by (intro e) simp_all
    then show ?thesis using x by (auto split: option.splits prod.splits)
  qed
  have members: "parse_members (Suc n) d s = parse_members (Suc m) d s"
    if b: "2 * length s + 2 \<le> Suc n" "2 * length s + 2 \<le> Suc m" for d s m
  proof -
    have x: "parse_value n d r1 = parse_value m d r1"
      if "next_token s = Some (q, t)" "scan_string t = Some (k, r)" "next_token r = Some (c, r1)" for q t k r c r1
      using next_token_shorter [OF that(1)] scan_string_shorter [OF that(2)] next_token_shorter [OF that(3)] b
      by (intro v) simp_all
    have "parse_members n d r' = parse_members m d r'"
      if "next_token s = Some (q, t)" "scan_string t = Some (k, r)" "next_token r = Some (c, r1)"
        "parse_value m d r1 = Some (j, r2)" "next_token r2 = Some (c', r')" for q t k r c r1 j r2 c' r'
      using next_token_shorter [OF that(1)] scan_string_shorter [OF that(2)] next_token_shorter [OF that(3)]
        parse_value_shorter [OF that(4)] next_token_shorter [OF that(5)] b
      by (intro mm) simp_all
    with x show ?thesis by (auto split: option.splits prod.splits)
  qed
  show ?case
  proof (intro conjI allI impI)
    fix d m and s :: string assume "2 * length s + 1 \<le> Suc n" "2 * length s + 1 \<le> m"
    then show "parse_value (Suc n) d s = parse_value m d s" using val [where m = "m - 1" and s = s and d = d] by (cases m) (simp_all del: parse_value.simps)
  next
    fix d m and s :: string assume "2 * length s + 2 \<le> Suc n" "2 * length s + 2 \<le> m"
    then show "parse_elems (Suc n) d s = parse_elems m d s" using elems [where m = "m - 1" and s = s and d = d] by (cases m) (simp_all del: parse_elems.simps)
  next
    fix d m and s :: string assume "2 * length s + 2 \<le> Suc n" "2 * length s + 2 \<le> m"
    then show "parse_members (Suc n) d s = parse_members m d s" using members [where m = "m - 1" and s = s and d = d] by (cases m) (simp_all del: parse_members.simps)
  qed
qed

lemma parse_fuel: "2 * length s + 1 \<le> n \<Longrightarrow> parse_value n d s = parse_value (2 * length s + 1) d s"
  using parse_fuel_all [of n] by blast

section \<open>Printer\<close>

fun json_print :: "json \<Rightarrow> string"
  and print_elems :: "json list \<Rightarrow> string"
  and print_members :: "(string \<times> json) list \<Rightarrow> string" where
  "json_print JNull = ''null''"
| "json_print (JBool b) = (if b then ''true'' else ''false'')"
| "json_print (JNum s) = s"
| "json_print (JStr s) = CHR 0x22 # s @ [CHR 0x22]"
| "json_print (JArr xs) = CHR ''['' # (if xs = [] then '']'' else print_elems xs)"
| "json_print (JObj ms) = CHR ''{'' # (if ms = [] then ''}'' else print_members ms)"
| "print_elems [] = []"
| "print_elems (x # xs) = json_print x @ (if xs = [] then '']'' else CHR '','' # print_elems xs)"
| "print_members [] = []"
| "print_members (m # ms) =
     CHR 0x22 # fst m @ [CHR 0x22, CHR '':''] @ json_print (snd m) @
       (if ms = [] then ''}'' else CHR '','' # print_members ms)"

text \<open>The trees the encoder builds: strings are scannable, and there are no numbers.\<close>

definition scannable :: "string \<Rightarrow> bool" where
  "scannable s \<longleftrightarrow> (\<forall>t. scan_string (s @ CHR 0x22 # t) = Some (s, t))"

lemma scannable_escape [simp]: "scannable (json_escape s)"
  by (simp add: scannable_def scan_escape)

fun encodable :: "nat \<Rightarrow> json \<Rightarrow> bool"
  and encodable_elems :: "nat \<Rightarrow> json list \<Rightarrow> bool"
  and encodable_members :: "nat \<Rightarrow> (string \<times> json) list \<Rightarrow> bool" where
  "encodable d JNull = True"
| "encodable d (JBool b) = True"
| "encodable d (JNum s) = False"
| "encodable d (JStr s) = scannable s"
| "encodable d (JArr xs) = (d \<noteq> 0 \<and> encodable_elems (d - 1) xs)"
| "encodable d (JObj ms) = (d \<noteq> 0 \<and> encodable_members (d - 1) ms)"
| "encodable_elems d [] = True"
| "encodable_elems d (x # xs) = (encodable d x \<and> encodable_elems d xs)"
| "encodable_members d [] = True"
| "encodable_members d (m # ms) = (scannable (fst m) \<and> encodable d (snd m) \<and> encodable_members d ms)"

lemma next_token_char [simp]: "\<not> is_space c \<Longrightarrow> next_token (c # s) = Some (c, s)"
  by (simp add: next_token_def skip_space_def)

lemma not_space [simp]:
  "\<not> is_space CHR 0x22" "\<not> is_space (CHR ''['')" "\<not> is_space (CHR '']'')" "\<not> is_space (CHR ''{'')"
  "\<not> is_space (CHR ''}'')" "\<not> is_space (CHR '','')" "\<not> is_space (CHR '':'')"
  "\<not> is_space (CHR ''n'')" "\<not> is_space (CHR ''t'')" "\<not> is_space (CHR ''f'')"
  by (simp_all add: is_space_def)

text \<open>A printed value starts with a character that is neither a space nor a closing bracket.\<close>

lemma print_start:
  "encodable d x \<Longrightarrow> \<exists>c t. json_print x = c # t \<and> \<not> is_space c \<and> c \<noteq> CHR '']''"
  by (cases x) auto

lemma parse_print_all:
  "encodable d x \<Longrightarrow> 2 * length (json_print x) + 1 \<le> n \<Longrightarrow>
     parse_value n d (json_print x @ r) = Some (x, r)"
  "encodable_elems d xs \<Longrightarrow> xs \<noteq> [] \<Longrightarrow> 2 * length (print_elems xs) + 2 \<le> n \<Longrightarrow>
     parse_elems n d (print_elems xs @ r) = Some (xs, r)"
  "encodable_members d ms \<Longrightarrow> ms \<noteq> [] \<Longrightarrow> 2 * length (print_members ms) + 2 \<le> n \<Longrightarrow>
     parse_members n d (print_members ms @ r) = Some (ms, r)"
proof (induction d x and d xs and d ms arbitrary: n r and n r and n r
    rule: encodable_encodable_elems_encodable_members.induct)
  case (5 d xs)
  then obtain k where n: "n = Suc k" by (cases n) auto
  show ?case
  proof (cases xs)
    case Nil
    then show ?thesis using 5 n by simp
  next
    case (Cons x ys)
    then obtain c t where t: "print_elems xs @ r = c # t" "\<not> is_space c" "c \<noteq> CHR '']''"
      using 5(2) print_start [of "d - 1" x] by auto
    have "parse_elems k (d - 1) (print_elems xs @ r) = Some (xs, r)"
      using 5 n Cons by (intro 5(1)) auto
    then show ?thesis using 5(2) n Cons t by (simp del: print_elems.simps)
  qed
next
  case (6 d ms)
  then obtain k where n: "n = Suc k" by (cases n) auto
  show ?case
  proof (cases ms)
    case Nil
    then show ?thesis using 6 n by simp
  next
    case (Cons m ys)
    have "parse_members k (d - 1) (print_members ms @ r) = Some (ms, r)"
      using 6 n Cons by (intro 6(1)) auto
    moreover obtain t where "print_members ms @ r = CHR 0x22 # t" using Cons by simp
    ultimately show ?thesis using 6(2) n Cons by (simp del: print_members.simps)
  qed
next
  case (8 d x xs)
  then obtain k where n: "n = Suc k" by (cases n) auto
  have "parse_value k d (json_print x @ t) = Some (x, t)" for t
    using 8(3-) n by (intro 8(1)) (auto split: if_splits)
  moreover have "parse_elems k d (print_elems xs @ r) = Some (xs, r)" if "xs \<noteq> []"
    using 8(3-) n that by (intro 8(2)) (auto split: if_splits)
  ultimately show ?case using n by simp
next
  case (10 d m ms)
  then obtain k where n: "n = Suc k" by (cases n) auto
  have "parse_value k d (json_print (snd m) @ t) = Some (snd m, t)" for t
    using 10(3-) n by (intro 10(1)) (auto split: if_splits)
  moreover have "parse_members k d (print_members ms @ r) = Some (ms, r)" if "ms \<noteq> []"
    using 10(3-) n that by (intro 10(2)) (auto split: if_splits)
  moreover have "scan_string (fst m @ CHR 0x22 # t) = Some (fst m, t)" for t
    using 10(3) by (simp add: scannable_def)
  ultimately show ?case using n by simp
next
  case (1 d)
  then show ?case by (cases n) (simp_all add: scan_literal_def)
next
  case (2 d b)
  then show ?case by (cases n) (simp_all add: scan_literal_def)
next
  case (4 d s)
  then show ?case by (cases n) (simp_all add: scannable_def)
qed simp_all

text \<open>Parsing what was printed gives the value back.\<close>

lemma json_parse_print: "encodable maxNestingDepth x \<Longrightarrow> json_parse (json_print x) = Some x"
  using parse_print_all(1) [of maxNestingDepth x "2 * length (json_print x) + 1" "[]"]
  by (simp add: json_parse_def skip_space_def)

interpretation json_text: codec json_print json_parse "encodable maxNestingDepth"
  by unfold_locales (rule json_parse_print)

section \<open>Objects and structs\<close>

text \<open>
  A key of an object is matched against the names of the fields: the field of that name, or
  else the first field whose name is equal up to case. Case folding identifies the letters
  with U+017F (long s) and U+212A (Kelvin sign), as Go does.
\<close>

function fold_key :: "string \<Rightarrow> string" where
  "fold_key [] = []"
| "fold_key (c # s) =
     (if 65 \<le> code c \<and> code c < 91 then chr (code c + 32) # fold_key s
      else if take 2 (c # s) = [CHR 0xC5, CHR 0xBF] then CHR ''s'' # fold_key (drop 1 s)
      else if take 3 (c # s) = [CHR 0xE2, CHR 0x84, CHR 0xAA] then CHR ''k'' # fold_key (drop 2 s)
      else c # fold_key s)"
  by pat_completeness auto
termination
  by (relation "measure length") auto

definition find_field :: "string list \<Rightarrow> string \<Rightarrow> string option" where
  "find_field names key =
     (if key \<in> set names then Some key
      else List.find (\<lambda>name. fold_key name = fold_key key) names)"

text \<open>
  Decoding an object into a struct: each member in turn sets the field it names; members that
  name none are ignored. \<open>set_field\<close> returns \<open>None\<close> where the member has the wrong type.
\<close>

fun decode_members ::
  "string list \<Rightarrow> (string \<Rightarrow> json \<Rightarrow> 'a \<Rightarrow> 'a option) \<Rightarrow> (string \<times> json) list \<Rightarrow> 'a \<Rightarrow> 'a option" where
  "decode_members names set_field [] x = Some x"
| "decode_members names set_field (m # ms) x =
     (case unescape (fst m) of
        None \<Rightarrow> None
      | Some key \<Rightarrow>
          (case find_field names key of
             None \<Rightarrow> decode_members names set_field ms x
           | Some name \<Rightarrow>
               (case set_field name (snd m) x of
                  None \<Rightarrow> None
                | Some x' \<Rightarrow> decode_members names set_field ms x')))"

definition decode_struct ::
  "string list \<Rightarrow> (string \<Rightarrow> json \<Rightarrow> 'a \<Rightarrow> 'a option) \<Rightarrow> json \<Rightarrow> 'a \<Rightarrow> 'a option" where
  "decode_struct names set_field j x =
     (case j of
        JNull \<Rightarrow> Some x
      | JObj ms \<Rightarrow> decode_members names set_field ms x
      | _ \<Rightarrow> None)"

text \<open>Fields of the types the program uses; null leaves a string or a bool as it is.\<close>

definition decode_string :: "json \<Rightarrow> string \<Rightarrow> string option" where
  "decode_string j old = (case j of JNull \<Rightarrow> Some old | JStr s \<Rightarrow> unescape s | _ \<Rightarrow> None)"

definition decode_bool :: "json \<Rightarrow> bool \<Rightarrow> bool option" where
  "decode_bool j old = (case j of JNull \<Rightarrow> Some old | JBool b \<Rightarrow> Some b | _ \<Rightarrow> None)"

fun decode_strings :: "json list \<Rightarrow> string list \<Rightarrow> string list option" where
  "decode_strings [] old = Some []"
| "decode_strings (j # js) old =
     (case decode_string j (case old of [] \<Rightarrow> [] | x # _ \<Rightarrow> x) of
        None \<Rightarrow> None
      | Some s \<Rightarrow> map_option ((#) s) (decode_strings js (drop 1 old)))"

definition decode_string_slice :: "json \<Rightarrow> string list \<Rightarrow> string list option" where
  "decode_string_slice j old = (case j of JNull \<Rightarrow> Some [] | JArr js \<Rightarrow> decode_strings js old | _ \<Rightarrow> None)"

definition json_string :: "string \<Rightarrow> json" where
  "json_string s = JStr (json_escape s)"

text \<open>A slice of strings; a nil slice is written as null.\<close>

definition json_string_slice :: "bool \<Rightarrow> string list \<Rightarrow> json" where
  "json_string_slice is_nil xs = (if is_nil \<and> xs = [] then JNull else JArr (map json_string xs))"

lemma decode_json_string [simp]: "decode_string (json_string s) old = Some (to_valid_utf8 s)"
  by (simp add: decode_string_def json_string_def unescape_escape)

lemma decode_strings_json: "decode_strings (map json_string xs) old = Some (map to_valid_utf8 xs)"
  by (induction xs arbitrary: old) simp_all

lemma decode_json_string_slice [simp]:
  "decode_string_slice (json_string_slice b xs) old = Some (map to_valid_utf8 xs)"
  by (simp add: decode_string_slice_def json_string_slice_def decode_strings_json)

lemma encodable_json_string [simp]: "encodable d (json_string s)"
  by (simp add: json_string_def)

lemma encodable_elems_json_string: "encodable_elems d (map json_string xs)"
  by (induction xs) simp_all

lemma encodable_json_string_slice [simp]: "d \<noteq> 0 \<Longrightarrow> encodable d (json_string_slice b xs)"
  by (simp add: json_string_slice_def encodable_elems_json_string)

end
