(* ===== verification/Go_Base64.thy ===== *)
theory Go_Base64
  imports Go_Json
begin

text \<open>
  The standard base64 encoding with padding, which \<open>encoding/json\<close> uses for \<open>[]byte\<close>, and the decoding
  of a JSON value into a \<open>[]byte\<close>: a base64 string, null, or an array of small numbers.
\<close>

section \<open>Plain text\<close>

text \<open>Text that is written between quotes as it is.\<close>

definition plain :: "string \<Rightarrow> bool" where
  "plain s \<longleftrightarrow> (\<forall>c \<in> set s. c \<noteq> CHR 0x22 \<and> c \<noteq> CHR 0x5C \<and> 32 \<le> code c \<and> code c < 0x80)"

lemma plain_simps [simp]:
  "plain []"
  "plain (c # s) \<longleftrightarrow> c \<noteq> CHR 0x22 \<and> c \<noteq> CHR 0x5C \<and> 32 \<le> code c \<and> code c < 0x80 \<and> plain s"
  "plain (s @ t) \<longleftrightarrow> plain s \<and> plain t"
  by (auto simp: plain_def)

lemma piece_append: "piece e v \<Longrightarrow> piece e' v' \<Longrightarrow> piece (e @ e') (v @ v')"
  by (auto simp: piece_def map_option_case split: option.splits)

lemma piece_Nil: "piece [] []"
  by (auto simp: piece_def map_option_case split: option.splits)

lemma plain_piece: "plain s \<Longrightarrow> piece s s"
proof (induction s)
  case (Cons c s)
  then have "piece ([c] @ s) ([c] @ s)" by (intro piece_append piece_char) simp_all
  then show ?case by simp
qed (rule piece_Nil)

lemma plain_scannable: "plain s \<Longrightarrow> scannable s"
  using pieceD(2) [OF plain_piece] by (simp add: scannable_def)

lemma plain_unescape: "plain s \<Longrightarrow> unescape s = Some s"
  using pieceD(1) [OF plain_piece, of s "[]"] by simp

section \<open>Base64\<close>

definition b64_char :: "nat \<Rightarrow> char" where
  "b64_char n =
     (if n < 26 then chr (65 + n) else if n < 52 then chr (71 + n)
      else if n < 62 then chr (n - 4) else if n = 62 then CHR ''+'' else CHR ''/'')"

definition b64_value :: "char \<Rightarrow> nat option" where
  "b64_value c =
     (if 65 \<le> code c \<and> code c < 91 then Some (code c - 65)
      else if 97 \<le> code c \<and> code c < 123 then Some (code c - 71)
      else if 48 \<le> code c \<and> code c < 58 then Some (code c + 4)
      else if c = CHR ''+'' then Some 62 else if c = CHR ''/'' then Some 63 else None)"

lemma code_b64_symbols [simp]:
  "code (CHR ''+'') = 43" "code (CHR ''/'') = 47" "code (CHR ''='') = 61"
  by (simp_all add: code_def)

lemma b64_value_char [simp]: "n < 64 \<Longrightarrow> b64_value (b64_char n) = Some n"
  by (auto simp: b64_value_def b64_char_def chr_eq_iff)

lemma code_b64: "n < 64 \<Longrightarrow> code (b64_char n) \<noteq> 61 \<and> 43 \<le> code (b64_char n) \<and> code (b64_char n) < 123 \<and>
    code (b64_char n) \<noteq> 92"
  by (auto simp: b64_char_def)

fun base64_encode :: "byte list \<Rightarrow> string" where
  "base64_encode [] = []"
| "base64_encode [x] =
     [b64_char (unat x div 4), b64_char (unat x mod 4 * 16), CHR ''='', CHR ''='']"
| "base64_encode [x, y] =
     [b64_char (unat x div 4), b64_char (unat x mod 4 * 16 + unat y div 16),
      b64_char (unat y mod 16 * 4), CHR ''='']"
| "base64_encode (x # y # z # bs) =
     [b64_char (unat x div 4), b64_char (unat x mod 4 * 16 + unat y div 16),
      b64_char (unat y mod 16 * 4 + unat z div 64), b64_char (unat z mod 64)] @ base64_encode bs"

text \<open>The three bytes of four sextets.\<close>

definition join0 :: "nat \<Rightarrow> nat \<Rightarrow> byte" where
  "join0 w x = word_of_nat (w * 4 + x div 16)"

definition join1 :: "nat \<Rightarrow> nat \<Rightarrow> byte" where
  "join1 x y = word_of_nat (x mod 16 * 16 + y div 4)"

definition join2 :: "nat \<Rightarrow> nat \<Rightarrow> byte" where
  "join2 y z = word_of_nat (y mod 4 * 64 + z)"

text \<open>The decoder skips line ends, wants the padding and ignores the unused bits before it.\<close>

fun base64_groups :: "string \<Rightarrow> byte list option" where
  "base64_groups [] = Some []"
| "base64_groups (a # b # c # d # s) =
     (case (b64_value a, b64_value b, b64_value c, b64_value d) of
        (Some w, Some x, Some y, Some z) \<Rightarrow>
          map_option ((@) [join0 w x, join1 x y, join2 y z]) (base64_groups s)
      | (Some w, Some x, Some y, None) \<Rightarrow>
          (if d = CHR ''='' \<and> s = [] then Some [join0 w x, join1 x y] else None)
      | (Some w, Some x, None, None) \<Rightarrow>
          (if c = CHR ''='' \<and> d = CHR ''='' \<and> s = [] then Some [join0 w x] else None)
      | _ \<Rightarrow> None)"
| "base64_groups _ = None"

definition base64_decode :: "string \<Rightarrow> byte list option" where
  "base64_decode s = base64_groups (filter (\<lambda>c. c \<noteq> CHR 0x0A \<and> c \<noteq> CHR 0x0D) s)"

lemma b64_value_pad [simp]: "b64_value (CHR ''='') = None"
  by (simp add: b64_value_def)

text \<open>The sextets of three bytes are below 64, and joining them gives the bytes back.\<close>

lemma sextets:
  fixes x y z :: byte
  shows "unat x div 4 < 64" "unat x mod 4 * 16 < 64" "unat x mod 4 * 16 + unat y div 16 < 64"
    "unat y mod 16 * 4 < 64" "unat y mod 16 * 4 + unat z div 64 < 64" "unat z mod 64 < 64"
proof -
  have "unat x div 4 < 64" "unat y div 16 < 16" "unat z div 64 < 4"
    using unat_byte_less [of x] unat_byte_less [of y] unat_byte_less [of z] by simp_all
  moreover have "unat x mod 4 < 4" "unat y mod 16 < 16" "unat z mod 64 < 64" by simp_all
  ultimately show "unat x div 4 < 64" "unat x mod 4 * 16 < 64" "unat x mod 4 * 16 + unat y div 16 < 64"
    "unat y mod 16 * 4 < 64" "unat y mod 16 * 4 + unat z div 64 < 64" "unat z mod 64 < 64"
    by linarith+
qed

lemma joins:
  fixes x y z :: byte
  shows "join0 (unat x div 4) (unat x mod 4 * 16) = x"
    "join0 (unat x div 4) (unat x mod 4 * 16 + unat y div 16) = x"
    "join1 (unat x mod 4 * 16 + unat y div 16) (unat y mod 16 * 4) = y"
    "join1 (unat x mod 4 * 16 + unat y div 16) (unat y mod 16 * 4 + unat z div 64) = y"
    "join2 (unat y mod 16 * 4 + unat z div 64) (unat z mod 64) = z"
proof -
  have small: "unat y div 16 < 16" "unat z div 64 < 4"
    using unat_byte_less [of y] unat_byte_less [of z] by simp_all
  have "(unat x mod 4 * 16 + unat y div 16) div 16 = unat x mod 4"
    "(unat x mod 4 * 16 + unat y div 16) mod 16 = unat y div 16"
    "(unat y mod 16 * 4 + unat z div 64) div 4 = unat y mod 16"
    "(unat y mod 16 * 4 + unat z div 64) mod 4 = unat z div 64"
    using small by (simp_all only: div_mult_self3 mod_mult_self3 div_less mod_less add_0_right numeral_neq_zero not_False_eq_True)
  then show "join0 (unat x div 4) (unat x mod 4 * 16) = x"
    "join0 (unat x div 4) (unat x mod 4 * 16 + unat y div 16) = x"
    "join1 (unat x mod 4 * 16 + unat y div 16) (unat y mod 16 * 4) = y"
    "join1 (unat x mod 4 * 16 + unat y div 16) (unat y mod 16 * 4 + unat z div 64) = y"
    "join2 (unat y mod 16 * 4 + unat z div 64) (unat z mod 64) = z"
    by (simp_all only: join0_def join1_def join2_def nonzero_mult_div_cancel_right numeral_neq_zero
        not_False_eq_True div_mult_mod_eq of_nat_unat unsigned_ucast_eq ucast_id)
qed

lemma base64_groups_encode: "base64_groups (base64_encode bs) = Some bs"
  by (induction bs rule: base64_encode.induct) (simp_all add: sextets joins)

lemma base64_no_newline: "\<forall>c \<in> set (base64_encode bs). 43 \<le> code c \<and> code c < 123 \<and> code c \<noteq> 92"
  by (induction bs rule: base64_encode.induct) (simp_all add: code_b64 sextets)

lemma base64_roundtrip [simp]: "base64_decode (base64_encode bs) = Some bs"
proof -
  have "\<forall>c \<in> set (base64_encode bs). c \<noteq> CHR 0x0A \<and> c \<noteq> CHR 0x0D"
    using base64_no_newline [of bs] by (auto simp: code_def)
  then have "filter (\<lambda>c. c \<noteq> CHR 0x0A \<and> c \<noteq> CHR 0x0D) (base64_encode bs) = base64_encode bs"
    by (simp add: filter_id_conv)
  then show ?thesis by (simp add: base64_decode_def base64_groups_encode)
qed

interpretation base64: codec base64_encode base64_decode "\<lambda>_. True"
  by unfold_locales simp

lemma plain_base64: "plain (base64_encode bs)"
  using base64_no_newline [of bs] by (fastforce simp: plain_def code_def)

section \<open>Byte slices in JSON\<close>

text \<open>The value of a number literal that is an unsigned integer of at most 8 bits.\<close>

definition decode_uint8 :: "string \<Rightarrow> byte option" where
  "decode_uint8 s =
     (let n = foldl (\<lambda>a c. a * 10 + (code c - 48)) 0 s
      in if s \<noteq> [] \<and> list_all is_digit s \<and> n < 256 then Some (word_of_nat n) else None)"

fun decode_uint8s :: "json list \<Rightarrow> byte list \<Rightarrow> byte list option" where
  "decode_uint8s [] old = Some []"
| "decode_uint8s (j # js) old =
     (case (case j of JNull \<Rightarrow> Some (case old of [] \<Rightarrow> 0 | x # _ \<Rightarrow> x) | JNum s \<Rightarrow> decode_uint8 s | _ \<Rightarrow> None) of
        None \<Rightarrow> None
      | Some b \<Rightarrow> map_option ((#) b) (decode_uint8s js (drop 1 old)))"

definition decode_byte_slice :: "json \<Rightarrow> byte list \<Rightarrow> byte list option" where
  "decode_byte_slice j old =
     (case j of
        JNull \<Rightarrow> Some []
      | JStr s \<Rightarrow> (case unescape s of None \<Rightarrow> None | Some t \<Rightarrow> base64_decode t)
      | JArr js \<Rightarrow> decode_uint8s js old
      | _ \<Rightarrow> None)"

text \<open>A nil slice is written as null.\<close>

definition json_byte_slice :: "bool \<Rightarrow> byte list \<Rightarrow> json" where
  "json_byte_slice is_nil bs = (if is_nil \<and> bs = [] then JNull else JStr (base64_encode bs))"

lemma decode_json_byte_slice [simp]: "decode_byte_slice (json_byte_slice b bs) old = Some bs"
  by (simp add: decode_byte_slice_def json_byte_slice_def plain_unescape plain_base64)

lemma encodable_json_byte_slice [simp]: "encodable d (json_byte_slice b bs)"
  by (simp add: json_byte_slice_def plain_scannable plain_base64)

end
