(* ===== verification/Message.thy ===== *)
theory Message
  imports Grav_Prelude
begin

text \<open>
  The built-in message of \<open>grav/message.go\<close>: the \<open>_message\<close> struct with its \<open>_meta\<close> and
  \<open>_payload\<close>, its constructors and accessors. The fresh UUID of \<open>uuid.New\<close> (a third-party
  package) and the clock reading of \<open>time.Now\<close> are arguments of the constructors.
  A \<open>Message\<close> interface value that may be nil is a \<open>message option\<close>.
\<close>

text \<open>A point in time: nanoseconds since the Unix epoch.\<close>

type_synonym time = int

record meta =
  meta_UUID :: uuid
  meta_ParentID :: string
  meta_ReplyTo :: uuid
  meta_MsgType :: string
  meta_Timestamp :: time

record payload =
  payload_Data :: "byte list"

record message =
  Meta :: meta
  Payload :: payload

type_synonym msg_ref = "message option"

definition MsgTypeDefault :: string where
  "MsgTypeDefault = ''grav.default''"

definition msgTypePodFeedback :: string where
  "msgTypePodFeedback = ''grav.feedback''"

definition new_message :: "uuid \<Rightarrow> time \<Rightarrow> string \<Rightarrow> string \<Rightarrow> byte list \<Rightarrow> message" where
  "new_message uid now msgType parentID data =
     \<lparr>Meta = \<lparr>meta_UUID = uid, meta_ParentID = parentID, meta_ReplyTo = '''',
              meta_MsgType = msgType, meta_Timestamp = now\<rparr>,
      Payload = \<lparr>payload_Data = data\<rparr>\<rparr>"

definition NewMsg :: "uuid \<Rightarrow> time \<Rightarrow> string \<Rightarrow> byte list \<Rightarrow> message" where
  "NewMsg uid now msgType data = new_message uid now msgType '''' data"

definition NewMsgWithParentID :: "uuid \<Rightarrow> time \<Rightarrow> string \<Rightarrow> string \<Rightarrow> byte list \<Rightarrow> message" where
  "NewMsgWithParentID uid now msgType parentID data = new_message uid now msgType parentID data"

definition msg_UUID :: "message \<Rightarrow> uuid" where
  "msg_UUID m = meta_UUID (Meta m)"

definition msg_ParentID :: "message \<Rightarrow> string" where
  "msg_ParentID m = meta_ParentID (Meta m)"

definition msg_ReplyTo :: "message \<Rightarrow> uuid" where
  "msg_ReplyTo m = meta_ReplyTo (Meta m)"

definition msg_SetReplyTo :: "message \<Rightarrow> uuid \<Rightarrow> message" where
  "msg_SetReplyTo m u = m\<lparr>Meta := (Meta m)\<lparr>meta_ReplyTo := u\<rparr>\<rparr>"

definition msg_Type :: "message \<Rightarrow> string" where
  "msg_Type m = meta_MsgType (Meta m)"

definition msg_Timestamp :: "message \<Rightarrow> time" where
  "msg_Timestamp m = meta_Timestamp (Meta m)"

definition msg_Data :: "message \<Rightarrow> byte list" where
  "msg_Data m = payload_Data (Payload m)"

text \<open>\<open>NewMsgReplyTo\<close> takes the receipt by value and uses only its \<open>UUID\<close>.\<close>

definition NewMsgReplyTo :: "uuid \<Rightarrow> time \<Rightarrow> uuid \<Rightarrow> string \<Rightarrow> byte list \<Rightarrow> message" where
  "NewMsgReplyTo uid now ticketUUID msgType data =
     msg_SetReplyTo (new_message uid now msgType '''' data) ticketUUID"

lemma msg_SetReplyTo_access [simp]:
  "msg_UUID (msg_SetReplyTo m u) = msg_UUID m"
  "msg_Type (msg_SetReplyTo m u) = msg_Type m"
  "msg_ParentID (msg_SetReplyTo m u) = msg_ParentID m"
  "msg_Timestamp (msg_SetReplyTo m u) = msg_Timestamp m"
  "msg_Data (msg_SetReplyTo m u) = msg_Data m"
  "msg_ReplyTo (msg_SetReplyTo m u) = u"
  by (simp_all add: msg_SetReplyTo_def msg_UUID_def msg_Type_def msg_ParentID_def
      msg_Timestamp_def msg_Data_def msg_ReplyTo_def)

lemma new_message_access [simp]:
  "msg_UUID (new_message uid now ty par d) = uid"
  "msg_Type (new_message uid now ty par d) = ty"
  "msg_ParentID (new_message uid now ty par d) = par"
  "msg_Timestamp (new_message uid now ty par d) = now"
  "msg_Data (new_message uid now ty par d) = d"
  "msg_ReplyTo (new_message uid now ty par d) = ''''"
  by (simp_all add: new_message_def msg_UUID_def msg_Type_def msg_ParentID_def
      msg_Timestamp_def msg_Data_def msg_ReplyTo_def)

lemma NewMsg_access [simp]:
  "msg_UUID (NewMsg uid now ty d) = uid"
  "msg_Type (NewMsg uid now ty d) = ty"
  "msg_Data (NewMsg uid now ty d) = d"
  "msg_ReplyTo (NewMsg uid now ty d) = ''''"
  by (simp_all add: NewMsg_def)

end
