(* ===== verification/Go_Time.thy ===== *)
theory Go_Time
  imports Go_Base64 Message "HOL-Library.Monad_Syntax"
begin

text \<open>
  What \<open>encoding/json\<close> does with a \<open>time.Time\<close>: RFC 3339 with up to nine digits of a second. A time
  is a number of nanoseconds since the Unix epoch; the offset from UTC of the zone in which it is
  written, in minutes, is an argument. A year outside of 0 to 9999 is an error.
\<close>

section \<open>Digits\<close>

definition digit :: "nat \<Rightarrow> char" where
  "digit n = chr (48 + n)"

fun digits :: "nat \<Rightarrow> nat \<Rightarrow> string" where
  "digits 0 n = []"
| "digits (Suc k) n = digits k (n div 10) @ [digit (n mod 10)]"

definition number :: "string \<Rightarrow> nat" where
  "number s = foldl (\<lambda>a c. a * 10 + (code c - 48)) 0 s"

lemma length_digits [simp]: "length (digits k n) = k"
  by (induction k n rule: digits.induct) simp_all

lemma digit_props [simp]: "n < 10 \<Longrightarrow> is_digit (digit n)" "n < 10 \<Longrightarrow> code (digit n) = 48 + n"
  by (simp_all add: digit_def is_digit_def)

lemma digits_all [simp]: "list_all is_digit (digits k n)"
  by (induction k n rule: digits.induct) simp_all

lemma number_snoc: "number (s @ [c]) = number s * 10 + (code c - 48)"
  by (simp add: number_def)

lemma number_digits [simp]: "n < 10 ^ k \<Longrightarrow> number (digits k n) = n"
  by (induction k n rule: digits.induct) (simp_all add: number_snoc number_def [of "[]"] less_mult_imp_div_less)

lemma plain_digit_list: "list_all is_digit s \<Longrightarrow> plain s"
  by (induction s) (auto simp: is_digit_def code_def)

section \<open>The calendar\<close>

definition leap :: "nat \<Rightarrow> bool" where
  "leap y \<longleftrightarrow> y mod 4 = 0 \<and> (y mod 100 \<noteq> 0 \<or> y mod 400 = 0)"

definition year_length :: "nat \<Rightarrow> nat" where
  "year_length y = (if leap y then 366 else 365)"

definition month_lengths :: "nat \<Rightarrow> nat list" where
  "month_lengths y = [31, if leap y then 29 else 28, 31, 30, 31, 30, 31, 31, 30, 31, 30, 31]"

lemma sum_month_lengths: "sum_list (month_lengths y) = year_length y"
  by (simp add: month_lengths_def year_length_def)

fun days_before_year :: "nat \<Rightarrow> nat" where
  "days_before_year 0 = 0"
| "days_before_year (Suc y) = days_before_year y + year_length y"

text \<open>The year of a day counted from the first of January of year \<open>y\<close>, and the day within it.\<close>

function split_year :: "nat \<Rightarrow> nat \<Rightarrow> nat \<times> nat" where
  "split_year y d = (if d < year_length y then (y, d) else split_year (Suc y) (d - year_length y))"
  by pat_completeness auto
termination
  by (relation "measure snd") (auto simp: year_length_def split: if_splits)

declare split_year.simps [simp del]

lemma split_year_ok:
  "split_year y d = (y', d') \<Longrightarrow> days_before_year y' + d' = days_before_year y + d \<and> d' < year_length y'"
proof (induction y d rule: split_year.induct)
  case (1 y d)
  then show ?case
    by (subst (asm) (2) split_year.simps) (auto split: if_splits)
qed

text \<open>The month, from 0, of a day of the year, and the day of the month, from 0.\<close>

fun split_month :: "nat list \<Rightarrow> nat \<Rightarrow> nat \<times> nat" where
  "split_month [] d = (0, d)"
| "split_month (l # ls) d = (if d < l then (0, d) else map_prod Suc id (split_month ls (d - l)))"

lemma split_month_ok:
  "split_month ls d = (m, d') \<Longrightarrow> d < sum_list ls \<Longrightarrow>
     m < length ls \<and> d' < ls ! m \<and> sum_list (take m ls) + d' = d"
proof (induction ls d arbitrary: m d' rule: split_month.induct)
  case (2 l ls d)
  show ?case
  proof (cases "d < l")
    case True
    with 2 show ?thesis by auto
  next
    case False
    obtain a where a: "split_month ls (d - l) = (a, d')" "m = Suc a"
      using 2(2) False by (auto simp: map_prod_def split: prod.splits)
    have "d - l < sum_list ls" using 2(3) False by simp
    with 2(1) [OF False a(1)] show ?thesis using False a(2) by (auto simp: le_diff_conv2 not_less)
  qed
qed simp

lemma days_before_year_mono: "y \<le> z \<Longrightarrow> days_before_year y \<le> days_before_year z"
  by (rule lift_Suc_mono_le [of days_before_year]) simp_all

text \<open>The closed form, and the first day after the year 9999.\<close>

lemma div_Suc_count: "(Suc k + y) div Suc k = (y + k) div Suc k + (if y mod Suc k = 0 then 1 else 0)"
proof (cases y)
  case (Suc n)
  have "(n + Suc k) div Suc k = Suc (n div Suc k)" "(Suc k + y) div Suc k = Suc (y div Suc k)"
    by (simp_all add: div_add_self1 div_add_self2 del: add_Suc_right add_Suc)
  then show ?thesis using Suc div_Suc [of n "Suc k"] by simp
qed simp

lemma days_before_year_closed:
  "days_before_year y + (y + 99) div 100 = 365 * y + (y + 3) div 4 + (y + 399) div 400"
proof (induction y)
  case 0
  then show ?case by simp
next
  case (Suc y)
  define e4 e100 e400 where e: "e4 = (if y mod 4 = 0 then 1 else 0 :: nat)"
    "e100 = (if y mod 100 = 0 then 1 else 0 :: nat)" "e400 = (if y mod 400 = 0 then 1 else 0 :: nat)"
  have "100 dvd y \<Longrightarrow> 4 dvd y" by (rule dvd_trans [of 4 100]) simp_all
  moreover have "400 dvd y \<Longrightarrow> 100 dvd y" by (rule dvd_trans [of 100 400]) simp_all
  ultimately have "y mod 100 = 0 \<Longrightarrow> y mod 4 = 0" "y mod 400 = 0 \<Longrightarrow> y mod 100 = 0"
    by (simp_all only: mod_eq_0_iff_dvd)
  then have "year_length y + e100 = 365 + e4 + e400"
    by (auto simp: e year_length_def leap_def)
  moreover have "(4 + y) div 4 = (y + 3) div 4 + e4" "(100 + y) div 100 = (y + 99) div 100 + e100"
    "(400 + y) div 400 = (y + 399) div 400 + e400"
    unfolding e using div_Suc_count [of 3 y] div_Suc_count [of 99 y] div_Suc_count [of 399 y] by simp_all
  moreover have "(Suc y + 99) div 100 = (100 + y) div 100" "(Suc y + 3) div 4 = (4 + y) div 4"
    "(Suc y + 399) div 400 = (400 + y) div 400"
    by simp_all
  ultimately show ?case using Suc
    by (simp only: days_before_year.simps mult_Suc_right)
qed

lemma split_year_bound:
  assumes "split_year 0 d = (y, r)" and "d < 3652425"
  shows "y < 10000"
proof (rule ccontr)
  assume "\<not> y < 10000"
  then have "days_before_year 10000 \<le> days_before_year y" by (intro days_before_year_mono) simp
  moreover have "days_before_year 10000 = 3652425" using days_before_year_closed [of 10000] by simp
  ultimately show False using split_year_ok [OF assms(1)] assms(2) by simp
qed

section \<open>Printing\<close>

definition nanos_per_second :: int where
  "nanos_per_second = 1000000000"

text \<open>The days from the first of January of the year 0 to the epoch.\<close>

definition epoch_days :: int where
  "epoch_days = 719528"

fun strip_zeros :: "string \<Rightarrow> string" where
  "strip_zeros [] = []"
| "strip_zeros (c # s) = (let r = strip_zeros s in if r = [] \<and> c = CHR ''0'' then [] else c # r)"

definition print_fraction :: "nat \<Rightarrow> string" where
  "print_fraction ns = (let f = strip_zeros (digits 9 ns) in if f = [] then [] else CHR ''.'' # f)"

definition print_zone :: "int \<Rightarrow> string" where
  "print_zone off =
     (if off = 0 then ''Z''
      else (if off < 0 then CHR ''-'' else CHR ''+'')
        # digits 2 (nat \<bar>off\<bar> div 60) @ '':'' @ digits 2 (nat \<bar>off\<bar> mod 60))"

text \<open>The seconds of a time on the clock of its zone, counted from the start of the year 0.\<close>

definition local_seconds :: "int \<Rightarrow> time \<Rightarrow> int" where
  "local_seconds off t = t div nanos_per_second + 60 * off + 86400 * epoch_days"

definition print_clock :: "nat \<Rightarrow> string" where
  "print_clock s = digits 2 (s div 3600) @ '':'' @ digits 2 (s div 60 mod 60) @ '':'' @ digits 2 (s mod 60)"

definition print_date :: "nat \<Rightarrow> string" where
  "print_date d =
     (let (y, yd) = split_year 0 d; (m, md) = split_month (month_lengths y) yd
      in digits 4 y @ ''-'' @ digits 2 (m + 1) @ ''-'' @ digits 2 (md + 1))"

definition print_time :: "int \<Rightarrow> time \<Rightarrow> string option" where
  "print_time off t =
     (let s = local_seconds off t
      in if s < 0 \<or> 86400 * 3652425 \<le> s then None
         else Some (print_date (nat s div 86400) @ ''T'' @ print_clock (nat s mod 86400) @
                print_fraction (nat (t mod nanos_per_second)) @ print_zone off))"

section \<open>Parsing\<close>

text \<open>A number of exactly \<open>k\<close> digits at position \<open>i\<close>.\<close>

definition number_at :: "nat \<Rightarrow> nat \<Rightarrow> string \<Rightarrow> nat option" where
  "number_at i k s =
     (let f = take k (drop i s) in if length f = k \<and> list_all is_digit f then Some (number f) else None)"

definition char_at :: "nat \<Rightarrow> char \<Rightarrow> string \<Rightarrow> unit option" where
  "char_at i c s = (if take 1 (drop i s) = [c] then Some () else None)"

definition guard :: "bool \<Rightarrow> unit option" where
  "guard b = (if b then Some () else None)"

definition parse_date :: "string \<Rightarrow> nat option" where
  "parse_date s = do {
     y \<leftarrow> number_at 0 4 s; char_at 4 (CHR ''-'') s;
     m \<leftarrow> number_at 5 2 s; char_at 7 (CHR ''-'') s;
     d \<leftarrow> number_at 8 2 s;
     guard (1 \<le> m \<and> m \<le> 12);
     guard (1 \<le> d \<and> d \<le> month_lengths y ! (m - 1));
     Some (days_before_year y + sum_list (take (m - 1) (month_lengths y)) + (d - 1)) }"

definition parse_clock :: "string \<Rightarrow> nat option" where
  "parse_clock s = do {
     h \<leftarrow> number_at 0 2 s; char_at 2 (CHR '':'') s;
     m \<leftarrow> number_at 3 2 s; char_at 5 (CHR '':'') s;
     x \<leftarrow> number_at 6 2 s;
     guard (h < 24 \<and> m < 60 \<and> x < 60);
     Some (h * 3600 + m * 60 + x) }"

text \<open>The nanoseconds, and what follows them; digits after the ninth are ignored.\<close>

definition parse_fraction :: "string \<Rightarrow> (nat \<times> string) option" where
  "parse_fraction s =
     (if take 1 s = ''.'' then
        (let f = takeWhile is_digit (drop 1 s)
         in if f = [] then None
            else Some (number (take 9 (f @ replicate 9 (CHR ''0''))), drop (1 + length f) s))
      else Some (0, s))"

definition parse_zone :: "string \<Rightarrow> int option" where
  "parse_zone s =
     (if s = ''Z'' then Some 0
      else do {
        h \<leftarrow> number_at 1 2 s; char_at 3 (CHR '':'') s; m \<leftarrow> number_at 4 2 s;
        guard (length s = 6 \<and> h < 24 \<and> m < 60);
        (if take 1 s = ''+'' then Some (int (h * 60 + m))
         else if take 1 s = ''-'' then Some (- int (h * 60 + m)) else None) })"

definition parse_time :: "string \<Rightarrow> time option" where
  "parse_time s = do {
     d \<leftarrow> parse_date s; char_at 10 (CHR ''T'') s;
     c \<leftarrow> parse_clock (drop 11 s);
     (ns, r) \<leftarrow> parse_fraction (drop 19 s);
     off \<leftarrow> parse_zone r;
     Some ((int (86400 * d + c) - 60 * off - 86400 * epoch_days) * nanos_per_second + int ns) }"

section \<open>Round trip\<close>

lemma number_at_digits [simp]: "n < 10 ^ k \<Longrightarrow> number_at 0 k (digits k n @ s) = Some n"
  by (simp add: number_at_def)

lemma number_at_digits_end [simp]: "n < 10 ^ k \<Longrightarrow> number_at 0 k (digits k n) = Some n"
  using number_at_digits [of n k "[]"] by simp

lemma number_at_skip: "length p \<le> i \<Longrightarrow> number_at i k (p @ s) = number_at (i - length p) k s"
  by (simp add: number_at_def)

lemma char_at_skip: "length p \<le> i \<Longrightarrow> char_at i c (p @ s) = char_at (i - length p) c s"
  by (simp add: char_at_def)

lemma char_at_here [simp]: "char_at 0 c (c # s) = Some ()"
  by (simp add: char_at_def)

lemma number_at_Cons [simp]: "0 < i \<Longrightarrow> number_at i k (c # s) = number_at (i - 1) k s"
  by (cases i) (simp_all add: number_at_def)

lemma char_at_Cons [simp]: "0 < i \<Longrightarrow> char_at i c (d # s) = char_at (i - 1) c s"
  by (cases i) (simp_all add: char_at_def)

lemma guard_True [simp]: "guard True = Some ()"
  by (simp add: guard_def)

lemma month_lengths_le: "m < 12 \<Longrightarrow> month_lengths y ! m \<le> 31"
  by (auto simp: month_lengths_def less_Suc_eq numeral_eq_Suc)

lemma parse_print_date:
  assumes "d < 3652425"
  shows "parse_date (print_date d @ s) = Some d" and "length (print_date d) = 10"
proof -
  obtain y yd where y: "split_year 0 d = (y, yd)" by (cases "split_year 0 d")
  obtain m md where m: "split_month (month_lengths y) yd = (m, md)" by (cases "split_month (month_lengths y) yd")
  have yd: "days_before_year y + yd = d" "yd < year_length y" using split_year_ok [OF y] by simp_all
  have md: "m < 12" "md < month_lengths y ! m" "sum_list (take m (month_lengths y)) + md = yd"
    using split_month_ok [OF m] yd(2) by (simp_all add: sum_month_lengths) (simp add: month_lengths_def)
  have "y < 10000" using split_year_bound [OF y assms] .
  moreover have "md + 1 < 100" using md(2) month_lengths_le [OF md(1), of y] by simp
  moreover have p: "print_date d = digits 4 y @ ''-'' @ digits 2 (m + 1) @ ''-'' @ digits 2 (md + 1)"
    by (simp add: print_date_def y m)
  ultimately show "parse_date (print_date d @ s) = Some d"
    using md yd(1) by (simp add: parse_date_def number_at_skip char_at_skip del: digits.simps)
  show "length (print_date d) = 10" by (simp add: p del: digits.simps)
qed

lemma parse_print_clock:
  assumes "c < 86400"
  shows "parse_clock (print_clock c @ s) = Some c" and "length (print_clock c) = 8"
proof -
  have "c div 3600 < 24" "c div 60 mod 60 < 60" "c mod 60 < 60" using assms by (simp_all add: less_mult_imp_div_less)
  moreover have "c div 3600 * 3600 + c div 60 mod 60 * 60 + c mod 60 = c"
  proof -
    have "c div 3600 * 60 + c div 60 mod 60 = c div 60"
      using div_mult_mod_eq [of "c div 60" 60] by (simp flip: div_mult2_eq)
    moreover have "c div 60 * 60 + c mod 60 = c" by (rule div_mult_mod_eq)
    ultimately show ?thesis by linarith
  qed
  ultimately show "parse_clock (print_clock c @ s) = Some c"
    by (simp add: parse_clock_def print_clock_def number_at_skip char_at_skip del: digits.simps)
  show "length (print_clock c) = 8" by (simp add: print_clock_def)
qed

lemma strip_zeros_pad: "strip_zeros s @ replicate (length s - length (strip_zeros s)) (CHR ''0'') = s"
proof (induction s)
  case (Cons c s)
  have "length (strip_zeros s) \<le> length s" by (metis Cons.IH length_append le_add1)
  then show ?case using Cons.IH by (auto simp: Let_def Suc_diff_le)
qed simp

lemma strip_zeros_subset: "set (strip_zeros s) \<subseteq> set s"
  by (induction s) (auto simp: Let_def)

lemma not_digit_zone: "print_zone off = c # r \<Longrightarrow> \<not> is_digit c \<and> c \<noteq> CHR ''.''"
  by (auto simp: print_zone_def is_digit_def code_def split: if_splits)

lemma print_zone_nonempty: "print_zone off \<noteq> []"
  by (simp add: print_zone_def)

lemma parse_print_fraction:
  assumes "ns < 10 ^ 9"
  shows "parse_fraction (print_fraction ns @ print_zone off) = Some (ns, print_zone off)"
proof -
  let ?f = "strip_zeros (digits 9 ns)"
  obtain c r where z: "print_zone off = c # r" using print_zone_nonempty by (cases "print_zone off") auto
  then have c: "\<not> is_digit c" "c \<noteq> CHR ''.''" using not_digit_zone by blast+
  have pad: "?f @ replicate (9 - length ?f) (CHR ''0'') = digits 9 ns"
    using strip_zeros_pad [of "digits 9 ns"] by simp
  have ns: "number (digits 9 ns) = ns" using assms by simp
  show ?thesis
  proof (cases "?f = []")
    case True
    then have "number (replicate 9 (CHR ''0'')) = ns" using pad ns by simp
    moreover have "number (replicate 9 (CHR ''0'')) = 0" by (simp add: number_def code_def numeral_eq_Suc)
    ultimately show ?thesis using True z c(2) by (simp add: parse_fraction_def print_fraction_def)
  next
    case False
    have "list_all is_digit ?f"
      using strip_zeros_subset [of "digits 9 ns"] digits_all [of 9 ns] by (auto simp: list_all_iff simp del: digits_all)
    then have tw: "takeWhile is_digit (?f @ print_zone off) = ?f"
      using z c(1) by (simp add: list_all_iff takeWhile_append2)
    have "length ?f \<le> 9" using arg_cong [OF pad, of length] by simp
    then have "take 9 (?f @ replicate 9 (CHR ''0'')) = ?f @ replicate (9 - length ?f) (CHR ''0'')"
      by simp
    then have "number (take 9 (?f @ replicate 9 (CHR ''0''))) = ns" using pad ns by simp
    then show ?thesis using False tw by (simp add: parse_fraction_def print_fraction_def Let_def)
  qed
qed

lemma parse_print_zone:
  assumes "\<bar>off\<bar> < 1440"
  shows "parse_zone (print_zone off) = Some off"
proof (cases "off = 0")
  case True
  then show ?thesis by (simp add: parse_zone_def print_zone_def)
next
  case False
  let ?n = "nat \<bar>off\<bar>"
  have "?n div 60 < 24" "?n mod 60 < 60" using assms by (simp_all add: less_mult_imp_div_less)
  moreover have "?n div 60 * 60 + ?n mod 60 = ?n" by (rule div_mult_mod_eq)
  ultimately show ?thesis using False
    by (simp add: parse_zone_def print_zone_def number_at_skip char_at_skip flip: of_nat_mult of_nat_add
        del: digits.simps)
qed

lemma parse_time_parts:
  assumes "d < 3652425" and "c < 86400" and "ns < 10 ^ 9" and "\<bar>off\<bar> < 1440"
  shows "parse_time (print_date d @ ''T'' @ print_clock c @ print_fraction ns @ print_zone off) =
    Some ((int (86400 * d + c) - 60 * off - 86400 * epoch_days) * nanos_per_second + int ns)"
  using parse_print_date [OF assms(1)] parse_print_clock [OF assms(2)] parse_print_fraction [OF assms(3)]
    parse_print_zone [OF assms(4)]
  by (simp add: parse_time_def char_at_skip)

text \<open>A time is written without loss, whatever the zone it is written in.\<close>

lemma parse_print_time:
  assumes "print_time off t = Some s" and "\<bar>off\<bar> < 1440"
  shows "parse_time s = Some t"
proof -
  let ?l = "nat (local_seconds off t)"
  let ?ns = "nat (t mod nanos_per_second)"
  have l: "0 \<le> local_seconds off t" "?l < 86400 * 3652425"
    using assms(1) by (auto simp: print_time_def Let_def split: if_splits)
  have s: "s = print_date (?l div 86400) @ ''T'' @ print_clock (?l mod 86400) @ print_fraction ?ns @ print_zone off"
    using assms(1) by (simp add: print_time_def Let_def split: if_splits)
  have d: "?l div 86400 < 3652425" using l(2) by (simp add: less_mult_imp_div_less)
  have c: "?l mod 86400 < 86400" by simp
  have ns: "?ns < 10 ^ 9" by (simp add: nanos_per_second_def nat_less_iff)
  have "parse_time s = Some ((int (86400 * (?l div 86400) + ?l mod 86400) - 60 * off - 86400 * epoch_days)
      * nanos_per_second + int ?ns)"
    unfolding s by (rule parse_time_parts [OF d c ns assms(2)])
  moreover have "int (86400 * (?l div 86400) + ?l mod 86400) = local_seconds off t"
    unfolding mult_div_mod_eq using l(1) by simp
  moreover have "(local_seconds off t - 60 * off - 86400 * epoch_days) * nanos_per_second + int ?ns = t"
    by (simp add: local_seconds_def nanos_per_second_def)
  ultimately show ?thesis by simp
qed

lemma plain_digits [simp]: "plain (digits k n)"
  by (rule plain_digit_list) (rule digits_all)

lemma plain_fraction [simp]: "plain (print_fraction n)"
proof -
  have "plain (strip_zeros (digits 9 n))"
    using plain_digits [of 9 n] strip_zeros_subset [of "digits 9 n"] unfolding plain_def by blast
  then show ?thesis by (simp add: print_fraction_def Let_def code_def)
qed

lemma plain_time: "print_time off t = Some s \<Longrightarrow> plain s"
  by (auto simp: print_time_def print_date_def print_clock_def print_zone_def Let_def code_def
      simp del: digits.simps split: if_splits prod.splits)

end
