(* ===== verification/Transport.thy ===== *)
theory Transport
  imports Message
begin

text \<open>
  The interfaces of \<open>grav/transport.go\<close> and \<open>grav/discovery.go\<close>. A transport plugin works on
  a network that is not part of the program: the model of an interface is a record of
  functions that take and return the state \<open>'w\<close> of that outside world, on connections named
  by \<open>'c\<close>. Every definition that uses a plugin takes the record as a parameter.
\<close>

record transportHandshake =
  hs_UUID :: uuid
  hs_BelongsTo :: string
  hs_Interests :: "string list"

record transportHandshakeAck =
  ack_Accept :: bool
  ack_UUID :: uuid
  ack_BelongsTo :: string
  ack_Interests :: "string list"

record withdraw =
  wd_Ack :: bool

text \<open>The options that \<open>initHub\<close> gives to the plugins, without the logger and the unused \<open>Custom\<close>.\<close>

record meshOptions =
  mo_NodeUUID :: uuid
  mo_Port :: string
  mo_URI :: string

record bridgeOptions =
  bo_NodeUUID :: uuid

record discoveryOpts =
  do_NodeUUID :: uuid
  do_TransportPort :: string
  do_TransportURI :: string

text \<open>
  The \<open>Connection\<close> interface. A returned pointer that may be nil is an option. An incoming
  handshake calls the callback on the handshake it has read; the function returns that
  handshake, \<open>None\<close> if it never called the callback, and its error.
\<close>

record ('c, 'w) connection =
  co_SendMsg :: "'c \<Rightarrow> message \<Rightarrow> 'w \<Rightarrow> error option \<times> 'w"
  co_ReadMsg :: "'c \<Rightarrow> 'w \<Rightarrow> (msg_ref \<times> withdraw option \<times> error option) \<times> 'w"
  co_OutgoingHandshake :: "'c \<Rightarrow> transportHandshake \<Rightarrow> 'w \<Rightarrow> (transportHandshakeAck option \<times> error option) \<times> 'w"
  co_IncomingHandshake ::
    "'c \<Rightarrow> (transportHandshake \<Rightarrow> transportHandshakeAck) \<Rightarrow> 'w \<Rightarrow> (transportHandshake option \<times> error option) \<times> 'w"
  co_SendWithdraw :: "'c \<Rightarrow> withdraw \<Rightarrow> 'w \<Rightarrow> error option \<times> 'w"
  co_Close :: "'c \<Rightarrow> 'w \<Rightarrow> error option \<times> 'w"

text \<open>The \<open>Connect\<close> methods of the two transport interfaces.\<close>

record ('c, 'w) meshTransport =
  mt_Connect :: "string \<Rightarrow> 'w \<Rightarrow> (error + 'c) \<times> 'w"

record ('b, 'w) bridgeTransport =
  bt_ConnectTopic :: "string \<Rightarrow> 'w \<Rightarrow> (error + 'b) \<times> 'w"

end
