(* ===== verification/Message_Codec.thy ===== *)
theory Message_Codec
  imports Go_Time Transport
begin

text \<open>
  The JSON encoding of messages, \<open>Marshal\<close>, \<open>Unmarshal\<close> and \<open>MsgFromBytes\<close> of \<open>grav/message.go\<close>, and of the
  handshakes of \<open>grav/transport.go\<close>, by the struct tags of the source on top of \<open>encoding/json\<close>.
  The model of a message has no nil slices and no time zones; the argument \<open>marshalEnv\<close> of the
  encoders says which empty slices are nil and in which zone a time is written.
\<close>

section \<open>Structs and JSON\<close>

record marshalEnv =
  env_nilData :: bool
  env_nilInterests :: bool
  env_zone :: "time \<Rightarrow> int"

text \<open>Offsets from UTC are less than a day.\<close>

definition env_ok :: "marshalEnv \<Rightarrow> bool" where
  "env_ok env \<longleftrightarrow> (\<forall>t. \<bar>env_zone env t\<bar> < 1440)"

text \<open>The names of the fields are written without escapes.\<close>

definition field_name :: "string \<Rightarrow> bool" where
  "field_name k \<longleftrightarrow> plain k"

text \<open>Times in UTC, no nil slices.\<close>

definition utc_env :: marshalEnv where
  "utc_env = \<lparr>env_nilData = False, env_nilInterests = False, env_zone = (\<lambda>_. 0)\<rparr>"

lemma utc_env_ok [simp]: "env_ok utc_env"
  by (simp add: env_ok_def utc_env_def)

lemma decode_member_known:
  "field_name k \<Longrightarrow> k \<in> set names \<Longrightarrow>
     decode_members names f ((k, j) # ms) x =
       (case f k j x of None \<Rightarrow> None | Some x' \<Rightarrow> decode_members names f ms x')"
  by (simp add: field_name_def plain_unescape find_field_def)

lemma scannable_field_name [simp]: "field_name k \<Longrightarrow> scannable k"
  by (simp add: field_name_def plain_scannable)

definition meta_fields :: "string list" where
  "meta_fields = [''uuid'', ''parent_id'', ''response_to'', ''msg_type'', ''timestamp'']"

definition message_fields :: "string list" where
  "message_fields = [''meta'', ''payload'']"

definition handshake_fields :: "string list" where
  "handshake_fields = [''uuid'', ''belongsTo'', ''interests'']"

definition ack_fields :: "string list" where
  "ack_fields = [''accept'', ''uuid'', ''belongsTo'', ''interests'']"

lemma field_names [simp]:
  "field_name ''uuid''" "field_name ''parent_id''" "field_name ''response_to''" "field_name ''msg_type''" "field_name ''timestamp''"
  "field_name ''meta''" "field_name ''payload''" "field_name ''data''" "field_name ''belongsTo''" "field_name ''interests''" "field_name ''accept''"
  by (simp_all add: field_name_def code_def)

section \<open>Messages\<close>

text \<open>The zero value of \<open>time.Time\<close>, the first of January of the year 1.\<close>

definition zero_time :: time where
  "zero_time = - 62135596800 * nanos_per_second"

definition zero_message :: message where
  "zero_message =
     \<lparr>Meta = \<lparr>meta_UUID = '''', meta_ParentID = '''', meta_ReplyTo = '''', meta_MsgType = '''',
              meta_Timestamp = zero_time\<rparr>,
      Payload = \<lparr>payload_Data = []\<rparr>\<rparr>"

definition json_meta :: "string \<Rightarrow> meta \<Rightarrow> json" where
  "json_meta timestamp m =
     JObj [(''uuid'', json_string (meta_UUID m)), (''parent_id'', json_string (meta_ParentID m)),
           (''response_to'', json_string (meta_ReplyTo m)), (''msg_type'', json_string (meta_MsgType m)),
           (''timestamp'', JStr timestamp)]"

definition json_payload :: "bool \<Rightarrow> payload \<Rightarrow> json" where
  "json_payload is_nil p = JObj [(''data'', json_byte_slice is_nil (payload_Data p))]"

definition json_message :: "bool \<Rightarrow> string \<Rightarrow> message \<Rightarrow> json" where
  "json_message is_nil timestamp m =
     JObj [(''meta'', json_meta timestamp (Meta m)), (''payload'', json_payload is_nil (Payload m))]"

definition message_Marshal :: "marshalEnv \<Rightarrow> message \<Rightarrow> error + byte list" where
  "message_Marshal env m =
     (case print_time (env_zone env (msg_Timestamp m)) (msg_Timestamp m) of
        None \<Rightarrow> Inl (ErrorText ''Time.MarshalJSON: year outside of range [0,9999]'')
      | Some t \<Rightarrow> Inr (to_bytes (json_print (json_message (env_nilData env) t m))))"

definition decode_time :: "json \<Rightarrow> time \<Rightarrow> time option" where
  "decode_time j old = (case j of JNull \<Rightarrow> Some old | JStr s \<Rightarrow> parse_time s | _ \<Rightarrow> None)"

definition set_meta :: "string \<Rightarrow> json \<Rightarrow> meta \<Rightarrow> meta option" where
  "set_meta name j m =
     (if name = ''uuid'' then map_option (\<lambda>s. m\<lparr>meta_UUID := s\<rparr>) (decode_string j (meta_UUID m))
      else if name = ''parent_id'' then map_option (\<lambda>s. m\<lparr>meta_ParentID := s\<rparr>) (decode_string j (meta_ParentID m))
      else if name = ''response_to'' then map_option (\<lambda>s. m\<lparr>meta_ReplyTo := s\<rparr>) (decode_string j (meta_ReplyTo m))
      else if name = ''msg_type'' then map_option (\<lambda>s. m\<lparr>meta_MsgType := s\<rparr>) (decode_string j (meta_MsgType m))
      else map_option (\<lambda>t. m\<lparr>meta_Timestamp := t\<rparr>) (decode_time j (meta_Timestamp m)))"

definition set_payload :: "string \<Rightarrow> json \<Rightarrow> payload \<Rightarrow> payload option" where
  "set_payload name j p = map_option (\<lambda>d. p\<lparr>payload_Data := d\<rparr>) (decode_byte_slice j (payload_Data p))"

definition set_message :: "string \<Rightarrow> json \<Rightarrow> message \<Rightarrow> message option" where
  "set_message name j m =
     (if name = ''meta'' then map_option (\<lambda>x. m\<lparr>Meta := x\<rparr>) (decode_struct meta_fields set_meta j (Meta m))
      else map_option (\<lambda>x. m\<lparr>Payload := x\<rparr>) (decode_struct [''data''] set_payload j (Payload m)))"

text \<open>\<open>json.Unmarshal\<close> into a value that is decoded by \<open>dec\<close>.\<close>

definition json_Unmarshal :: "(json \<Rightarrow> 'a \<Rightarrow> 'a option) \<Rightarrow> byte list \<Rightarrow> 'a \<Rightarrow> error + 'a" where
  "json_Unmarshal dec bytes x =
     (case json_parse (of_bytes bytes) of
        None \<Rightarrow> Inl (ErrorText ''invalid JSON'')
      | Some j \<Rightarrow> (case dec j x of None \<Rightarrow> Inl (ErrorText ''cannot unmarshal'') | Some x' \<Rightarrow> Inr x'))"

definition message_Unmarshal :: "message \<Rightarrow> byte list \<Rightarrow> error + message" where
  "message_Unmarshal m bytes = json_Unmarshal (decode_struct message_fields set_message) bytes m"

definition MsgFromBytes :: "byte list \<Rightarrow> error + message" where
  "MsgFromBytes bytes = (case message_Unmarshal zero_message bytes of Inl e \<Rightarrow> Inl e | Inr m \<Rightarrow> Inr m)"

text \<open>\<open>MsgFromRequest\<close> on what \<open>ioutil.ReadAll\<close> returns for the body of the request.\<close>

definition MsgFromRequest :: "error + byte list \<Rightarrow> error + message" where
  "MsgFromRequest body = (case body of Inl err \<Rightarrow> Inl err | Inr bytes \<Rightarrow> MsgFromBytes bytes)"

text \<open>\<open>UnmarshalData\<close> into a target of the caller, which \<open>dec\<close> decodes.\<close>

definition message_UnmarshalData :: "(json \<Rightarrow> 'a \<Rightarrow> 'a option) \<Rightarrow> message \<Rightarrow> 'a \<Rightarrow> error + 'a" where
  "message_UnmarshalData dec m target = json_Unmarshal dec (msg_Data m) target"

section \<open>Handshakes\<close>

definition json_handshake :: "marshalEnv \<Rightarrow> transportHandshake \<Rightarrow> json" where
  "json_handshake env h =
     JObj [(''uuid'', json_string (hs_UUID h)), (''belongsTo'', json_string (hs_BelongsTo h)),
           (''interests'', json_string_slice (env_nilInterests env) (hs_Interests h))]"

definition json_ack :: "marshalEnv \<Rightarrow> transportHandshakeAck \<Rightarrow> json" where
  "json_ack env a =
     JObj [(''accept'', JBool (ack_Accept a)), (''uuid'', json_string (ack_UUID a)),
           (''belongsTo'', json_string (ack_BelongsTo a)),
           (''interests'', json_string_slice (env_nilInterests env) (ack_Interests a))]"

definition set_handshake :: "string \<Rightarrow> json \<Rightarrow> transportHandshake \<Rightarrow> transportHandshake option" where
  "set_handshake name j h =
     (if name = ''uuid'' then map_option (\<lambda>s. h\<lparr>hs_UUID := s\<rparr>) (decode_string j (hs_UUID h))
      else if name = ''belongsTo'' then map_option (\<lambda>s. h\<lparr>hs_BelongsTo := s\<rparr>) (decode_string j (hs_BelongsTo h))
      else map_option (\<lambda>xs. h\<lparr>hs_Interests := xs\<rparr>) (decode_string_slice j (hs_Interests h)))"

definition set_ack :: "string \<Rightarrow> json \<Rightarrow> transportHandshakeAck \<Rightarrow> transportHandshakeAck option" where
  "set_ack name j a =
     (if name = ''accept'' then map_option (\<lambda>b. a\<lparr>ack_Accept := b\<rparr>) (decode_bool j (ack_Accept a))
      else if name = ''uuid'' then map_option (\<lambda>s. a\<lparr>ack_UUID := s\<rparr>) (decode_string j (ack_UUID a))
      else if name = ''belongsTo'' then map_option (\<lambda>s. a\<lparr>ack_BelongsTo := s\<rparr>) (decode_string j (ack_BelongsTo a))
      else map_option (\<lambda>xs. a\<lparr>ack_Interests := xs\<rparr>) (decode_string_slice j (ack_Interests a)))"

definition zero_handshake :: transportHandshake where
  "zero_handshake = \<lparr>hs_UUID = '''', hs_BelongsTo = '''', hs_Interests = []\<rparr>"

definition zero_ack :: transportHandshakeAck where
  "zero_ack = \<lparr>ack_Accept = False, ack_UUID = '''', ack_BelongsTo = '''', ack_Interests = []\<rparr>"

definition handshake_Marshal :: "marshalEnv \<Rightarrow> transportHandshake \<Rightarrow> byte list" where
  "handshake_Marshal env h = to_bytes (json_print (json_handshake env h))"

definition handshake_Unmarshal :: "byte list \<Rightarrow> error + transportHandshake" where
  "handshake_Unmarshal bytes = json_Unmarshal (decode_struct handshake_fields set_handshake) bytes zero_handshake"

definition ack_Marshal :: "marshalEnv \<Rightarrow> transportHandshakeAck \<Rightarrow> byte list" where
  "ack_Marshal env a = to_bytes (json_print (json_ack env a))"

definition ack_Unmarshal :: "byte list \<Rightarrow> error + transportHandshakeAck" where
  "ack_Unmarshal bytes = json_Unmarshal (decode_struct ack_fields set_ack) bytes zero_ack"

section \<open>Round trips\<close>

lemma json_Unmarshal_print [simp]:
  "encodable maxNestingDepth j \<Longrightarrow>
     json_Unmarshal dec (to_bytes (json_print j)) x =
       (case dec j x of None \<Rightarrow> Inl (ErrorText ''cannot unmarshal'') | Some x' \<Rightarrow> Inr x')"
  by (simp add: json_Unmarshal_def json_parse_print)

text \<open>A message after a round trip: its strings with every invalid byte replaced.\<close>

definition valid_meta :: "meta \<Rightarrow> meta" where
  "valid_meta m =
     \<lparr>meta_UUID = to_valid_utf8 (meta_UUID m), meta_ParentID = to_valid_utf8 (meta_ParentID m),
      meta_ReplyTo = to_valid_utf8 (meta_ReplyTo m), meta_MsgType = to_valid_utf8 (meta_MsgType m),
      meta_Timestamp = meta_Timestamp m\<rparr>"

definition valid_message :: "message \<Rightarrow> message" where
  "valid_message m = m\<lparr>Meta := valid_meta (Meta m)\<rparr>"

definition valid_handshake :: "transportHandshake \<Rightarrow> transportHandshake" where
  "valid_handshake h =
     \<lparr>hs_UUID = to_valid_utf8 (hs_UUID h), hs_BelongsTo = to_valid_utf8 (hs_BelongsTo h),
      hs_Interests = map to_valid_utf8 (hs_Interests h)\<rparr>"

definition valid_ack :: "transportHandshakeAck \<Rightarrow> transportHandshakeAck" where
  "valid_ack a =
     \<lparr>ack_Accept = ack_Accept a, ack_UUID = to_valid_utf8 (ack_UUID a),
      ack_BelongsTo = to_valid_utf8 (ack_BelongsTo a), ack_Interests = map to_valid_utf8 (ack_Interests a)\<rparr>"

lemma decode_struct_object [simp]: "decode_struct names f (JObj ms) x = decode_members names f ms x"
  by (simp add: decode_struct_def)

lemma decode_meta:
  assumes "print_time off (meta_Timestamp m) = Some t" and "\<bar>off\<bar> < 1440"
  shows "decode_struct meta_fields set_meta (json_meta t m) old = Some (valid_meta m)"
  using parse_print_time [OF assms]
  by (simp add: decode_struct_def json_meta_def decode_member_known meta_fields_def set_meta_def decode_time_def
      valid_meta_def del: decode_members.simps(2))

lemma decode_message:
  assumes "print_time off (msg_Timestamp m) = Some t" and "\<bar>off\<bar> < 1440"
  shows "decode_struct message_fields set_message (json_message b t m) old = Some (valid_message m)"
proof -
  have "decode_struct meta_fields set_meta (json_meta t (Meta m)) x = Some (valid_meta (Meta m))" for x
    using decode_meta assms by (simp add: msg_Timestamp_def)
  moreover have "decode_struct [''data''] set_payload (json_payload b (Payload m)) x = Some (Payload m)" for x
    by (simp add: decode_struct_def json_payload_def decode_member_known set_payload_def del: decode_members.simps(2))
  ultimately show ?thesis
    by (simp add: json_message_def message_fields_def decode_member_known set_message_def valid_message_def
        del: decode_members.simps(2))
qed

lemma encodable_message:
  assumes "print_time off t = Some s"
  shows "encodable maxNestingDepth (json_message b s m)"
  using plain_scannable [OF plain_time [OF assms]]
  by (simp add: maxNestingDepth_def json_message_def json_meta_def json_payload_def)

lemma decode_handshake:
  "decode_struct handshake_fields set_handshake (json_handshake env h) old = Some (valid_handshake h)"
  by (simp add: decode_struct_def json_handshake_def decode_member_known handshake_fields_def set_handshake_def
      valid_handshake_def del: decode_members.simps(2))

lemma decode_ack: "decode_struct ack_fields set_ack (json_ack env a) old = Some (valid_ack a)"
  by (simp add: decode_struct_def json_ack_def decode_member_known ack_fields_def set_ack_def
      valid_ack_def decode_bool_def del: decode_members.simps(2))

lemma handshake_roundtrip [simp]: "handshake_Unmarshal (handshake_Marshal env h) = Inr (valid_handshake h)"
proof -
  have "encodable maxNestingDepth (json_handshake env h)" by (simp add: maxNestingDepth_def json_handshake_def)
  then show ?thesis by (simp add: handshake_Unmarshal_def handshake_Marshal_def decode_handshake)
qed

lemma ack_roundtrip [simp]: "ack_Unmarshal (ack_Marshal env a) = Inr (valid_ack a)"
proof -
  have "encodable maxNestingDepth (json_ack env a)" by (simp add: maxNestingDepth_def json_ack_def)
  then show ?thesis by (simp add: ack_Unmarshal_def ack_Marshal_def decode_ack)
qed

text \<open>Messages whose strings are valid UTF-8.\<close>

definition text_ok :: "message \<Rightarrow> bool" where
  "text_ok m \<longleftrightarrow> valid_utf8 (msg_UUID m) \<and> valid_utf8 (msg_ParentID m) \<and> valid_utf8 (msg_ReplyTo m) \<and>
     valid_utf8 (msg_Type m)"

lemma valid_message_id: "text_ok m \<Longrightarrow> valid_message m = m"
  by (simp add: text_ok_def valid_message_def valid_meta_def msg_UUID_def msg_ParentID_def msg_ReplyTo_def
      msg_Type_def to_valid_utf8_id)

lemma MsgFromBytes_Marshal:
  assumes "env_ok env" and "message_Marshal env m = Inr bytes"
  shows "MsgFromBytes bytes = Inr (valid_message m)"
proof -
  obtain t where t: "print_time (env_zone env (msg_Timestamp m)) (msg_Timestamp m) = Some t"
    and bytes: "bytes = to_bytes (json_print (json_message (env_nilData env) t m))"
    using assms(2) by (auto simp: message_Marshal_def split: option.splits)
  have "\<bar>env_zone env (msg_Timestamp m)\<bar> < 1440" using assms(1) by (simp add: env_ok_def)
  with decode_message [OF t] show ?thesis
    using encodable_message [OF t] by (simp add: bytes MsgFromBytes_def message_Unmarshal_def)
qed

section \<open>Foreign objects\<close>

text \<open>An object none of whose keys names a field of the message leaves it as it was.\<close>

lemma decode_members_foreign:
  "\<forall>m \<in> set ms. \<exists>k. unescape (fst m) = Some k \<and> find_field names k = None \<Longrightarrow> decode_members names f ms x = Some x"
  by (induction ms) auto

section \<open>Properties\<close>

text \<open>The year of a time, on the clock of the zone it is written in, is one of 0 to 9999.\<close>

definition year_ok :: "marshalEnv \<Rightarrow> time \<Rightarrow> bool" where
  "year_ok env t \<longleftrightarrow> 0 \<le> local_seconds (env_zone env t) t \<and> local_seconds (env_zone env t) t < 86400 * 3652425"

lemma Marshal_ok_iff: "(\<exists>bytes. message_Marshal env m = Inr bytes) \<longleftrightarrow> year_ok env (msg_Timestamp m)"
  by (auto simp: message_Marshal_def print_time_def year_ok_def Let_def)

text \<open>Property C15. A message survives its encoding: \<open>Marshal\<close> succeeds exactly on messages of the years 0
  to 9999, and decoding the bytes gives the same message, its time to the nanosecond whatever zone it
  was written in, its data byte by byte, and its strings with every byte that is not part of valid
  UTF-8 replaced by U+FFFD; a message with valid strings comes back unchanged.\<close>

theorem message_roundtrip:
  assumes "env_ok env"
  shows "(case message_Marshal env m of
            Inl e \<Rightarrow> \<not> year_ok env (msg_Timestamp m)
          | Inr bytes \<Rightarrow> year_ok env (msg_Timestamp m) \<and> MsgFromBytes bytes = Inr (valid_message m))
       \<and> (text_ok m \<longrightarrow> valid_message m = m)"
  using MsgFromBytes_Marshal [OF assms] Marshal_ok_iff [of env m] valid_message_id [of m]
  by (auto split: sum.splits)

lemma text_ok_NewMsg:
  "\<forall>c \<in> set u. code c < 0x80 \<Longrightarrow> \<forall>c \<in> set ty. code c < 0x80 \<Longrightarrow> text_ok (NewMsg u t ty d)"
  by (simp add: text_ok_def msg_ParentID_def NewMsg_def new_message_def msg_UUID_def msg_ReplyTo_def msg_Type_def
      valid_utf8_ascii)

theorem message_roundtrip_witness:
  "\<exists>bytes. message_Marshal \<lparr>env_nilData = True, env_nilInterests = False, env_zone = (\<lambda>_. 120)\<rparr>
        (NewMsg ''u'' 1654500000123456789 ''t'' [1, 2]) = Inr bytes
    \<and> MsgFromBytes bytes = Inr (NewMsg ''u'' 1654500000123456789 ''t'' [1, 2])"
proof -
  let ?env = "\<lparr>env_nilData = True, env_nilInterests = False, env_zone = (\<lambda>_. 120)\<rparr>"
  let ?m = "NewMsg ''u'' 1654500000123456789 ''t'' [1, 2]"
  have env: "env_ok ?env" by (simp add: env_ok_def)
  have "msg_Timestamp ?m = 1654500000123456789" by (simp add: NewMsg_def)
  then have year: "year_ok ?env (msg_Timestamp ?m)"
    by (simp add: year_ok_def local_seconds_def nanos_per_second_def epoch_days_def)
  have strings: "text_ok ?m" by (rule text_ok_NewMsg) (simp_all add: code_def)
  show ?thesis
    using message_roundtrip [OF env, of ?m] year strings by (cases "message_Marshal ?env ?m") simp_all
qed

text \<open>Property C29. The decoder takes any JSON object for a message: one that has no key like \<open>meta\<close> or
  \<open>payload\<close> is decoded without an error into the zero message, and its content is lost. The receivers,
  which fall back to the raw bytes only when decoding fails, never see it.\<close>

theorem foreign_object_is_lost:
  assumes "json_parse (of_bytes bytes) = Some (JObj ms)"
    and "\<forall>m \<in> set ms. \<exists>k. unescape (fst m) = Some k \<and> find_field message_fields k = None"
  shows "MsgFromBytes bytes = Inr zero_message
    \<and> msg_UUID zero_message = [] \<and> msg_Type zero_message = [] \<and> msg_Data zero_message = []"
  using assms(1) decode_members_foreign [OF assms(2), of set_message zero_message]
  by (simp_all add: MsgFromBytes_def message_Unmarshal_def json_Unmarshal_def zero_message_def msg_UUID_def
      msg_Type_def msg_Data_def)

theorem foreign_object_is_lost_witness:
  "MsgFromBytes (to_bytes (json_print (JObj [(''temperature'', JStr ''21'')]))) = Inr zero_message"
proof -
  let ?j = "JObj [(''temperature'', JStr ''21'')]"
  have s: "scannable ''temperature''" "scannable ''21''" by (rule plain_scannable; simp add: code_def)+
  have "encodable maxNestingDepth ?j"
    by (simp only: encodable.simps encodable_members.simps fst_conv snd_conv s) (simp add: maxNestingDepth_def)
  then have "json_parse (of_bytes (to_bytes (json_print ?j))) = Some ?j"
    by (simp only: of_bytes_to_bytes json_parse_print)
  moreover have u: "unescape ''temperature'' = Some ''temperature''"
    by (rule plain_unescape) (simp add: code_def)
  have "find_field message_fields ''temperature'' = None"
    by (simp add: find_field_def message_fields_def code_def)
  with u have "\<forall>m \<in> set [(''temperature'', JStr ''21'')]. \<exists>k. unescape (fst m) = Some k \<and> find_field message_fields k = None"
    by (simp only: list.set ball_simps fst_conv option.inject) simp
  ultimately show ?thesis using foreign_object_is_lost by blast
qed

end
