(* ===== verification/Msg_Buffer.thy ===== *)
theory Msg_Buffer
  imports Message
begin

text \<open>
  The bounded message buffer of \<open>grav/msgbuffer.go\<close>: a map from UUIDs to messages and a ring
  \<open>order\<close> of UUIDs. \<open>Push\<close> evicts the oldest message, \<open>Next\<close> cycles over the ring, \<open>Iter\<close>
  walks it once from the oldest message. The mutex makes each operation atomic, so an
  operation is one state transformation. The interface \<open>replay_log\<close> is what a client that
  replays recent messages needs from it.
\<close>

section \<open>State and operations\<close>

definition defaultBufferSize :: int where
  "defaultBufferSize = 128"

text \<open>\<open>limit\<close> is a Go \<open>int\<close> chosen by the caller; the indices never become negative.\<close>

record msgbuffer =
  mb_msgs :: "uuid \<rightharpoonup> message"
  mb_order :: "uuid list"
  mb_limit :: int
  mb_startIndex :: nat
  mb_nextIndex :: nat

definition NewMsgBuffer :: "int \<Rightarrow> msgbuffer" where
  "NewMsgBuffer limit =
     \<lparr>mb_msgs = Map.empty, mb_order = [], mb_limit = limit, mb_startIndex = 0, mb_nextIndex = 0\<rparr>"

definition MsgBuffer_Push :: "msgbuffer \<Rightarrow> message \<Rightarrow> panic + msgbuffer" where
  "MsgBuffer_Push m msg =
     (let m1 = m\<lparr>mb_msgs := (mb_msgs m)(msg_UUID msg \<mapsto> msg)\<rparr>;
          lastIndex = int (length (mb_order m)) - 1
      in if int (length (mb_order m)) = mb_limit m then
           (case go_index (mb_order m) (mb_startIndex m) of
              Inl p \<Rightarrow> Inl p
            | Inr first \<Rightarrow>
                Inr (m1\<lparr>mb_msgs := (mb_msgs m1)(first := None),
                        mb_order := (mb_order m)[mb_startIndex m := msg_UUID msg],
                        mb_startIndex := (if int (mb_startIndex m) = lastIndex then 0
                                          else Suc (mb_startIndex m))\<rparr>))
         else Inr (m1\<lparr>mb_order := mb_order m @ [msg_UUID msg]\<rparr>))"

text \<open>A missing map entry reads as the nil message.\<close>

definition MsgBuffer_Next :: "msgbuffer \<Rightarrow> panic + (msg_ref \<times> msgbuffer)" where
  "MsgBuffer_Next m =
     (if mb_order m = [] then Inr (None, m)
      else case go_index (mb_order m) (mb_nextIndex m) of
             Inl p \<Rightarrow> Inl p
           | Inr uuid \<Rightarrow>
               Inr (mb_msgs m uuid,
                    m\<lparr>mb_nextIndex := (if mb_nextIndex m = length (mb_order m) - 1 then 0
                                       else Suc (mb_nextIndex m))\<rparr>))"

text \<open>
  \<open>Iter\<close> ignores the error \<open>msgFunc\<close> returns, so \<open>msgFunc\<close> is a state transformer of its
  caller. The loop runs until the index comes back to \<open>startIndex\<close>; \<open>None\<close> would be a loop
  that does not.
\<close>

partial_function (option) iter_loop ::
  "('s \<Rightarrow> msg_ref \<Rightarrow> 's) \<Rightarrow> msgbuffer \<Rightarrow> nat \<Rightarrow> 's \<Rightarrow> 's run" where
  "iter_loop msgFunc m index s =
     (case go_index (mb_order m) index of
        Inl p \<Rightarrow> Some (Inl p)
      | Inr uuid \<Rightarrow>
          (let s' = msgFunc s (mb_msgs m uuid);
               index' = (if index = length (mb_order m) - 1 then 0 else Suc index)
           in if index' = mb_startIndex m then Some (Inr s')
              else iter_loop msgFunc m index' s'))"

declare iter_loop.simps [code]

definition MsgBuffer_Iter :: "('s \<Rightarrow> msg_ref \<Rightarrow> 's) \<Rightarrow> msgbuffer \<Rightarrow> 's \<Rightarrow> 's run" where
  "MsgBuffer_Iter msgFunc m s =
     (if mb_order m = [] then Some (Inr s) else iter_loop msgFunc m (mb_startIndex m) s)"

text \<open>Pushing a list of messages, one after the other.\<close>

fun push_seq :: "('b \<Rightarrow> message \<Rightarrow> panic + 'b) \<Rightarrow> 'b \<Rightarrow> message list \<Rightarrow> panic + 'b" where
  "push_seq push b [] = Inr b"
| "push_seq push b (m # ms) = (case push b m of Inl p \<Rightarrow> Inl p | Inr b' \<Rightarrow> push_seq push b' ms)"

section \<open>The index invariant\<close>

text \<open>The UUID ring from the oldest entry on, and what a replay sees of it.\<close>

definition mb_ring :: "msgbuffer \<Rightarrow> uuid list" where
  "mb_ring m = rotate (mb_startIndex m) (mb_order m)"

definition buffer_log :: "msgbuffer \<Rightarrow> msg_ref list" where
  "buffer_log m = map (mb_msgs m) (mb_ring m)"

text \<open>
  Kept by every operation whatever is pushed: the ring respects the limit, both indices are
  in range, the map holds no message that is not in the ring, each under its own UUID.
\<close>

definition mb_ok :: "msgbuffer \<Rightarrow> bool" where
  "mb_ok m \<longleftrightarrow> 0 < mb_limit m \<and> int (length (mb_order m)) \<le> mb_limit m
     \<and> (mb_startIndex m = 0 \<or> int (length (mb_order m)) = mb_limit m \<and> mb_startIndex m < length (mb_order m))
     \<and> (mb_nextIndex m = 0 \<or> mb_nextIndex m < length (mb_order m))
     \<and> dom (mb_msgs m) \<subseteq> set (mb_order m)
     \<and> (\<forall>u msg. mb_msgs m u = Some msg \<longrightarrow> msg_UUID msg = u)"

text \<open>While no UUID is pushed twice, moreover every ring entry has its message.\<close>

definition mb_full :: "msgbuffer \<Rightarrow> bool" where
  "mb_full m \<longleftrightarrow> distinct (mb_order m) \<and> set (mb_order m) \<subseteq> dom (mb_msgs m)"

lemma mb_ok_new [grav_inv]: "0 < limit \<Longrightarrow> mb_ok (NewMsgBuffer limit)"
  by (simp add: mb_ok_def NewMsgBuffer_def)

lemma mb_full_new [grav_inv]: "mb_full (NewMsgBuffer limit)"
  by (simp add: mb_full_def NewMsgBuffer_def)

lemma mb_ok_start: "mb_ok m \<Longrightarrow> mb_order m \<noteq> [] \<Longrightarrow> mb_startIndex m < length (mb_order m)"
  by (auto simp: mb_ok_def)

lemma set_list_update_subset: "set (xs[i := y]) \<subseteq> insert y (set xs)"
  by (rule set_update_subset_insert)

lemma set_update_keeps:
  "i < length xs \<Longrightarrow> x \<in> set xs \<Longrightarrow> x \<noteq> xs ! i \<Longrightarrow> x \<in> set (xs[i := y])"
  by (metis in_set_conv_nth length_list_update nth_list_update_neq)

lemma Push_room:
  "mb_ok m \<Longrightarrow> int (length (mb_order m)) \<noteq> mb_limit m \<Longrightarrow>
   MsgBuffer_Push m msg = Inr (m\<lparr>mb_msgs := (mb_msgs m)(msg_UUID msg \<mapsto> msg),
                                mb_order := mb_order m @ [msg_UUID msg]\<rparr>)"
  by (simp add: MsgBuffer_Push_def Let_def)

lemma Push_evict:
  "mb_ok m \<Longrightarrow> int (length (mb_order m)) = mb_limit m \<Longrightarrow>
   MsgBuffer_Push m msg =
     Inr (m\<lparr>mb_msgs := ((mb_msgs m)(msg_UUID msg \<mapsto> msg))(mb_order m ! mb_startIndex m := None),
            mb_order := (mb_order m)[mb_startIndex m := msg_UUID msg],
            mb_startIndex := (if mb_startIndex m = length (mb_order m) - 1 then 0
                              else Suc (mb_startIndex m))\<rparr>)"
proof -
  assume ok: "mb_ok m" and full: "int (length (mb_order m)) = mb_limit m"
  then have ne: "mb_order m \<noteq> []" by (auto simp: mb_ok_def)
  then have "mb_startIndex m < length (mb_order m)" by (rule mb_ok_start [OF ok])
  moreover have "int (mb_startIndex m) = int (length (mb_order m)) - 1
      \<longleftrightarrow> mb_startIndex m = length (mb_order m) - 1"
    using ne by (cases "mb_order m") auto
  ultimately show ?thesis
    using full by (simp add: MsgBuffer_Push_def Let_def)
qed

lemma Push_ok [grav_inv]: "mb_ok m \<Longrightarrow> \<exists>m'. MsgBuffer_Push m msg = Inr m' \<and> mb_ok m'"
proof (cases "int (length (mb_order m)) = mb_limit m")
  case False
  assume ok: "mb_ok m"
  with False have "mb_startIndex m = 0" by (auto simp: mb_ok_def)
  with ok False show ?thesis
    unfolding Push_room [OF ok False] by (auto simp: mb_ok_def)
next
  case True
  assume ok: "mb_ok m"
  with True have ne: "mb_order m \<noteq> []" by (auto simp: mb_ok_def)
  have lt: "mb_startIndex m < length (mb_order m)" by (rule mb_ok_start [OF ok ne])
  let ?m' = "m\<lparr>mb_msgs := ((mb_msgs m)(msg_UUID msg \<mapsto> msg))(mb_order m ! mb_startIndex m := None),
            mb_order := (mb_order m)[mb_startIndex m := msg_UUID msg],
            mb_startIndex := (if mb_startIndex m = length (mb_order m) - 1 then 0
                              else Suc (mb_startIndex m))\<rparr>"
  have sub: "dom (mb_msgs ?m') \<subseteq> set (mb_order ?m')"
  proof
    fix u assume "u \<in> dom (mb_msgs ?m')"
    then have neq: "u \<noteq> mb_order m ! mb_startIndex m"
      and "u = msg_UUID msg \<or> u \<in> set (mb_order m)"
      using ok by (auto simp: mb_ok_def split: if_splits)
    then show "u \<in> set (mb_order ?m')"
      using lt by (auto intro: set_update_memI set_update_keeps)
  qed
  have "mb_ok ?m'"
    using ok sub lt True unfolding mb_ok_def by (auto simp: less_Suc_eq_le split: if_splits)
  then show ?thesis by (simp add: Push_evict [OF ok True])
qed

lemma Next_in_range:
  "mb_ok m \<Longrightarrow> mb_order m \<noteq> [] \<Longrightarrow> mb_nextIndex m < length (mb_order m)"
  by (auto simp: mb_ok_def)

lemma Next_ok [grav_inv]: "mb_ok m \<Longrightarrow> \<exists>r m'. MsgBuffer_Next m = Inr (r, m') \<and> mb_ok m'"
proof (cases "mb_order m = []")
  case True
  then show "mb_ok m \<Longrightarrow> ?thesis" by (simp add: MsgBuffer_Next_def)
next
  case False
  assume ok: "mb_ok m"
  then have "mb_nextIndex m < length (mb_order m)" using False by (rule Next_in_range)
  then have "(if mb_nextIndex m = length (mb_order m) - 1 then 0 else Suc (mb_nextIndex m))
      < length (mb_order m)" by auto
  with ok False \<open>mb_nextIndex m < _\<close> show ?thesis
    by (auto simp: MsgBuffer_Next_def mb_ok_def)
qed

section \<open>Iter walks the ring once\<close>

lemma iter_loop_wrapped:
  "index < mb_startIndex m \<Longrightarrow> mb_startIndex m < length (mb_order m) \<Longrightarrow>
   iter_loop f m index s =
     Some (Inr (foldl f s (map (mb_msgs m) (drop index (take (mb_startIndex m) (mb_order m))))))"
proof (induction "mb_startIndex m - index" arbitrary: index s)
  case 0
  then show ?case by simp
next
  case (Suc k)
  have cons: "drop index (take (mb_startIndex m) (mb_order m))
      = mb_order m ! index # drop (Suc index) (take (mb_startIndex m) (mb_order m))"
    using Suc.prems by (simp add: Cons_nth_drop_Suc [symmetric])
  show ?case
  proof (cases "Suc index = mb_startIndex m")
    case True
    with Suc.prems have "index \<noteq> length (mb_order m) - 1" by linarith
    with True Suc.prems cons show ?thesis
      by (subst iter_loop.simps) (simp add: Let_def)
  next
    case False
    with Suc.prems have "iter_loop f m (Suc index) (f s (mb_msgs m (mb_order m ! index)))
        = Some (Inr (foldl f (f s (mb_msgs m (mb_order m ! index)))
            (map (mb_msgs m) (drop (Suc index) (take (mb_startIndex m) (mb_order m))))))"
      using Suc.hyps(2) by (intro Suc.hyps(1)) auto
    moreover from False Suc.prems have "index \<noteq> length (mb_order m) - 1" by linarith
    ultimately show ?thesis
      using False Suc.prems cons by (subst iter_loop.simps) (simp add: Let_def)
  qed
qed

lemma iter_loop_upper:
  "mb_startIndex m \<le> index \<Longrightarrow> index < length (mb_order m) \<Longrightarrow>
   iter_loop f m index s =
     Some (Inr (foldl f s (map (mb_msgs m) (drop index (mb_order m) @ take (mb_startIndex m) (mb_order m)))))"
proof (induction "length (mb_order m) - index" arbitrary: index s)
  case 0
  then show ?case by simp
next
  case (Suc k)
  let ?s = "f s (mb_msgs m (mb_order m ! index))"
  have cons: "drop index (mb_order m) = mb_order m ! index # drop (Suc index) (mb_order m)"
    using Suc.prems by (simp add: Cons_nth_drop_Suc)
  consider (stop) "Suc index = length (mb_order m)" "mb_startIndex m = 0"
    | (wrap) "Suc index = length (mb_order m)" "0 < mb_startIndex m"
    | (up) "Suc index < length (mb_order m)"
    using Suc.prems by linarith
  then show ?case
  proof cases
    case stop
    with Suc.prems cons show ?thesis
      by (subst iter_loop.simps) (auto simp: Let_def)
  next
    case wrap
    then have "iter_loop f m 0 ?s
        = Some (Inr (foldl f ?s (map (mb_msgs m) (drop 0 (take (mb_startIndex m) (mb_order m))))))"
      using Suc.prems by (intro iter_loop_wrapped) auto
    with wrap Suc.prems cons show ?thesis
      by (subst iter_loop.simps) (auto simp: Let_def)
  next
    case up
    then have "iter_loop f m (Suc index) ?s
        = Some (Inr (foldl f ?s (map (mb_msgs m) (drop (Suc index) (mb_order m) @ take (mb_startIndex m) (mb_order m)))))"
      using Suc.prems Suc.hyps(2) by (intro Suc.hyps(1)) auto
    with up Suc.prems cons show ?thesis
      by (subst iter_loop.simps) (auto simp: Let_def)
  qed
qed

lemma Iter_foldl: "mb_ok m \<Longrightarrow> MsgBuffer_Iter f m s = Some (Inr (foldl f s (buffer_log m)))"
proof (cases "mb_order m = []")
  case True
  then show ?thesis by (simp add: MsgBuffer_Iter_def buffer_log_def mb_ring_def)
next
  case False
  assume "mb_ok m"
  then have "mb_startIndex m < length (mb_order m)" using False by (rule mb_ok_start)
  with False show ?thesis
    by (simp add: MsgBuffer_Iter_def iter_loop_upper buffer_log_def mb_ring_def rotate_less_drop_take)
qed

section \<open>The buffer as a log of the most recent messages\<close>

definition ref_uuids :: "msg_ref list \<Rightarrow> uuid set" where
  "ref_uuids refs = msg_UUID ` {msg. Some msg \<in> set refs}"

lemma ref_uuids_simps [simp]:
  "ref_uuids [] = {}"
  "ref_uuids (Some msg # refs) = insert (msg_UUID msg) (ref_uuids refs)"
  "ref_uuids (None # refs) = ref_uuids refs"
  by (auto simp: ref_uuids_def)

lemma ref_uuids_append [simp]: "ref_uuids (xs @ ys) = ref_uuids xs \<union> ref_uuids ys"
  by (auto simp: ref_uuids_def)

lemma ref_uuids_mono: "set xs \<subseteq> set ys \<Longrightarrow> ref_uuids xs \<subseteq> ref_uuids ys"
  by (auto simp: ref_uuids_def)

text \<open>
  What a client that replays recent messages relies on: pushing a message whose UUID the log
  does not hold appends it and drops the oldest ones beyond the log's room.
\<close>

locale replay_log =
  fixes contents :: "'b \<Rightarrow> msg_ref list"
    and push :: "'b \<Rightarrow> message \<Rightarrow> panic + 'b"
    and room :: "'b \<Rightarrow> nat"
    and lg_inv :: "'b \<Rightarrow> bool"
  assumes push_fresh: "lg_inv b \<Longrightarrow> msg_UUID msg \<notin> ref_uuids (contents b) \<Longrightarrow>
      \<exists>b'. push b msg = Inr b' \<and> lg_inv b' \<and> room b' = room b
         \<and> contents b' = keep_last (room b) (contents b @ [Some msg])"
    and contents_room: "lg_inv b \<Longrightarrow> length (contents b) \<le> room b"
begin

lemma push_seq_fresh:
  "lg_inv b \<Longrightarrow> distinct (map msg_UUID ms) \<Longrightarrow> msg_UUID ` set ms \<inter> ref_uuids (contents b) = {} \<Longrightarrow>
   \<exists>b'. push_seq push b ms = Inr b' \<and> lg_inv b' \<and> room b' = room b
      \<and> contents b' = keep_last (room b) (contents b @ map Some ms)"
proof (induction ms arbitrary: b)
  case Nil
  then show ?case by (simp add: contents_room)
next
  case (Cons msg ms)
  then obtain b1 where b1: "push b msg = Inr b1" "lg_inv b1" "room b1 = room b"
      "contents b1 = keep_last (room b) (contents b @ [Some msg])"
    using push_fresh [of b msg] by auto
  have sub: "ref_uuids (contents b1) \<subseteq> insert (msg_UUID msg) (ref_uuids (contents b))"
    using ref_uuids_mono [OF set_keep_last, of "room b" "contents b @ [Some msg]"]
    by (simp add: b1(4))
  have "msg_UUID ` set ms \<inter> insert (msg_UUID msg) (ref_uuids (contents b)) = {}"
    using Cons.prems(2,3) by (simp add: Int_insert_right)
  with sub have disj: "msg_UUID ` set ms \<inter> ref_uuids (contents b1) = {}"
    by blast
  have dist: "distinct (map msg_UUID ms)" using Cons.prems(2) by simp
  from Cons.IH [OF b1(2) dist disj] obtain b2 where
    "push_seq push b1 ms = Inr b2" "lg_inv b2" "room b2 = room b1"
    "contents b2 = keep_last (room b1) (contents b1 @ map Some ms)"
    by blast
  with b1 show ?case by (simp add: keep_last_append)
qed

end

definition mb_inv :: "msgbuffer \<Rightarrow> bool" where
  "mb_inv m \<longleftrightarrow> mb_ok m \<and> mb_full m"

definition mb_room :: "msgbuffer \<Rightarrow> nat" where
  "mb_room m = nat (mb_limit m)"

lemma set_mb_ring [simp]: "set (mb_ring m) = set (mb_order m)"
  by (simp add: mb_ring_def)

lemma buffer_log_uuids: "mb_inv m \<Longrightarrow> ref_uuids (buffer_log m) = set (mb_order m)"
proof
  assume inv: "mb_inv m"
  then have own: "mb_msgs m u = Some msg \<Longrightarrow> msg_UUID msg = u" for u msg
    by (simp add: mb_inv_def mb_ok_def)
  show "ref_uuids (buffer_log m) \<subseteq> set (mb_order m)"
  proof
    fix u assume "u \<in> ref_uuids (buffer_log m)"
    then obtain v msg where "v \<in> set (mb_order m)" "mb_msgs m v = Some msg" "u = msg_UUID msg"
      by (auto simp: ref_uuids_def buffer_log_def image_iff) metis
    with own show "u \<in> set (mb_order m)" by simp
  qed
  show "set (mb_order m) \<subseteq> ref_uuids (buffer_log m)"
  proof
    fix u assume u: "u \<in> set (mb_order m)"
    with inv obtain msg where msg: "mb_msgs m u = Some msg"
      by (auto simp: mb_inv_def mb_full_def)
    with u have "Some msg \<in> set (buffer_log m)"
      by (simp add: buffer_log_def image_iff) (metis msg)
    with own [OF msg] show "u \<in> ref_uuids (buffer_log m)"
      by (auto simp: ref_uuids_def)
  qed
qed

lemma Push_room_log:
  assumes inv: "mb_inv m" and fresh: "msg_UUID msg \<notin> set (mb_order m)"
    and room: "int (length (mb_order m)) \<noteq> mb_limit m"
    and m': "m' = m\<lparr>mb_msgs := (mb_msgs m)(msg_UUID msg \<mapsto> msg), mb_order := mb_order m @ [msg_UUID msg]\<rparr>"
  shows "mb_full m' \<and> buffer_log m' = keep_last (mb_room m) (buffer_log m @ [Some msg])"
proof -
  have start: "mb_startIndex m = 0" and len: "Suc (length (mb_order m)) \<le> mb_room m"
    using inv room by (auto simp: mb_inv_def mb_ok_def mb_room_def)
  have "map (mb_msgs m') (mb_order m) = map (mb_msgs m) (mb_order m)"
    using fresh by (intro map_cong) (auto simp: m')
  then have "buffer_log m' = buffer_log m @ [Some msg]"
    using start by (simp add: buffer_log_def mb_ring_def) (simp add: m')
  moreover have "length (buffer_log m @ [Some msg]) \<le> mb_room m"
    using len by (simp add: buffer_log_def mb_ring_def)
  ultimately show ?thesis
    using inv fresh by (simp add: m' mb_inv_def mb_full_def subset_insertI2)
qed

lemma Push_evict_log:
  assumes inv: "mb_inv m" and fresh: "msg_UUID msg \<notin> set (mb_order m)"
    and full: "int (length (mb_order m)) = mb_limit m"
    and m': "m' = m\<lparr>mb_msgs := ((mb_msgs m)(msg_UUID msg \<mapsto> msg))(mb_order m ! mb_startIndex m := None),
            mb_order := (mb_order m)[mb_startIndex m := msg_UUID msg],
            mb_startIndex := (if mb_startIndex m = length (mb_order m) - 1 then 0
                              else Suc (mb_startIndex m))\<rparr>"
  shows "mb_full m' \<and> buffer_log m' = keep_last (mb_room m) (buffer_log m @ [Some msg])"
proof -
  let ?s = "mb_startIndex m" and ?o = "mb_order m"
  let ?rest = "drop (Suc ?s) ?o @ take ?s ?o"
  have lt: "?s < length ?o"
    using inv full by (auto simp: mb_inv_def mb_ok_def)
  have dist: "distinct (?o ! ?s # ?rest)" and set: "set (?o ! ?s # ?rest) = set ?o"
    using inv by (simp_all only: rotate_nth_hd [OF lt, symmetric] distinct_rotate set_rotate
        mb_inv_def mb_full_def)
  have "mb_ring m' = rotate1 (rotate ?s (?o[?s := msg_UUID msg]))"
    using lt rotate_Suc_index [of ?s "?o[?s := msg_UUID msg]"] by (simp add: m' mb_ring_def)
  then have ring': "mb_ring m' = ?rest @ [msg_UUID msg]"
    using lt by (simp add: rotate_nth_hd)
  have ring: "mb_ring m = ?o ! ?s # ?rest"
    unfolding mb_ring_def by (rule rotate_nth_hd [OF lt])
  have same: "mb_msgs m' u = mb_msgs m u" if "u \<in> set ?rest" for u
    using that dist set fresh by (auto simp: m')
  have last: "mb_msgs m' (msg_UUID msg) = Some msg"
    using fresh lt by (auto simp: m')
  have "map (mb_msgs m') ?rest = map (mb_msgs m) ?rest"
    by (intro map_cong refl same)
  then have log': "buffer_log m' = map (mb_msgs m) ?rest @ [Some msg]"
    by (simp only: buffer_log_def ring' map_append last list.map)
  have "length (buffer_log m) = mb_room m"
    using full by (simp add: buffer_log_def mb_ring_def mb_room_def)
  then have "keep_last (mb_room m) (buffer_log m @ [Some msg]) = map (mb_msgs m) ?rest @ [Some msg]"
    unfolding buffer_log_def ring by (simp only: list.map append_Cons keep_last_snoc_full)
  moreover have "mb_full m'"
  proof -
    have "distinct (mb_ring m')"
      using dist set fresh unfolding ring' by auto
    moreover have "\<forall>u \<in> set (mb_ring m'). \<exists>x. mb_msgs m' u = Some x"
    proof
      fix u assume "u \<in> set (mb_ring m')"
      then consider "u \<in> set ?rest" | "u = msg_UUID msg" unfolding ring' by auto
      then show "\<exists>x. mb_msgs m' u = Some x"
      proof cases
        case 1
        then have "u \<in> set ?o" using set by auto
        with 1 same inv show ?thesis by (auto simp: mb_inv_def mb_full_def)
      qed (use last in simp)
    qed
    ultimately show ?thesis by (auto simp: mb_full_def mb_ring_def)
  qed
  ultimately show ?thesis using log' by simp
qed

lemma Push_fresh_log:
  assumes inv: "mb_inv m" and fresh: "msg_UUID msg \<notin> ref_uuids (buffer_log m)"
  shows "\<exists>m'. MsgBuffer_Push m msg = Inr m' \<and> mb_inv m' \<and> mb_room m' = mb_room m
    \<and> buffer_log m' = keep_last (mb_room m) (buffer_log m @ [Some msg])"
proof -
  have ok: "mb_ok m" and fresh': "msg_UUID msg \<notin> set (mb_order m)"
    using inv fresh buffer_log_uuids by (auto simp: mb_inv_def)
  obtain m' where m': "MsgBuffer_Push m msg = Inr m'" "mb_ok m'"
    using Push_ok [OF ok] by blast
  have "mb_full m' \<and> buffer_log m' = keep_last (mb_room m) (buffer_log m @ [Some msg])
      \<and> mb_room m' = mb_room m"
  proof (cases "int (length (mb_order m)) = mb_limit m")
    case True
    note eq = m'(1) [unfolded Push_evict [OF ok True], THEN sum.inject(2) [THEN iffD1], symmetric]
    have "mb_room m' = mb_room m" by (simp add: eq mb_room_def)
    with Push_evict_log [OF inv fresh' True eq] show ?thesis by blast
  next
    case False
    note eq = m'(1) [unfolded Push_room [OF ok False], THEN sum.inject(2) [THEN iffD1], symmetric]
    have "mb_room m' = mb_room m" by (simp add: eq mb_room_def)
    with Push_room_log [OF inv fresh' False eq] show ?thesis by blast
  qed
  with m' show ?thesis by (auto simp: mb_inv_def)
qed

lemma buffer_log_room: "mb_inv m \<Longrightarrow> length (buffer_log m) \<le> mb_room m"
  by (auto simp: mb_inv_def mb_ok_def mb_room_def buffer_log_def mb_ring_def)

interpretation mblog: replay_log buffer_log MsgBuffer_Push mb_room mb_inv
  by unfold_locales (fact Push_fresh_log, fact buffer_log_room)

section \<open>Next cycles over the ring\<close>

definition next_items :: "msgbuffer \<Rightarrow> msg_ref list" where
  "next_items m = map (mb_msgs m) (rotate (mb_nextIndex m) (mb_order m))"

lemma Next_items:
  assumes ok: "mb_ok m" and items: "next_items m = x # xs"
  shows "\<exists>m'. MsgBuffer_Next m = Inr (x, m') \<and> next_items m' = xs @ [x] \<and> mb_ok m'"
proof -
  have ne: "mb_order m \<noteq> []" using items by (auto simp: next_items_def)
  have lt: "mb_nextIndex m < length (mb_order m)" by (rule Next_in_range [OF ok ne])
  let ?m' = "m\<lparr>mb_nextIndex := (if mb_nextIndex m = length (mb_order m) - 1 then 0
                                else Suc (mb_nextIndex m))\<rparr>"
  have x: "x = mb_msgs m (mb_order m ! mb_nextIndex m)"
    using items lt by (simp add: next_items_def rotate_nth_hd)
  have nxt: "MsgBuffer_Next m = Inr (x, ?m')"
    using ne lt x by (simp add: MsgBuffer_Next_def)
  have "next_items ?m' = rotate1 (next_items m)"
    using rotate_Suc_index [OF lt] by (simp add: next_items_def rotate1_map)
  with items nxt Next_ok [OF ok] show ?thesis by auto
qed

interpretation mbnext: round_robin next_items MsgBuffer_Next mb_ok
  by unfold_locales (fact Next_items)

section \<open>Properties\<close>

datatype buffer_op = OpPush message | OpNext

fun buffer_run :: "msgbuffer \<Rightarrow> buffer_op list \<Rightarrow> panic + msgbuffer" where
  "buffer_run m [] = Inr m"
| "buffer_run m (OpPush msg # ops) =
     (case MsgBuffer_Push m msg of Inl p \<Rightarrow> Inl p | Inr m' \<Rightarrow> buffer_run m' ops)"
| "buffer_run m (OpNext # ops) =
     (case MsgBuffer_Next m of Inl p \<Rightarrow> Inl p | Inr (_, m') \<Rightarrow> buffer_run m' ops)"

lemma Push_limit: "MsgBuffer_Push m msg = Inr m' \<Longrightarrow> mb_limit m' = mb_limit m"
  by (auto simp: MsgBuffer_Push_def Let_def split: if_splits sum.splits)

lemma Next_limit: "MsgBuffer_Next m = Inr (r, m') \<Longrightarrow> mb_limit m' = mb_limit m"
  by (auto simp: MsgBuffer_Next_def split: if_splits sum.splits)

lemma buffer_run_ok:
  "mb_ok m \<Longrightarrow> \<exists>m'. buffer_run m ops = Inr m' \<and> mb_ok m' \<and> mb_limit m' = mb_limit m"
proof (induction m ops rule: buffer_run.induct)
  case (1 m)
  then show ?case by simp
next
  case (2 m msg ops)
  then obtain m1 where "MsgBuffer_Push m msg = Inr m1" "mb_ok m1"
    using Push_ok by blast
  with 2 show ?case by (auto dest: Push_limit)
next
  case (3 m ops)
  then obtain r m1 where "MsgBuffer_Next m = Inr (r, m1)" "mb_ok m1"
    using Next_ok by blast
  with 3 show ?case by (auto dest: Next_limit)
qed

text \<open>A buffer with a positive limit never panics: after any sequence of \<open>Push\<close>
  and \<open>Next\<close> calls, with repeated UUIDs or not, the ring and the map hold at most \<open>limit\<close>
  entries, and \<open>Iter\<close> comes back after calling its function once per ring entry.\<close>

theorem buffer_bounded:
  assumes "0 < limit"
  shows "\<exists>m. buffer_run (NewMsgBuffer limit) ops = Inr m
    \<and> int (length (mb_order m)) \<le> limit \<and> int (card (dom (mb_msgs m))) \<le> limit
    \<and> (\<forall>n. MsgBuffer_Iter (\<lambda>k _. Suc k) m n = Some (Inr (n + length (mb_order m))))"
proof -
  obtain m where m: "buffer_run (NewMsgBuffer limit) ops = Inr m" "mb_ok m"
      "mb_limit m = mb_limit (NewMsgBuffer limit)"
    using buffer_run_ok [OF mb_ok_new [OF assms]] by blast
  then have len: "int (length (mb_order m)) \<le> limit"
    by (simp add: mb_ok_def NewMsgBuffer_def)
  have "card (dom (mb_msgs m)) \<le> card (set (mb_order m))"
    using m(2) by (intro card_mono) (auto simp: mb_ok_def)
  then have "int (card (dom (mb_msgs m))) \<le> limit"
    using card_length [of "mb_order m"] len by linarith
  moreover have "foldl (\<lambda>k _. Suc k) n xs = n + length xs" for n and xs :: "msg_ref list"
    by (induction xs arbitrary: n) auto
  ultimately show ?thesis
    using m len by (simp add: Iter_foldl buffer_log_def mb_ring_def)
qed

theorem buffer_bounded_witness:
  "\<exists>m. buffer_run (NewMsgBuffer 2) [OpPush (NewMsg ''a'' 0 ''t'' []), OpNext, OpPush (NewMsg ''a'' 1 ''t'' []),
      OpPush (NewMsg ''b'' 2 ''t'' [])] = Inr m
    \<and> int (length (mb_order m)) \<le> 2 \<and> int (card (dom (mb_msgs m))) \<le> 2
    \<and> (\<forall>n. MsgBuffer_Iter (\<lambda>k _. Suc k) m n = Some (Inr (n + length (mb_order m))))"
  by (rule buffer_bounded) simp

lemma pushes_log:
  assumes "0 < limit" and "distinct (map msg_UUID ms)"
  shows "\<exists>m. push_seq MsgBuffer_Push (NewMsgBuffer limit) ms = Inr m \<and> mb_inv m
    \<and> buffer_log m = map Some (keep_last (nat limit) ms)"
proof -
  have new: "mb_inv (NewMsgBuffer limit)" "buffer_log (NewMsgBuffer limit) = []"
      "mb_room (NewMsgBuffer limit) = nat limit"
    using assms(1) mb_ok_new mb_full_new
    by (auto simp: mb_inv_def buffer_log_def mb_ring_def mb_room_def NewMsgBuffer_def)
  then show ?thesis
    using mblog.push_seq_fresh [OF new(1) assms(2)] by (auto simp: keep_last_def drop_map)
qed

text \<open>When no UUID is pushed twice, a replay sees the last \<open>limit\<close> messages
  pushed, oldest first, each exactly once.\<close>

theorem replay_most_recent:
  assumes "0 < limit" and "distinct (map msg_UUID ms)"
  shows "\<exists>m. push_seq MsgBuffer_Push (NewMsgBuffer limit) ms = Inr m
    \<and> MsgBuffer_Iter f m s = Some (Inr (foldl f s (map Some (keep_last (nat limit) ms))))"
  using pushes_log [OF assms] by (auto simp: Iter_foldl mb_inv_def)

theorem replay_most_recent_witness:
  "\<exists>m. push_seq MsgBuffer_Push (NewMsgBuffer 2)
        [NewMsg ''a'' 0 ''t'' [], NewMsg ''b'' 1 ''t'' [], NewMsg ''c'' 2 ''t'' []] = Inr m
    \<and> MsgBuffer_Iter (\<lambda>xs x. xs @ [x]) m [] =
        Some (Inr [Some (NewMsg ''b'' 1 ''t'' []), Some (NewMsg ''c'' 2 ''t'' [])])"
  using replay_most_recent [of 2 "[NewMsg ''a'' 0 ''t'' [], NewMsg ''b'' 1 ''t'' [], NewMsg ''c'' 2 ''t'' []]"
      "\<lambda>xs x. xs @ [x]" "[]"]
  by (simp add: keep_last_def)

lemma Push_duplicate_of_oldest:
  assumes inv: "mb_inv m" and full: "length (buffer_log m) = mb_room m"
    and dup: "msg_UUID msg = hd (mb_ring m)"
  shows "\<exists>m'. MsgBuffer_Push m msg = Inr m' \<and> mb_ok m'
    \<and> buffer_log m' = tl (buffer_log m) @ [None]"
proof -
  let ?s = "mb_startIndex m" and ?o = "mb_order m"
  let ?rest = "drop (Suc ?s) ?o @ take ?s ?o"
  have ok: "mb_ok m" and lim: "int (length ?o) = mb_limit m"
    using inv full by (auto simp: mb_inv_def mb_ok_def buffer_log_def mb_ring_def mb_room_def)
  then have ne: "?o \<noteq> []" by (auto simp: mb_ok_def)
  have lt: "?s < length ?o" by (rule mb_ok_start [OF ok ne])
  have ring: "mb_ring m = ?o ! ?s # ?rest"
    unfolding mb_ring_def by (rule rotate_nth_hd [OF lt])
  then have u: "msg_UUID msg = ?o ! ?s" using dup by simp
  obtain m' where push: "MsgBuffer_Push m msg = Inr m'" "mb_ok m'"
    using Push_ok [OF ok] by blast
  note m' = push(1) [unfolded Push_evict [OF ok lim], THEN sum.inject(2) [THEN iffD1], symmetric]
  have order': "mb_order m' = ?o"
    using lt by (simp add: m' u)
  have "mb_ring m' = rotate1 (mb_ring m)"
    unfolding mb_ring_def order' using rotate_Suc_index [OF lt] by (simp add: m')
  then have ring': "mb_ring m' = ?rest @ [?o ! ?s]" by (simp add: ring)
  have notin: "?o ! ?s \<notin> set ?rest"
    using inv ring distinct_rotate [of ?s ?o] by (auto simp: mb_inv_def mb_full_def mb_ring_def)
  have "map (mb_msgs m') ?rest = map (mb_msgs m) ?rest"
    by (intro map_cong refl) (use notin in \<open>auto simp: m' u\<close>)
  moreover have "mb_msgs m' (?o ! ?s) = None" by (simp add: m')
  ultimately have "buffer_log m' = tl (buffer_log m) @ [None]"
    unfolding buffer_log_def ring' ring by (simp only: map_append list.map list.sel)
  with push show ?thesis by blast
qed

text \<open>A message pushed again when its first copy is the oldest entry of a full
  buffer is lost: the eviction deletes the entry the push just wrote, and a replay then passes
  a nil message in its place.\<close>

theorem repeated_push_replays_nil:
  assumes "0 < limit" and "distinct (map msg_UUID (a # ms))" and "length (a # ms) = nat limit"
  shows "\<exists>m. push_seq MsgBuffer_Push (NewMsgBuffer limit) (a # ms @ [a]) = Inr m
    \<and> MsgBuffer_Iter f m s = Some (Inr (foldl f s (map Some ms @ [None])))"
proof -
  have new: "mb_inv (NewMsgBuffer limit)" "buffer_log (NewMsgBuffer limit) = []"
      "mb_room (NewMsgBuffer limit) = nat limit"
    using assms(1) mb_ok_new mb_full_new
    by (auto simp: mb_inv_def buffer_log_def mb_ring_def mb_room_def NewMsgBuffer_def)
  obtain m where m: "push_seq MsgBuffer_Push (NewMsgBuffer limit) (a # ms) = Inr m" "mb_inv m"
      "mb_room m = nat limit" "buffer_log m = map Some (a # ms)"
    using mblog.push_seq_fresh [OF new(1) assms(2)] new assms(3) by auto
  have split: "push_seq MsgBuffer_Push b (xs @ [a]) =
      (case push_seq MsgBuffer_Push b xs of Inl p \<Rightarrow> Inl p | Inr b' \<Rightarrow> MsgBuffer_Push b' a)" for b xs
    by (induction xs arbitrary: b) (auto split: sum.splits)
  have "mb_ring m \<noteq> []" "mb_msgs m (hd (mb_ring m)) = Some a"
    using m(4) by (auto simp: buffer_log_def)
  then have "msg_UUID a = hd (mb_ring m)"
    using m(2) by (auto simp: mb_inv_def mb_ok_def)
  with Push_duplicate_of_oldest [OF m(2)] obtain m' where
    "MsgBuffer_Push m a = Inr m'" "mb_ok m'" "buffer_log m' = map Some ms @ [None]"
    using m(3,4) assms(3) by auto
  with m(1) split [of _ "a # ms"] show ?thesis by (auto simp: Iter_foldl)
qed

theorem repeated_push_replays_nil_witness:
  "\<exists>m. push_seq MsgBuffer_Push (NewMsgBuffer 2)
        [NewMsg ''a'' 0 ''t'' [], NewMsg ''b'' 1 ''t'' [], NewMsg ''a'' 0 ''t'' []] = Inr m
    \<and> MsgBuffer_Iter (\<lambda>xs x. xs @ [x]) m [] = Some (Inr [Some (NewMsg ''b'' 1 ''t'' []), None])"
  using repeated_push_replays_nil [of 2 "NewMsg ''a'' 0 ''t'' []" "[NewMsg ''b'' 1 ''t'' []]"
      "\<lambda>xs x. xs @ [x]" "[]"]
  by simp

text \<open>\<open>Next\<close> is fair: from any state that pushes and nexts lead to, \<open>k\<close> rounds of
  calls return each ring entry's message \<open>k\<close> times, in ring order, and end where they began.\<close>

theorem Next_cycles:
  assumes "0 < limit" and "buffer_run (NewMsgBuffer limit) ops = Inr m"
  shows "\<exists>m'. next_seq MsgBuffer_Next (k * length (mb_order m)) m
      = Inr (concat (replicate k (map (mb_msgs m) (rotate (mb_nextIndex m) (mb_order m)))), m')
    \<and> map (mb_msgs m') (rotate (mb_nextIndex m') (mb_order m'))
      = map (mb_msgs m) (rotate (mb_nextIndex m) (mb_order m))"
proof -
  have "mb_ok m"
    using buffer_run_ok [OF mb_ok_new [OF assms(1)], of ops] assms(2) by auto
  from mbnext.next_seq_rounds [OF this, of k] show ?thesis
    by (auto simp: next_items_def)
qed

theorem Next_cycles_witness:
  "\<exists>m m'. buffer_run (NewMsgBuffer 2) [OpPush (NewMsg ''a'' 0 ''t'' []), OpPush (NewMsg ''b'' 1 ''t'' []), OpNext] = Inr m
    \<and> next_seq MsgBuffer_Next (2 * length (mb_order m)) m
      = Inr ([Some (NewMsg ''b'' 1 ''t'' []), Some (NewMsg ''a'' 0 ''t'' []),
              Some (NewMsg ''b'' 1 ''t'' []), Some (NewMsg ''a'' 0 ''t'' [])], m')"
proof -
  define m where "m = \<lparr>mb_msgs = [''a'' \<mapsto> NewMsg ''a'' 0 ''t'' [], ''b'' \<mapsto> NewMsg ''b'' 1 ''t'' []],
    mb_order = [''a'', ''b''], mb_limit = 2, mb_startIndex = 0, mb_nextIndex = 1\<rparr>"
  have run: "buffer_run (NewMsgBuffer 2)
      [OpPush (NewMsg ''a'' 0 ''t'' []), OpPush (NewMsg ''b'' 1 ''t'' []), OpNext] = Inr m"
    by (simp add: NewMsgBuffer_def MsgBuffer_Push_def MsgBuffer_Next_def m_def)
  have "(0::int) < 2" by simp
  from Next_cycles [OF this run, of 2] obtain m' where
    "next_seq MsgBuffer_Next (2 * length (mb_order m)) m
      = Inr (concat (replicate 2 (map (mb_msgs m) (rotate (mb_nextIndex m) (mb_order m)))), m')"
    by blast
  then show ?thesis
    using run by (auto simp: m_def numeral_2_eq_2)
qed

text \<open>A limit of zero is accepted by the constructor, but the first push then panics.\<close>

lemma Push_zero_limit: "MsgBuffer_Push (NewMsgBuffer 0) msg = Inl IndexOutOfRange"
  by (simp add: MsgBuffer_Push_def NewMsgBuffer_def go_index_def)

end
