(* ===== verification/Tunnel_Balancer.thy ===== *)
theory Tunnel_Balancer
  imports Grav_Prelude
begin

text \<open>
  The round-robin balancer of \<open>grav/tunnel/balancer.go\<close>: a list of UUIDs and the index of
  the next one. Each operation holds the mutex, so it is one state transformation. The index
  is a Go \<open>int\<close> that never becomes negative; \<open>len(b.uuids)-1\<close> does for an empty list, so the
  comparisons with it are made on \<open>int\<close>.
\<close>

section \<open>State and operations\<close>

record balancer =
  bal_uuids :: "uuid list"
  bal_index :: nat

definition NewBalancer :: balancer where
  "NewBalancer = \<lparr>bal_uuids = [], bal_index = 0\<rparr>"

definition Balancer_Add :: "balancer \<Rightarrow> uuid \<Rightarrow> balancer" where
  "Balancer_Add b uuid = b\<lparr>bal_uuids := bal_uuids b @ [uuid]\<rparr>"

text \<open>The loop copies every entry but \<open>uuid\<close> into a fresh slice.\<close>

fun remove_loop :: "uuid list \<Rightarrow> uuid \<Rightarrow> uuid list \<Rightarrow> uuid list" where
  "remove_loop [] uuid newUUIDs = newUUIDs"
| "remove_loop (u # us) uuid newUUIDs =
     (if u = uuid then remove_loop us uuid newUUIDs else remove_loop us uuid (newUUIDs @ [u]))"

definition Balancer_Remove :: "balancer \<Rightarrow> uuid \<Rightarrow> balancer" where
  "Balancer_Remove b uuid =
     (let b1 = b\<lparr>bal_uuids := remove_loop (bal_uuids b) uuid []\<rparr>
      in if int (bal_index b1) \<ge> int (length (bal_uuids b1)) - 1
         then b1\<lparr>bal_index := length (bal_uuids b1) div 2\<rparr>
         else b1)"

definition Balancer_Next :: "balancer \<Rightarrow> panic + (uuid \<times> balancer)" where
  "Balancer_Next b =
     (case go_index (bal_uuids b) (bal_index b) of
        Inl p \<Rightarrow> Inl p
      | Inr uuid \<Rightarrow>
          Inr (uuid, if int (bal_index b) \<ge> int (length (bal_uuids b)) - 1
                     then b\<lparr>bal_index := 0\<rparr>
                     else b\<lparr>bal_index := Suc (bal_index b)\<rparr>))"

section \<open>Invariant\<close>

text \<open>The index points at an entry, unless there is none.\<close>

definition bal_ok :: "balancer \<Rightarrow> bool" where
  "bal_ok b \<longleftrightarrow> (if bal_uuids b = [] then bal_index b = 0 else bal_index b < length (bal_uuids b))"

lemma remove_loop_filter: "remove_loop us uuid acc = acc @ filter (\<lambda>u. u \<noteq> uuid) us"
  by (induction us uuid acc rule: remove_loop.induct) auto

lemma Remove_uuids [simp]:
  "bal_uuids (Balancer_Remove b uuid) = filter (\<lambda>u. u \<noteq> uuid) (bal_uuids b)"
  by (simp add: Balancer_Remove_def Let_def remove_loop_filter)

lemma Add_uuids [simp]: "bal_uuids (Balancer_Add b uuid) = bal_uuids b @ [uuid]"
  by (simp add: Balancer_Add_def)

lemma bal_ok_new [grav_inv]: "bal_ok NewBalancer"
  by (simp add: bal_ok_def NewBalancer_def)

lemma bal_ok_add [grav_inv]: "bal_ok b \<Longrightarrow> bal_ok (Balancer_Add b uuid)"
  by (auto simp: bal_ok_def Balancer_Add_def split: if_splits)

lemma bal_ok_remove [grav_inv]: "bal_ok (Balancer_Remove b uuid)"
proof -
  let ?us = "filter (\<lambda>u. u \<noteq> uuid) (bal_uuids b)"
  have idx: "bal_index (Balancer_Remove b uuid) =
      (if int (bal_index b) \<ge> int (length ?us) - 1 then length ?us div 2 else bal_index b)"
    by (simp add: Balancer_Remove_def Let_def remove_loop_filter)
  show ?thesis
  proof (cases "?us = []")
    case True
    then have "bal_index (Balancer_Remove b uuid) = 0"
      unfolding idx by (simp del: filter_empty_conv)
    with True show ?thesis by (simp add: bal_ok_def del: filter_empty_conv)
  next
    case False
    then have "0 < length ?us" by blast
    then have "bal_index (Balancer_Remove b uuid) < length ?us"
      unfolding idx by (auto simp del: filter_empty_conv length_greater_0_conv)
    with False show ?thesis by (simp add: bal_ok_def del: filter_empty_conv)
  qed
qed

text \<open>What the coming calls of \<open>Next\<close> return.\<close>

definition bal_items :: "balancer \<Rightarrow> uuid list" where
  "bal_items b = rotate (bal_index b) (bal_uuids b)"

lemma set_bal_items [simp]: "set (bal_items b) = set (bal_uuids b)"
  by (simp add: bal_items_def)

lemma length_bal_items [simp]: "length (bal_items b) = length (bal_uuids b)"
  by (simp add: bal_items_def)

lemma Balancer_Next_items:
  assumes ok: "bal_ok b" and items: "bal_items b = x # xs"
  shows "\<exists>b'. Balancer_Next b = Inr (x, b') \<and> bal_items b' = xs @ [x] \<and> bal_ok b'"
proof -
  have ne: "bal_uuids b \<noteq> []" using items by (auto simp: bal_items_def)
  then have lt: "bal_index b < length (bal_uuids b)" using ok by (simp add: bal_ok_def)
  have wrap: "int (bal_index b) \<ge> int (length (bal_uuids b)) - 1 \<longleftrightarrow> bal_index b = length (bal_uuids b) - 1"
    using lt by linarith
  let ?b' = "b\<lparr>bal_index := (if bal_index b = length (bal_uuids b) - 1 then 0 else Suc (bal_index b))\<rparr>"
  have "x = bal_uuids b ! bal_index b"
    using items lt by (simp add: bal_items_def rotate_nth_hd)
  then have "Balancer_Next b = Inr (x, ?b')"
    using lt by (auto simp: Balancer_Next_def wrap simp del: of_nat_diff)
  moreover have "bal_items ?b' = rotate1 (bal_items b)"
    using rotate_Suc_index [OF lt] by (simp add: bal_items_def)
  moreover have "bal_ok ?b'"
    using lt ne by (auto simp: bal_ok_def)
  ultimately show ?thesis using items by auto
qed

interpretation balrr: round_robin bal_items Balancer_Next bal_ok
  by unfold_locales (fact Balancer_Next_items)

lemma Balancer_Next_empty: "bal_uuids b = [] \<Longrightarrow> Balancer_Next b = Inl IndexOutOfRange"
  by (simp add: Balancer_Next_def go_index_def)

lemma Next_uuids: "Balancer_Next b = Inr (u, b') \<Longrightarrow> bal_uuids b' = bal_uuids b"
  by (auto simp: Balancer_Next_def split: sum.splits if_splits)

section \<open>Properties\<close>

datatype balancer_op = OpAdd uuid | OpRemove uuid | OpNextUUID

fun balancer_run :: "balancer \<Rightarrow> balancer_op list \<Rightarrow> panic + balancer" where
  "balancer_run b [] = Inr b"
| "balancer_run b (OpAdd u # ops) = balancer_run (Balancer_Add b u) ops"
| "balancer_run b (OpRemove u # ops) = balancer_run (Balancer_Remove b u) ops"
| "balancer_run b (OpNextUUID # ops) =
     (case Balancer_Next b of Inl p \<Rightarrow> Inl p | Inr (_, b') \<Rightarrow> balancer_run b' ops)"

lemma balancer_run_ok: "bal_ok b \<Longrightarrow> balancer_run b ops = Inr b' \<Longrightarrow> bal_ok b'"
proof (induction b ops rule: balancer_run.induct)
  case (4 b ops)
  then show ?case
    using Balancer_Next_items [of b] Balancer_Next_empty [of b]
    by (cases "bal_items b") (auto split: sum.splits simp: bal_items_def)
qed (auto intro: bal_ok_add bal_ok_remove)

text \<open>Whatever sequence of \<open>Add\<close>, \<open>Remove\<close> and \<open>Next\<close> calls came before, \<open>Next\<close>
  returns an entry of the list, or panics exactly when the list is empty.\<close>

theorem Balancer_Next_safe:
  assumes "balancer_run NewBalancer ops = Inr b"
  shows "(case Balancer_Next b of
            Inl p \<Rightarrow> bal_uuids b = [] \<and> p = IndexOutOfRange
          | Inr (u, b') \<Rightarrow> u \<in> set (bal_uuids b) \<and> bal_uuids b' = bal_uuids b)"
proof (cases "bal_items b")
  case Nil
  then show ?thesis by (simp add: bal_items_def Balancer_Next_empty)
next
  case (Cons x xs)
  then have "x \<in> set (bal_uuids b)"
    using set_bal_items [of b] by auto
  with Balancer_Next_items [OF balancer_run_ok [OF bal_ok_new assms] Cons] show ?thesis
    by (auto dest: Next_uuids)
qed

theorem Balancer_Next_safe_witness:
  "\<exists>b. balancer_run NewBalancer [OpAdd ''x'', OpAdd ''y'', OpNextUUID, OpRemove ''y''] = Inr b
    \<and> (case Balancer_Next b of
            Inl p \<Rightarrow> bal_uuids b = [] \<and> p = IndexOutOfRange
          | Inr (u, b') \<Rightarrow> u \<in> set (bal_uuids b) \<and> bal_uuids b' = bal_uuids b)"
proof -
  obtain b where b: "balancer_run NewBalancer [OpAdd ''x'', OpAdd ''y'', OpNextUUID, OpRemove ''y''] = Inr b"
    by (simp add: NewBalancer_def Balancer_Add_def Balancer_Next_def)
  with Balancer_Next_safe [OF this] show ?thesis by blast
qed

text \<open>Load balancing is fair: \<open>k\<close> rounds of \<open>Next\<close> calls return every occurrence
  of every UUID exactly \<open>k\<close> times, so without duplicates all nodes get the same share.\<close>

theorem Balancer_fair:
  assumes "balancer_run NewBalancer ops = Inr b"
  shows "\<exists>us b'. next_seq Balancer_Next (k * length (bal_uuids b)) b = Inr (us, b')
    \<and> (\<forall>u. count_list us u = k * count_list (bal_uuids b) u)"
proof -
  have "bal_ok b" by (rule balancer_run_ok [OF bal_ok_new assms])
  then obtain b' where
    "next_seq Balancer_Next (k * length (bal_uuids b)) b = Inr (concat (replicate k (bal_items b)), b')"
    using balrr.next_seq_rounds [of b k] by auto
  moreover have "count_list (concat (replicate k (bal_items b))) u = k * count_list (bal_uuids b) u" for u
    by (induction k) (simp_all add: bal_items_def)
  ultimately show ?thesis by blast
qed

theorem Balancer_fair_witness:
  "\<exists>b us b'. balancer_run NewBalancer [OpAdd ''x'', OpAdd ''y'', OpAdd ''z'', OpNextUUID] = Inr b
    \<and> next_seq Balancer_Next (4 * length (bal_uuids b)) b = Inr (us, b')
    \<and> count_list us ''y'' = 4"
proof -
  define b where "b = \<lparr>bal_uuids = [''x'', ''y'', ''z''], bal_index = 1\<rparr>"
  have run: "balancer_run NewBalancer [OpAdd ''x'', OpAdd ''y'', OpAdd ''z'', OpNextUUID] = Inr b"
    by (simp add: NewBalancer_def Balancer_Add_def Balancer_Next_def b_def)
  from Balancer_fair [OF this, of 4] obtain us b' where
    us: "next_seq Balancer_Next (4 * length (bal_uuids b)) b = Inr (us, b')"
      "\<forall>u. count_list us u = 4 * count_list (bal_uuids b) u" by blast
  then have "count_list us ''y'' = 4" by (simp add: b_def)
  with run us(1) show ?thesis by blast
qed

text \<open>\<open>Remove\<close> moves the turn even when it removes nothing: with three or more
  entries and the last one next in turn, removing an absent UUID makes an earlier entry next,
  so the last one loses its turn.\<close>

theorem Remove_absent_skips_turn:
  assumes "u \<notin> set (bal_uuids b)" and "3 \<le> length (bal_uuids b)"
    and "bal_index b = length (bal_uuids b) - 1"
  shows "bal_uuids (Balancer_Remove b u) = bal_uuids b
    \<and> bal_index (Balancer_Remove b u) = length (bal_uuids b) div 2
    \<and> bal_index (Balancer_Remove b u) < bal_index b"
proof -
  have same: "filter (\<lambda>v. v \<noteq> u) (bal_uuids b) = bal_uuids b"
    using assms(1) by (simp add: filter_id_conv) blast
  then have "bal_index (Balancer_Remove b u) = length (bal_uuids b) div 2"
    using assms(3) by (simp add: Balancer_Remove_def Let_def remove_loop_filter)
  with same assms(2,3) show ?thesis by simp
qed

theorem Remove_absent_skips_turn_witness:
  "bal_index (Balancer_Remove \<lparr>bal_uuids = [''x'', ''y'', ''z''], bal_index = 2\<rparr> ''w'') = 1"
  using Remove_absent_skips_turn [of "''w''" "\<lparr>bal_uuids = [''x'', ''y'', ''z''], bal_index = 2\<rparr>"]
  by simp

end
