(* ===== verification/Message_Filter.thy ===== *)
theory Message_Filter
  imports Message
begin

text \<open>
  The message filter of \<open>grav/filter.go\<close>: per message type and per UUID an allow or deny
  entry, and for each of the two maps a default for messages without an entry.
\<close>

record messageFilter =
  UUIDMap :: "uuid \<rightharpoonup> bool"
  UUIDInclusive :: bool
  TypeMap :: "string \<rightharpoonup> bool"
  TypeInclusive :: bool

definition newMessageFilter :: messageFilter where
  "newMessageFilter =
     \<lparr>UUIDMap = Map.empty, UUIDInclusive = True, TypeMap = Map.empty, TypeInclusive = True\<rparr>"

text \<open>A nil message panics on \<open>msg.Type()\<close>.\<close>

definition messageFilter_allow :: "messageFilter \<Rightarrow> msg_ref \<Rightarrow> panic + bool" where
  "messageFilter_allow mf ref =
     (case go_deref ref of
        Inl p \<Rightarrow> Inl p
      | Inr msg \<Rightarrow>
          Inr (let typeEntry = TypeMap mf (msg_Type msg);
                   typeExists = typeEntry \<noteq> None;
                   allowType = (case typeEntry of None \<Rightarrow> False | Some a \<Rightarrow> a)
               in if typeExists \<and> \<not> allowType then False
                  else if \<not> typeExists \<and> \<not> TypeInclusive mf then False
                  else
                    (let uuidEntry = UUIDMap mf (msg_UUID msg);
                         uuidExists = uuidEntry \<noteq> None;
                         allowUUID = (case uuidEntry of None \<Rightarrow> False | Some a \<Rightarrow> a)
                     in if uuidExists \<and> \<not> allowUUID then False
                        else if \<not> uuidExists \<and> \<not> UUIDInclusive mf then False
                        else True)))"

definition FilterUUID :: "messageFilter \<Rightarrow> uuid \<Rightarrow> bool \<Rightarrow> messageFilter" where
  "FilterUUID mf uuid allow = mf\<lparr>UUIDMap := (UUIDMap mf)(uuid \<mapsto> allow)\<rparr>"

definition FilterType :: "messageFilter \<Rightarrow> string \<Rightarrow> bool \<Rightarrow> messageFilter" where
  "FilterType mf msgType allow = mf\<lparr>TypeMap := (TypeMap mf)(msgType \<mapsto> allow)\<rparr>"

text \<open>What an entry and its default decide.\<close>

definition decided :: "('k \<rightharpoonup> bool) \<Rightarrow> bool \<Rightarrow> 'k \<Rightarrow> bool" where
  "decided mp inclusive k = (case mp k of Some a \<Rightarrow> a | None \<Rightarrow> inclusive)"

lemma decided_simps [simp]:
  "decided (mp(k \<mapsto> a)) i k' = (if k' = k then a else decided mp i k')"
  "decided Map.empty i k' = i"
  by (simp_all add: decided_def)

lemma allow_iff [grav_simps]:
  "messageFilter_allow mf (Some msg) =
     Inr (decided (TypeMap mf) (TypeInclusive mf) (msg_Type msg)
          \<and> decided (UUIDMap mf) (UUIDInclusive mf) (msg_UUID msg))"
  by (auto simp: messageFilter_allow_def decided_def Let_def split: option.splits)

lemma allow_nil [simp]: "messageFilter_allow mf None = Inl NilDereference"
  by (simp add: messageFilter_allow_def)

lemma allow_new [simp]: "messageFilter_allow newMessageFilter (Some msg) = Inr True"
  by (simp add: allow_iff newMessageFilter_def)

text \<open>The filter lets a message through exactly when both its type and its UUID are
  allowed: by their entry if there is one, by the map's inclusive flag otherwise; entries set
  later win, and no other type or UUID is affected.\<close>

theorem filter_decision:
  "messageFilter_allow (FilterType (FilterUUID mf u a) ty b) (Some msg)
     = Inr ((if msg_Type msg = ty then b
             else (case TypeMap mf (msg_Type msg) of Some c \<Rightarrow> c | None \<Rightarrow> TypeInclusive mf))
          \<and> (if msg_UUID msg = u then a
             else (case UUIDMap mf (msg_UUID msg) of Some c \<Rightarrow> c | None \<Rightarrow> UUIDInclusive mf)))"
  by (simp add: allow_iff FilterType_def FilterUUID_def decided_def)

end
