(* ===== verification/Pod_Connection.thy ===== *)
theory Pod_Connection
  imports Msg_Buffer
begin

text \<open>
  The bus's side of a pod, \<open>grav/podconnection.go\<close>, and the shared channels. A connection
  record holds the contents of the two channels it shares with its pod: \<open>pc_messageChan\<close>
  (bus to pod) and \<open>pc_feedbackChan\<close> (pod to bus). The goroutines that \<open>send\<close> starts are the
  entries of \<open>pc_sends\<close>: a goroutine is \<open>Spawned\<close> until it has taken the read lock and seen the
  connection connected, and \<open>Sending\<close>, with the read lock held, until its message is in the
  channel. The last section proves that no goroutine ever sends on the closed channel.
\<close>

section \<open>State\<close>

definition defaultPodChanSize :: nat where
  "defaultPodChanSize = 128"

definition highWaterMark :: nat where
  "highWaterMark = 64"

text \<open>
  A value on the feedback channel: the source compares it by pointer with three package
  variables, which no other code can reach, and takes anything else for a failed message.
\<close>

datatype feedback = FbReplay | FbSuccess | FbDisconnect | FbFailed message

datatype send_phase = Spawned | Sending

record podConnection =
  pc_ID :: int64
  pc_next :: "addr option"
  pc_messageChan :: "msg_ref list"
  pc_closed :: bool
  pc_feedbackChan :: "feedback list"
  pc_failed :: "message list"
  pc_connected :: bool
  pc_sends :: "(send_phase \<times> msg_ref) list"

record connStatus =
  HadSuccess :: bool
  WantsReplay :: bool
  WantsDisconnect :: bool
  StatusError :: "error option"

definition newPodConnection :: "int64 \<Rightarrow> msg_ref list \<times> feedback list \<Rightarrow> podConnection" where
  "newPodConnection connID busChans =
     \<lparr>pc_ID = connID, pc_next = None, pc_messageChan = fst busChans, pc_closed = False,
      pc_feedbackChan = snd busChans, pc_failed = [], pc_connected = True, pc_sends = []\<rparr>"

section \<open>Operations of the bus\<close>

definition podConnection_send :: "podConnection \<Rightarrow> msg_ref \<Rightarrow> podConnection" where
  "podConnection_send p msg = p\<lparr>pc_sends := pc_sends p @ [(Spawned, msg)]\<rparr>"

text \<open>
  The loop of \<open>checkStatus\<close> receives until the feedback channel is empty. The list is what it
  receives: the channel's contents when the loop reaches its \<open>default\<close> branch.
\<close>

fun checkStatus_loop :: "feedback list \<Rightarrow> connStatus \<Rightarrow> message list \<Rightarrow> connStatus \<times> message list" where
  "checkStatus_loop [] status failed = (status, failed)"
| "checkStatus_loop (feedbackMsg # rest) status failed =
     (if feedbackMsg = FbSuccess then checkStatus_loop rest (status\<lparr>HadSuccess := True\<rparr>) failed
      else if feedbackMsg = FbReplay then checkStatus_loop rest (status\<lparr>WantsReplay := True\<rparr>) failed
      else if feedbackMsg = FbDisconnect then checkStatus_loop rest (status\<lparr>WantsDisconnect := True\<rparr>) failed
      else checkStatus_loop rest (status\<lparr>StatusError := Some errFailedMessage\<rparr>)
             (failed @ (case feedbackMsg of FbFailed m \<Rightarrow> [m] | _ \<Rightarrow> [])))"

definition podConnection_checkStatus :: "podConnection \<Rightarrow> connStatus \<times> podConnection" where
  "podConnection_checkStatus p =
     (let (status, failed) =
            checkStatus_loop (pc_feedbackChan p)
              \<lparr>HadSuccess = False, WantsReplay = False, WantsDisconnect = False, StatusError = None\<rparr>
              (pc_failed p);
          status' = (if length failed \<ge> highWaterMark
                     then status\<lparr>StatusError := Some errFailedMessageMax\<rparr> else status)
      in (status', p\<lparr>pc_feedbackChan := [], pc_failed := failed\<rparr>))"

text \<open>\<open>disconnect\<close> runs with the write lock held; closing a closed channel panics.\<close>

definition podConnection_disconnect :: "podConnection \<Rightarrow> panic + podConnection" where
  "podConnection_disconnect p =
     (let p1 = p\<lparr>pc_connected := False\<rparr>
      in if pc_closed p1 then Inl CloseOfClosedChannel else Inr (p1\<lparr>pc_closed := True\<rparr>))"

definition podConnection_flushFailed :: "podConnection \<Rightarrow> podConnection" where
  "podConnection_flushFailed p =
     (let p1 = foldl (\<lambda>q failedMsg. podConnection_send q (Some failedMsg)) p (pc_failed p)
      in if length (pc_failed p1) > 0 then p1\<lparr>pc_failed := []\<rparr> else p1)"

section \<open>What they compute\<close>

definition failed_of :: "feedback list \<Rightarrow> message list" where
  "failed_of fs = concat (map (\<lambda>f. case f of FbFailed m \<Rightarrow> [m] | _ \<Rightarrow> []) fs)"

lemma failed_of_simps [simp]:
  "failed_of [] = []"
  "failed_of (FbFailed m # fs) = m # failed_of fs"
  "failed_of (FbSuccess # fs) = failed_of fs"
  "failed_of (FbReplay # fs) = failed_of fs"
  "failed_of (FbDisconnect # fs) = failed_of fs"
  by (simp_all add: failed_of_def)

lemma failed_of_append [simp]: "failed_of (xs @ ys) = failed_of xs @ failed_of ys"
  by (simp add: failed_of_def)

lemma checkStatus_loop_eq:
  "checkStatus_loop fs st failed =
     (\<lparr>HadSuccess = HadSuccess st \<or> FbSuccess \<in> set fs,
       WantsReplay = WantsReplay st \<or> FbReplay \<in> set fs,
       WantsDisconnect = WantsDisconnect st \<or> FbDisconnect \<in> set fs,
       StatusError = (if failed_of fs = [] then StatusError st else Some errFailedMessage)\<rparr>,
      failed @ failed_of fs)"
proof (induction fs arbitrary: st failed)
  case Nil
  show ?case by simp
next
  case (Cons f fs)
  show ?case by (cases f) (simp_all add: Cons.IH)
qed

lemma checkStatus_eq [grav_simps]:
  "podConnection_checkStatus p =
     (\<lparr>HadSuccess = FbSuccess \<in> set (pc_feedbackChan p),
       WantsReplay = FbReplay \<in> set (pc_feedbackChan p),
       WantsDisconnect = FbDisconnect \<in> set (pc_feedbackChan p),
       StatusError = (if length (pc_failed p @ failed_of (pc_feedbackChan p)) \<ge> highWaterMark
                      then Some errFailedMessageMax
                      else if failed_of (pc_feedbackChan p) = [] then None
                      else Some errFailedMessage)\<rparr>,
      p\<lparr>pc_feedbackChan := [], pc_failed := pc_failed p @ failed_of (pc_feedbackChan p)\<rparr>)"
  by (simp add: podConnection_checkStatus_def checkStatus_loop_eq Let_def)

lemma foldl_send:
  "foldl (\<lambda>q m. podConnection_send q (g m)) p ms =
     p\<lparr>pc_sends := pc_sends p @ map (\<lambda>m. (Spawned, g m)) ms\<rparr>"
  by (induction ms arbitrary: p) (simp_all add: podConnection_send_def)

lemma foldl_send_refs:
  "foldl podConnection_send p refs = p\<lparr>pc_sends := pc_sends p @ map (Pair Spawned) refs\<rparr>"
  by (induction refs arbitrary: p) (simp_all add: podConnection_send_def)

lemma flushFailed_eq [grav_simps]:
  "podConnection_flushFailed p =
     p\<lparr>pc_failed := [], pc_sends := pc_sends p @ map (\<lambda>m. (Spawned, Some m)) (pc_failed p)\<rparr>"
  by (cases p) (simp add: podConnection_flushFailed_def Let_def foldl_send)

lemma disconnect_open [grav_simps]:
  "\<not> pc_closed p \<Longrightarrow> podConnection_disconnect p = Inr (p\<lparr>pc_connected := False, pc_closed := True\<rparr>)"
  by (simp add: podConnection_disconnect_def Let_def)

section \<open>The goroutines of send against disconnect\<close>

text \<open>
  The second half of \<open>send\<close>: goroutine number \<open>k\<close>, with the read lock held, sends its message.
  \<open>None\<close> is a send that blocks on the full channel.
\<close>

definition send_goroutine_write :: "podConnection \<Rightarrow> nat \<Rightarrow> (panic + podConnection) option" where
  "send_goroutine_write p k =
     (if pc_closed p then Some (Inl SendOnClosedChannel)
      else if length (pc_messageChan p) < defaultPodChanSize then
        Some (Inr (p\<lparr>pc_messageChan := pc_messageChan p @ [snd (pc_sends p ! k)],
                     pc_sends := take k (pc_sends p) @ drop (Suc k) (pc_sends p)\<rparr>))
      else None)"

text \<open>The first half: take the read lock, and give up if the connection is dead.\<close>

definition send_goroutine_start :: "podConnection \<Rightarrow> nat \<Rightarrow> podConnection" where
  "send_goroutine_start p k =
     (if \<not> pc_connected p
      then p\<lparr>pc_sends := take k (pc_sends p) @ drop (Suc k) (pc_sends p)\<rparr>
      else p\<lparr>pc_sends := (pc_sends p)[k := (Sending, snd (pc_sends p ! k))]\<rparr>)"

text \<open>
  The connection and the bus, in which a panic is a state of its own. The bus may send at any
  time and writes feedback it has drained; it disconnects a connection it still has in its
  ring, once, and only when no goroutine holds the read lock. The pod may take a message.
\<close>

record conn_sys =
  cs_conn :: podConnection
  cs_inRing :: bool
  cs_panic :: "panic option"

inductive conn_step :: "conn_sys \<Rightarrow> conn_sys \<Rightarrow> bool" where
  bus_send: "cs_panic s = None \<Longrightarrow>
     conn_step s (s\<lparr>cs_conn := podConnection_send (cs_conn s) msg\<rparr>)"
| bus_check: "cs_panic s = None \<Longrightarrow>
     conn_step s (s\<lparr>cs_conn := snd (podConnection_checkStatus (cs_conn s))\<rparr>)"
| bus_flush: "cs_panic s = None \<Longrightarrow>
     conn_step s (s\<lparr>cs_conn := podConnection_flushFailed (cs_conn s)\<rparr>)"
| pod_feedback: "cs_panic s = None \<Longrightarrow> length (pc_feedbackChan (cs_conn s)) < defaultPodChanSize \<Longrightarrow>
     conn_step s (s\<lparr>cs_conn := (cs_conn s)\<lparr>pc_feedbackChan := pc_feedbackChan (cs_conn s) @ [f]\<rparr>\<rparr>)"
| start: "cs_panic s = None \<Longrightarrow> k < length (pc_sends (cs_conn s)) \<Longrightarrow>
     fst (pc_sends (cs_conn s) ! k) = Spawned \<Longrightarrow>
     conn_step s (s\<lparr>cs_conn := send_goroutine_start (cs_conn s) k\<rparr>)"
| write_ok: "cs_panic s = None \<Longrightarrow> k < length (pc_sends (cs_conn s)) \<Longrightarrow>
     fst (pc_sends (cs_conn s) ! k) = Sending \<Longrightarrow>
     send_goroutine_write (cs_conn s) k = Some (Inr c) \<Longrightarrow>
     conn_step s (s\<lparr>cs_conn := c\<rparr>)"
| write_panic: "cs_panic s = None \<Longrightarrow> k < length (pc_sends (cs_conn s)) \<Longrightarrow>
     fst (pc_sends (cs_conn s) ! k) = Sending \<Longrightarrow>
     send_goroutine_write (cs_conn s) k = Some (Inl p) \<Longrightarrow>
     conn_step s (s\<lparr>cs_panic := Some p\<rparr>)"
| pod_receive: "cs_panic s = None \<Longrightarrow> pc_messageChan (cs_conn s) = msg # rest \<Longrightarrow>
     conn_step s (s\<lparr>cs_conn := (cs_conn s)\<lparr>pc_messageChan := rest\<rparr>\<rparr>)"
| bus_disconnect: "cs_panic s = None \<Longrightarrow> cs_inRing s \<Longrightarrow>
     (\<forall>x \<in> set (pc_sends (cs_conn s)). fst x = Spawned) \<Longrightarrow>
     podConnection_disconnect (cs_conn s) = Inr c \<Longrightarrow>
     conn_step s (s\<lparr>cs_conn := c, cs_inRing := False\<rparr>)"
| disconnect_panic: "cs_panic s = None \<Longrightarrow> cs_inRing s \<Longrightarrow>
     (\<forall>x \<in> set (pc_sends (cs_conn s)). fst x = Spawned) \<Longrightarrow>
     podConnection_disconnect (cs_conn s) = Inl p \<Longrightarrow>
     conn_step s (s\<lparr>cs_panic := Some p, cs_inRing := False\<rparr>)"

inductive_cases conn_stepE: "conn_step s t"

definition conn_init :: "conn_sys \<Rightarrow> bool" where
  "conn_init s \<longleftrightarrow> cs_inRing s \<and> cs_panic s = None
     \<and> (\<exists>connID chans. cs_conn s = newPodConnection connID chans)"

definition conn_inv :: "conn_sys \<Rightarrow> bool" where
  "conn_inv s \<longleftrightarrow> cs_panic s = None
     \<and> pc_closed (cs_conn s) = (\<not> pc_connected (cs_conn s))
     \<and> (cs_inRing s \<longrightarrow> pc_connected (cs_conn s))
     \<and> (\<not> pc_connected (cs_conn s) \<longrightarrow> (\<forall>x \<in> set (pc_sends (cs_conn s)). fst x = Spawned))"

lemma set_drop_at: "set (take k xs @ drop (Suc k) xs) \<subseteq> set xs"
  using set_take_subset [of k xs] set_drop_subset [of "Suc k" xs] by auto

lemma conn_inv_init: "conn_init s \<Longrightarrow> conn_inv s"
  by (auto simp: conn_init_def conn_inv_def newPodConnection_def)

lemma write_connected:
  "conn_inv s \<Longrightarrow> k < length (pc_sends (cs_conn s)) \<Longrightarrow> fst (pc_sends (cs_conn s) ! k) = Sending \<Longrightarrow>
   pc_connected (cs_conn s)"
  by (rule ccontr) (fastforce simp: conn_inv_def dest: nth_mem)

lemma conn_inv_step: "conn_inv s \<Longrightarrow> conn_step s t \<Longrightarrow> conn_inv t"
proof (erule conn_stepE, goal_cases)
  case (1 msg)
  then show ?case by (auto simp: conn_inv_def podConnection_send_def)
next
  case 2
  then show ?case by (auto simp: conn_inv_def checkStatus_eq)
next
  case 3
  then show ?case by (auto simp: conn_inv_def flushFailed_eq)
next
  case (4 f)
  then show ?case by (auto simp: conn_inv_def)
next
  case (5 k)
  then show ?case
    using set_drop_at [of k "pc_sends (cs_conn s)"]
    by (auto simp: conn_inv_def send_goroutine_start_def split: if_splits)
next
  case (6 k c)
  then have "pc_connected (cs_conn s)" by (intro write_connected)
  with 6 show ?case
    by (auto simp: conn_inv_def send_goroutine_write_def split: if_splits)
next
  case (7 k p)
  then have "pc_connected (cs_conn s)" by (intro write_connected)
  with 7 show ?case
    by (auto simp: conn_inv_def send_goroutine_write_def split: if_splits)
next
  case (8 msg rest)
  then show ?case by (auto simp: conn_inv_def)
next
  case (9 c)
  then show ?case by (auto simp: conn_inv_def podConnection_disconnect_def Let_def split: if_splits)
next
  case (10 p)
  then show ?case by (auto simp: conn_inv_def podConnection_disconnect_def Let_def split: if_splits)
qed

interpretation connsys: invariant_system conn_init conn_step conn_inv
  by unfold_locales (fact conn_inv_init, fact conn_inv_step)

section \<open>Properties\<close>

text \<open>Property C27. However the goroutines of \<open>send\<close>, the pod and the bus interleave, no goroutine
  sends on the closed message channel and the channel is closed at most once: the read lock
  a sender holds keeps \<open>disconnect\<close> away, and after it no sender passes the connected check.\<close>

theorem no_send_on_closed_channel:
  assumes "reach conn_init conn_step s"
  shows "cs_panic s = None
    \<and> (pc_closed (cs_conn s) \<longrightarrow> (\<forall>x \<in> set (pc_sends (cs_conn s)). fst x = Spawned))"
  using connsys.inv_reach [OF assms] by (simp add: conn_inv_def)

theorem no_send_on_closed_channel_witness:
  "\<exists>s. reach conn_init conn_step s \<and> pc_closed (cs_conn s) \<and> pc_sends (cs_conn s) = [(Spawned, None)]
     \<and> cs_panic s = None"
proof -
  let ?c = "newPodConnection 1 ([], [])"
  let ?s0 = "\<lparr>cs_conn = ?c, cs_inRing = True, cs_panic = None\<rparr>"
  let ?s1 = "?s0\<lparr>cs_conn := podConnection_send ?c None\<rparr>"
  let ?c2 = "(podConnection_send ?c None)\<lparr>pc_connected := False, pc_closed := True\<rparr>"
  let ?s2 = "?s1\<lparr>cs_conn := ?c2, cs_inRing := False\<rparr>"
  have "reach conn_init conn_step ?s0"
    by (rule reach_init) (auto simp: conn_init_def)
  then have "reach conn_init conn_step ?s1"
    by (rule reach_step) (use conn_step.bus_send [of ?s0 None] in simp)
  then have r: "reach conn_init conn_step ?s2"
    by (rule reach_step)
       (use conn_step.bus_disconnect [of ?s1 ?c2] in
          \<open>simp add: podConnection_disconnect_def newPodConnection_def podConnection_send_def\<close>)
  from no_send_on_closed_channel [OF r] r show ?thesis
    by (intro exI [of _ ?s2]) (simp add: podConnection_send_def newPodConnection_def)
qed

text \<open>One status check reads the whole feedback channel: it reports success, replay
  and disconnect requests if there is one anywhere in it, moves the failed messages in order
  to the failed queue, and reports the maximum-failures error exactly when the queue then
  holds at least 64 messages.\<close>

theorem checkStatus_summary:
  "podConnection_checkStatus p = (st, p') \<Longrightarrow>
     HadSuccess st = (FbSuccess \<in> set (pc_feedbackChan p))
   \<and> WantsReplay st = (FbReplay \<in> set (pc_feedbackChan p))
   \<and> WantsDisconnect st = (FbDisconnect \<in> set (pc_feedbackChan p))
   \<and> pc_failed p' = pc_failed p @ failed_of (pc_feedbackChan p)
   \<and> pc_feedbackChan p' = []
   \<and> (StatusError st = Some errFailedMessageMax) = (64 \<le> length (pc_failed p'))
   \<and> (StatusError st = None) = (length (pc_failed p') < 64 \<and> failed_of (pc_feedbackChan p) = [])"
  by (auto simp: checkStatus_eq highWaterMark_def split: if_splits)

theorem checkStatus_summary_witness:
  "\<exists>st p'. podConnection_checkStatus
      (newPodConnection 1 ([], [FbSuccess, FbFailed (NewMsg ''a'' 0 ''t'' []), FbDisconnect])) = (st, p')
    \<and> HadSuccess st \<and> WantsDisconnect st \<and> pc_failed p' = [NewMsg ''a'' 0 ''t'' []]"
proof -
  let ?p = "newPodConnection 1 ([], [FbSuccess, FbFailed (NewMsg ''a'' 0 ''t'' []), FbDisconnect])"
  obtain st p' where eq: "podConnection_checkStatus ?p = (st, p')"
    by (cases "podConnection_checkStatus ?p")
  from checkStatus_summary [OF eq] eq show ?thesis
    by (auto simp: newPodConnection_def)
qed

end
