(* ===== verification/Pod_Delivery.thy ===== *)
theory Pod_Delivery
  imports Pod_Connection "HOL-Library.Multiset"
begin

text \<open>
  What becomes of a message between the bus and a pod: the bus starts a goroutine for it, the goroutine
  takes the read lock and writes it to the channel of 128 entries, and the loop of the pod takes it out.
  No message is lost or doubled on the way while the connection lasts, whatever the
  bus does in the meantime, and every schedule of the goroutines and the pod brings all of them to the
  pod; their order is not kept.
\<close>

section \<open>The connection with its history\<close>

text \<open>\<open>dl_spawned\<close> lists the messages of all sending goroutines so far, \<open>dl_taken\<close> what the pod has taken.\<close>

record delivery =
  dl_sys :: conn_sys
  dl_spawned :: "msg_ref list"
  dl_taken :: "msg_ref list"

text \<open>A step of the connection, observed: goroutines are added at the end, messages taken from the front.\<close>

definition observe :: "delivery \<Rightarrow> conn_sys \<Rightarrow> delivery" where
  "observe s u =
     (let before = cs_conn (dl_sys s); after = cs_conn u
      in s\<lparr>dl_sys := u,
           dl_spawned := dl_spawned s @ map snd (drop (length (pc_sends before)) (pc_sends after)),
           dl_taken := dl_taken s
             @ take (length (pc_messageChan before) - length (pc_messageChan after)) (pc_messageChan before)\<rparr>)"

inductive deliver_step :: "delivery \<Rightarrow> delivery \<Rightarrow> bool" where
  conn: "conn_step (dl_sys s) u \<Longrightarrow> deliver_step s (observe s u)"

inductive_cases deliver_stepE: "deliver_step s t"

text \<open>The steps of the goroutines and the pod alone.\<close>

inductive goroutine_step :: "delivery \<Rightarrow> delivery \<Rightarrow> bool" where
  g_start: "cs_panic (dl_sys s) = None \<Longrightarrow> k < length (pc_sends (cs_conn (dl_sys s))) \<Longrightarrow>
     fst (pc_sends (cs_conn (dl_sys s)) ! k) = Spawned \<Longrightarrow>
     goroutine_step s (observe s ((dl_sys s)\<lparr>cs_conn := send_goroutine_start (cs_conn (dl_sys s)) k\<rparr>))"
| g_write: "cs_panic (dl_sys s) = None \<Longrightarrow> k < length (pc_sends (cs_conn (dl_sys s))) \<Longrightarrow>
     fst (pc_sends (cs_conn (dl_sys s)) ! k) = Sending \<Longrightarrow>
     send_goroutine_write (cs_conn (dl_sys s)) k = Some (Inr c) \<Longrightarrow>
     goroutine_step s (observe s ((dl_sys s)\<lparr>cs_conn := c\<rparr>))"
| g_receive: "cs_panic (dl_sys s) = None \<Longrightarrow> pc_messageChan (cs_conn (dl_sys s)) = msg # rest \<Longrightarrow>
     goroutine_step s (observe s ((dl_sys s)\<lparr>cs_conn := (cs_conn (dl_sys s))\<lparr>pc_messageChan := rest\<rparr>\<rparr>))"

inductive_cases goroutine_stepE: "goroutine_step s t"

lemma goroutine_is_step: "goroutine_step s t \<Longrightarrow> deliver_step s t"
  by (erule goroutine_stepE)
     (auto intro: deliver_step.conn conn_step.start conn_step.write_ok conn_step.pod_receive)

definition deliver_init :: "delivery \<Rightarrow> bool" where
  "deliver_init s \<longleftrightarrow> conn_init (dl_sys s) \<and> pc_messageChan (cs_conn (dl_sys s)) = []
     \<and> dl_spawned s = [] \<and> dl_taken s = []"

section \<open>Nothing is lost\<close>

text \<open>The messages on their way: in a goroutine or in the channel.\<close>

definition on_the_way :: "podConnection \<Rightarrow> msg_ref multiset" where
  "on_the_way c = mset (map snd (pc_sends c)) + mset (pc_messageChan c)"

definition deliver_inv :: "delivery \<Rightarrow> bool" where
  "deliver_inv s \<longleftrightarrow> conn_inv (dl_sys s)
     \<and> on_the_way (cs_conn (dl_sys s)) + mset (dl_taken s) \<subseteq># mset (dl_spawned s)
     \<and> (pc_connected (cs_conn (dl_sys s)) \<longrightarrow>
          on_the_way (cs_conn (dl_sys s)) + mset (dl_taken s) = mset (dl_spawned s))"

lemma mset_remove_at: "k < length xs \<Longrightarrow> add_mset (f (xs ! k)) (mset (map f (take k xs @ drop (Suc k) xs))) = mset (map f xs)"
proof -
  assume k: "k < length xs"
  have "mset (map f xs) = mset (map f (take k xs @ xs ! k # drop (Suc k) xs))"
    using id_take_nth_drop [OF k] by simp
  then show ?thesis by simp
qed

lemma map_snd_phase: "k < length xs \<Longrightarrow> map snd (xs[k := (ph, snd (xs ! k))]) = map snd xs"
  by (induction xs arbitrary: k) (auto split: nat.split)

text \<open>What one step does to the messages of the connection.\<close>

definition conserves :: "conn_sys \<Rightarrow> conn_sys \<Rightarrow> bool" where
  "conserves s u \<longleftrightarrow>
     (let new = mset (map snd (drop (length (pc_sends (cs_conn s))) (pc_sends (cs_conn u))));
          taken = mset (take (length (pc_messageChan (cs_conn s)) - length (pc_messageChan (cs_conn u)))
                          (pc_messageChan (cs_conn s)))
      in on_the_way (cs_conn u) + taken \<subseteq># on_the_way (cs_conn s) + new
       \<and> (pc_connected (cs_conn u) \<longrightarrow> pc_connected (cs_conn s)
            \<and> on_the_way (cs_conn u) + taken = on_the_way (cs_conn s) + new))"

lemma start_conserves:
  assumes k: "k < length (pc_sends (cs_conn s))"
  shows "conserves s (s\<lparr>cs_conn := send_goroutine_start (cs_conn s) k\<rparr>)"
proof -
  let ?xs = "pc_sends (cs_conn s)"
  have "mset (map snd (take k ?xs @ drop (Suc k) ?xs)) \<subseteq># mset (map snd ?xs)"
    unfolding mset_remove_at [OF k, of snd, symmetric] by simp
  moreover have "image_mset snd (mset (?xs[k := (Sending, snd (?xs ! k))])) = image_mset snd (mset ?xs)"
    using map_snd_phase [OF k, of Sending] by (metis mset_map)
  ultimately show ?thesis
    using k
    by (auto simp: conserves_def on_the_way_def send_goroutine_start_def Let_def)
qed

lemma write_conserves:
  assumes "k < length (pc_sends (cs_conn s))" and "send_goroutine_write (cs_conn s) k = Some (Inr c)"
  shows "conserves s (s\<lparr>cs_conn := c\<rparr>)"
  using assms mset_remove_at [OF assms(1), of snd]
  by (auto simp: conserves_def on_the_way_def send_goroutine_write_def Let_def split: if_splits)

lemma step_conserves: "conn_step s u \<Longrightarrow> conserves s u"
proof (erule conn_stepE, goal_cases)
  case (1 msg)
  then show ?case by (simp add: conserves_def on_the_way_def podConnection_send_def)
next
  case 2
  then show ?case by (simp add: conserves_def on_the_way_def checkStatus_eq)
next
  case 3
  then show ?case by (simp add: conserves_def on_the_way_def flushFailed_eq)
next
  case (4 f)
  then show ?case by (simp add: conserves_def on_the_way_def)
next
  case (5 k)
  then show ?case using start_conserves [of k s] by simp
next
  case (6 k c)
  then show ?case using write_conserves [of k s c] by simp
next
  case (7 k p)
  then show ?case by (simp add: conserves_def on_the_way_def)
next
  case (8 msg rest)
  then show ?case by (simp add: conserves_def on_the_way_def)
next
  case (9 c)
  then show ?case
    by (auto simp: conserves_def on_the_way_def podConnection_disconnect_def Let_def split: if_splits)
next
  case (10 p)
  then show ?case by (simp add: conserves_def on_the_way_def)
qed

lemma deliver_inv_init: "deliver_init s \<Longrightarrow> deliver_inv s"
  using conn_inv_init [of "dl_sys s"]
  by (auto simp: deliver_init_def deliver_inv_def conn_init_def on_the_way_def newPodConnection_def)

lemma mset_step:
  fixes W W' K N T S :: "'a multiset"
  assumes "W' + K \<subseteq># W + N" and "W + T \<subseteq># S"
  shows "W' + (T + K) \<subseteq># S + N"
proof -
  have "T + (W' + K) \<subseteq># T + (W + N)" using assms(1) by simp
  also have "T + (W + N) = (W + T) + N" by (simp add: ac_simps)
  also have "\<dots> \<subseteq># S + N" using assms(2) by simp
  finally show ?thesis by (simp add: ac_simps)
qed

lemma mset_step_eq:
  fixes W W' K N T S :: "'a multiset"
  assumes "W' + K = W + N" and "W + T = S"
  shows "W' + (T + K) = S + N"
proof -
  have "W' + (T + K) = T + (W' + K)" by (simp add: ac_simps)
  also have "\<dots> = S + N" unfolding assms(1) assms(2) [symmetric] by (simp add: ac_simps)
  finally show ?thesis .
qed

lemma deliver_inv_step: "deliver_inv s \<Longrightarrow> deliver_step s t \<Longrightarrow> deliver_inv t"
proof (erule deliver_stepE)
  fix u
  assume inv: "deliver_inv s" and t: "t = observe s u" and step: "conn_step (dl_sys s) u"
  let ?c = "cs_conn (dl_sys s)" and ?d = "cs_conn u"
  let ?new = "mset (map snd (drop (length (pc_sends ?c)) (pc_sends ?d)))"
  let ?taken = "mset (take (length (pc_messageChan ?c) - length (pc_messageChan ?d)) (pc_messageChan ?c))"
  have C: "on_the_way ?d + ?taken \<subseteq># on_the_way ?c + ?new"
      "pc_connected ?d \<longrightarrow> pc_connected ?c \<and> on_the_way ?d + ?taken = on_the_way ?c + ?new"
    using step_conserves [OF step] unfolding conserves_def Let_def by blast+
  have I: "on_the_way ?c + mset (dl_taken s) \<subseteq># mset (dl_spawned s)"
      "pc_connected ?c \<longrightarrow> on_the_way ?c + mset (dl_taken s) = mset (dl_spawned s)"
    using inv by (simp_all add: deliver_inv_def)
  have obs: "cs_conn (dl_sys t) = ?d" "mset (dl_taken t) = mset (dl_taken s) + ?taken"
      "mset (dl_spawned t) = mset (dl_spawned s) + ?new"
    by (simp_all add: t observe_def Let_def)
  have "conn_inv (dl_sys t)"
    using inv conn_inv_step [OF _ step] by (simp add: deliver_inv_def t observe_def Let_def)
  moreover have "on_the_way ?d + (mset (dl_taken s) + ?taken) \<subseteq># mset (dl_spawned s) + ?new"
    by (rule mset_step [OF C(1) I(1)])
  moreover have "on_the_way ?d + (mset (dl_taken s) + ?taken) = mset (dl_spawned s) + ?new" if "pc_connected ?d"
    using C(2) I(2) that by (intro mset_step_eq) blast+
  ultimately show "deliver_inv t" unfolding deliver_inv_def obs by blast
qed

interpretation delivery: invariant_system deliver_init deliver_step deliver_inv
  by unfold_locales (fact deliver_inv_init, fact deliver_inv_step)

section \<open>Everything arrives\<close>

text \<open>The steps that the messages on their way still need.\<close>

definition way_length :: "podConnection \<Rightarrow> nat" where
  "way_length c = sum_list (map (\<lambda>x. if fst x = Spawned then 3 else 2) (pc_sends c)) + length (pc_messageChan c)"

lemma sum_list_remove_at:
  "k < length xs \<Longrightarrow> sum_list (map f (take k xs @ drop (Suc k) xs)) + f (xs ! k) = (sum_list (map f xs) :: nat)"
proof -
  assume k: "k < length xs"
  have "sum_list (map f xs) = sum_list (map f (take k xs @ xs ! k # drop (Suc k) xs))"
    using id_take_nth_drop [OF k] by simp
  then show ?thesis by simp
qed

lemma sum_list_update_at:
  "k < length xs \<Longrightarrow> sum_list (map f (xs[k := y])) + f (xs ! k) = (sum_list (map f xs) + f y :: nat)"
proof -
  assume k: "k < length xs"
  have "xs[k := y] = take k xs @ y # drop (Suc k) xs" by (rule upd_conv_take_nth_drop [OF k])
  moreover have "sum_list (map f xs) = sum_list (map f (take k xs @ xs ! k # drop (Suc k) xs))"
    using id_take_nth_drop [OF k] by simp
  ultimately show ?thesis by simp
qed

lemma goroutine_shortens:
  assumes "goroutine_step s t"
  shows "way_length (cs_conn (dl_sys t)) < way_length (cs_conn (dl_sys s))"
    and "pc_connected (cs_conn (dl_sys t)) = pc_connected (cs_conn (dl_sys s))"
    and "pc_connected (cs_conn (dl_sys s)) \<longrightarrow> dl_spawned t = dl_spawned s"
  using assms
proof (atomize (full), elim goroutine_stepE, goal_cases)
  case (1 k)
  let ?c = "cs_conn (dl_sys s)" and ?w = "\<lambda>x. if fst x = Spawned then 3 else (2 :: nat)"
  show ?case
    using 1 sum_list_remove_at [of k "pc_sends ?c" ?w] sum_list_update_at [of k "pc_sends ?c" ?w "(Sending, snd (pc_sends ?c ! k))"]
    by (auto simp: observe_def Let_def way_length_def send_goroutine_start_def)
next
  case (2 k c)
  let ?c = "cs_conn (dl_sys s)" and ?w = "\<lambda>x. if fst x = Spawned then 3 else (2 :: nat)"
  show ?case
    using 2 sum_list_remove_at [of k "pc_sends ?c" ?w]
    by (auto simp: observe_def Let_def way_length_def send_goroutine_write_def split: if_splits)
next
  case (3 msg rest)
  then show ?case by (auto simp: observe_def Let_def way_length_def)
qed

lemma goroutine_enabled:
  assumes inv: "deliver_inv s" and con: "pc_connected (cs_conn (dl_sys s))" and stuck: "stuck goroutine_step s"
  shows "on_the_way (cs_conn (dl_sys s)) = {#}"
proof -
  let ?c = "cs_conn (dl_sys s)"
  have ok: "cs_panic (dl_sys s) = None" "\<not> pc_closed ?c"
    using inv con by (auto simp: deliver_inv_def conn_inv_def)
  have chan: "pc_messageChan ?c = []"
    using stuck g_receive [OF ok(1)] by (cases "pc_messageChan ?c") (auto simp: stuck_def)
  have "pc_sends ?c = []"
  proof (rule ccontr)
    assume "pc_sends ?c \<noteq> []"
    then have k: "0 < length (pc_sends ?c)" by simp
    show False
    proof (cases "fst (pc_sends ?c ! 0)")
      case Spawned
      with g_start [OF ok(1) k] stuck show False by (auto simp: stuck_def)
    next
      case Sending
      have "\<exists>d. send_goroutine_write ?c 0 = Some (Inr d)"
        using ok(2) chan by (simp add: send_goroutine_write_def defaultPodChanSize_def)
      with g_write [OF ok(1) k Sending] stuck show False by (auto simp: stuck_def)
    qed
  qed
  with chan show ?thesis by (simp add: on_the_way_def)
qed

lemma goroutines_keep:
  assumes "goroutine_step\<^sup>*\<^sup>* s t" and "deliver_inv s" and "pc_connected (cs_conn (dl_sys s))"
  shows "deliver_inv t \<and> pc_connected (cs_conn (dl_sys t)) \<and> dl_spawned t = dl_spawned s"
  using assms
proof (induction rule: rtranclp_induct)
  case (step t u)
  then show ?case
    using deliver_inv_step [OF _ goroutine_is_step [OF step(2)]] goroutine_shortens(2,3) [OF step(2)] by simp
qed simp

lemma goroutines_end:
  "(goroutine_step ^^ n) s t \<Longrightarrow> way_length (cs_conn (dl_sys t)) + n \<le> way_length (cs_conn (dl_sys s))"
proof (induction n arbitrary: t)
  case (Suc n)
  then obtain u where "(goroutine_step ^^ n) s u" "goroutine_step u t" by auto
  with Suc.IH goroutine_shortens(1) [of u t] show ?case by force
qed simp

text \<open>A new connection to which the bus sends one message.\<close>

definition sent_one :: "msg_ref \<Rightarrow> delivery" where
  "sent_one msg = \<lparr>dl_sys = \<lparr>cs_conn = podConnection_send (newPodConnection 1 ([], [])) msg, cs_inRing = True, cs_panic = None\<rparr>,
     dl_spawned = [msg], dl_taken = []\<rparr>"

lemma sent_one_reach: "reach deliver_init deliver_step (sent_one msg)"
proof -
  let ?s0 = "\<lparr>dl_sys = \<lparr>cs_conn = newPodConnection 1 ([], []), cs_inRing = True, cs_panic = None\<rparr>, dl_spawned = [], dl_taken = []\<rparr>"
  have "reach deliver_init deliver_step ?s0"
    by (rule reach_init) (auto simp: deliver_init_def conn_init_def newPodConnection_def)
  moreover have "deliver_step ?s0 (observe ?s0 (dl_sys (sent_one msg)))"
    by (rule deliver_step.conn)
       (use conn_step.bus_send [of "dl_sys ?s0" msg] in \<open>simp add: sent_one_def\<close>)
  moreover have "observe ?s0 (dl_sys (sent_one msg)) = sent_one msg"
    by (simp add: observe_def sent_one_def newPodConnection_def podConnection_send_def)
  ultimately show ?thesis using reach_step by fastforce
qed

lemma sent_one_run:
  "\<exists>t. goroutine_step\<^sup>*\<^sup>* (sent_one msg) t \<and> stuck goroutine_step t \<and> dl_taken t = [msg]"
proof -
  let ?c = "newPodConnection 1 ([], [])"
  let ?s1 = "sent_one msg\<lparr>dl_sys := (dl_sys (sent_one msg))\<lparr>cs_conn := ?c\<lparr>pc_sends := [(Sending, msg)]\<rparr>\<rparr>\<rparr>"
  let ?s2 = "sent_one msg\<lparr>dl_sys := (dl_sys (sent_one msg))\<lparr>cs_conn := ?c\<lparr>pc_messageChan := [msg]\<rparr>\<rparr>\<rparr>"
  let ?s3 = "sent_one msg\<lparr>dl_sys := (dl_sys (sent_one msg))\<lparr>cs_conn := ?c\<rparr>, dl_taken := [msg]\<rparr>"
  have "goroutine_step (sent_one msg) ?s1"
    using g_start [of "sent_one msg" 0]
    by (simp add: sent_one_def observe_def send_goroutine_start_def newPodConnection_def podConnection_send_def)
  moreover have "goroutine_step ?s1 ?s2"
    using g_write [of ?s1 0 "?c\<lparr>pc_messageChan := [msg]\<rparr>"]
    by (simp add: sent_one_def observe_def send_goroutine_write_def newPodConnection_def defaultPodChanSize_def)
  moreover have "goroutine_step ?s2 ?s3"
    using g_receive [of ?s2 msg "[]"] by (simp add: sent_one_def observe_def newPodConnection_def)
  moreover have "stuck goroutine_step ?s3"
    by (auto simp: stuck_def sent_one_def newPodConnection_def elim!: goroutine_stepE)
  ultimately show ?thesis
    by (intro exI [of _ ?s3]) (auto intro: converse_rtranclp_into_rtranclp)
qed

section \<open>Properties\<close>

text \<open>Property C26. Between the bus and a pod no message is lost or doubled while the connection lasts:
  in every interleaving of the bus, the sending goroutines and the pod, the messages that goroutines
  were started for are those the pod has taken, those in the channel and those of the goroutines
  that still run. Once it is disconnected messages can only be dropped.\<close>

theorem messages_conserved:
  assumes "reach deliver_init deliver_step s"
  shows "on_the_way (cs_conn (dl_sys s)) + mset (dl_taken s) \<subseteq># mset (dl_spawned s)
    \<and> (pc_connected (cs_conn (dl_sys s)) \<longrightarrow>
         on_the_way (cs_conn (dl_sys s)) + mset (dl_taken s) = mset (dl_spawned s))"
  using delivery.inv_reach [OF assms] by (simp add: deliver_inv_def)

theorem messages_conserved_witness:
  "\<exists>s. reach deliver_init deliver_step s \<and> dl_spawned s = [None]
    \<and> on_the_way (cs_conn (dl_sys s)) + mset (dl_taken s) = {#None#}"
proof -
  have "pc_connected (cs_conn (dl_sys (sent_one None)))" "dl_spawned (sent_one None) = [None]"
    by (simp_all add: sent_one_def newPodConnection_def podConnection_send_def)
  with messages_conserved [OF sent_one_reach, of None] sent_one_reach [of None] show ?thesis
    by (intro exI [of _ "sent_one None"]) simp
qed

text \<open>Property C25. Every message arrives: from any state of a connection that is not being disconnected,
  any schedule of the sending goroutines and the pod comes to an end within a bounded number of steps,
  and it can only end when the pod has taken every message that was sent to it.\<close>

theorem every_message_arrives:
  assumes "reach deliver_init deliver_step s" and "pc_connected (cs_conn (dl_sys s))"
  shows "(\<forall>n t. (goroutine_step ^^ n) s t \<longrightarrow> n \<le> way_length (cs_conn (dl_sys s)))
    \<and> (\<forall>t. goroutine_step\<^sup>*\<^sup>* s t \<and> stuck goroutine_step t \<longrightarrow> mset (dl_taken t) = mset (dl_spawned s))"
proof (intro conjI allI impI)
  fix n t assume "(goroutine_step ^^ n) s t"
  from goroutines_end [OF this] show "n \<le> way_length (cs_conn (dl_sys s))" by simp
next
  fix t assume t: "goroutine_step\<^sup>*\<^sup>* s t \<and> stuck goroutine_step t"
  have inv: "deliver_inv t" "pc_connected (cs_conn (dl_sys t))" "dl_spawned t = dl_spawned s"
    using goroutines_keep [of s t] t delivery.inv_reach [OF assms(1)] assms(2) by auto
  have "on_the_way (cs_conn (dl_sys t)) = {#}" using t by (intro goroutine_enabled [OF inv(1,2)]) blast
  with inv show "mset (dl_taken t) = mset (dl_spawned s)" by (simp add: deliver_inv_def)
qed

theorem every_message_arrives_witness:
  "\<exists>s t. reach deliver_init deliver_step s \<and> goroutine_step\<^sup>*\<^sup>* s t \<and> stuck goroutine_step t
    \<and> mset (dl_taken t) = {#None#} \<and> way_length (cs_conn (dl_sys s)) = 3"
proof -
  let ?s = "sent_one None"
  have c: "pc_connected (cs_conn (dl_sys ?s))" "dl_spawned ?s = [None]" "way_length (cs_conn (dl_sys ?s)) = 3"
    by (simp_all add: sent_one_def newPodConnection_def podConnection_send_def way_length_def)
  obtain t where "goroutine_step\<^sup>*\<^sup>* ?s t" "stuck goroutine_step t"
    using sent_one_run by blast
  with every_message_arrives [OF sent_one_reach c(1)] c sent_one_reach [of None] show ?thesis
    by (intro exI [of _ ?s] exI [of _ t]) auto
qed

end
