(* ===== verification/Connection_Pool.thy ===== *)
theory Connection_Pool
  imports Pod_Connection
begin

text \<open>
  The ring of connections of \<open>grav/pool.go\<close> with the pointer operation \<open>insertAfter\<close> of
  \<open>grav/podconnection.go\<close>. The circular linked list is kept as in the code: connections live
  at addresses of a heap and link to each other through \<open>pc_next\<close>; the pool holds the address
  of the current one. The ring is related to the list of its addresses, starting at the
  current one, and the pointer operations are proved to implement the list operations.
\<close>

section \<open>State and operations\<close>

record pool =
  pl_heap :: "addr \<rightharpoonup> podConnection"
  pl_current :: "addr option"
  pl_maxID :: int64
  pl_fresh :: addr

definition newConnectionPool :: pool where
  "newConnectionPool = \<lparr>pl_heap = Map.empty, pl_current = None, pl_maxID = 0, pl_fresh = 0\<rparr>"

text \<open>Reading and writing through a pointer, and reading the \<open>next\<close> field.\<close>

definition load :: "pool \<Rightarrow> addr \<Rightarrow> panic + podConnection" where
  "load p a = go_deref (pl_heap p a)"

definition store :: "pool \<Rightarrow> addr \<Rightarrow> podConnection \<Rightarrow> pool" where
  "store p a c = p\<lparr>pl_heap := (pl_heap p)(a \<mapsto> c)\<rparr>"

definition load_next :: "pool \<Rightarrow> addr \<Rightarrow> panic + addr option" where
  "load_next p a = (case load p a of Inl e \<Rightarrow> Inl e | Inr c \<Rightarrow> Inr (pc_next c))"

text \<open>\<open>p.insertAfter(conn)\<close> for the connections at \<open>a\<close> and \<open>b\<close>.\<close>

definition insertAfter :: "pool \<Rightarrow> addr \<Rightarrow> addr \<Rightarrow> panic + pool" where
  "insertAfter p a b =
     (case load p a of
        Inl e \<Rightarrow> Inl e
      | Inr c \<Rightarrow>
          (let next = (case pc_next c of None \<Rightarrow> a | Some n \<Rightarrow> n);
               p1 = store p a (c\<lparr>pc_next := Some b\<rparr>)
           in case load p1 b of
                Inl e \<Rightarrow> Inl e
              | Inr d \<Rightarrow> Inr (store p1 b (d\<lparr>pc_next := Some next\<rparr>))))"

definition connectionPool_insert :: "pool \<Rightarrow> msg_ref list \<times> feedback list \<Rightarrow> panic + pool" where
  "connectionPool_insert p busChans =
     (let maxID = pl_maxID p + 1;
          conn = newPodConnection maxID busChans;
          a = pl_fresh p;
          p1 = (store p a conn)\<lparr>pl_maxID := maxID, pl_fresh := Suc a\<rparr>
      in case pl_current p1 of
           None \<Rightarrow> Inr ((store p1 a (conn\<lparr>pc_next := Some a\<rparr>))\<lparr>pl_current := Some a\<rparr>)
         | Some cur \<Rightarrow> insertAfter p1 cur a)"

definition connectionPool_peek :: "pool \<Rightarrow> panic + addr option" where
  "connectionPool_peek p =
     (case go_deref (pl_current p) of Inl e \<Rightarrow> Inl e | Inr cur \<Rightarrow> load_next p cur)"

definition connectionPool_next :: "pool \<Rightarrow> panic + (addr option \<times> pool)" where
  "connectionPool_next p =
     (case go_deref (pl_current p) of
        Inl e \<Rightarrow> Inl e
      | Inr cur \<Rightarrow>
          (case load_next p cur of
             Inl e \<Rightarrow> Inl e
           | Inr nxt \<Rightarrow> Inr (nxt, p\<lparr>pl_current := nxt\<rparr>)))"

definition connectionPool_deleteNext :: "pool \<Rightarrow> panic + pool" where
  "connectionPool_deleteNext p =
     (case go_deref (pl_current p) of
        Inl e \<Rightarrow> Inl e
      | Inr cur \<Rightarrow>
          (case load_next p cur of
             Inl e \<Rightarrow> Inl e
           | Inr nxtp \<Rightarrow>
               (case go_deref nxtp of
                  Inl e \<Rightarrow> Inl e
                | Inr nxt \<Rightarrow>
                    (case load p nxt of
                       Inl e \<Rightarrow> Inl e
                     | Inr c \<Rightarrow>
                         (case podConnection_disconnect c of
                            Inl e \<Rightarrow> Inl e
                          | Inr c' \<Rightarrow>
                              (let p1 = store p nxt c'
                               in if nxt = cur then Inr (p1\<lparr>pl_current := None\<rparr>)
                                  else (case load p1 cur of
                                          Inl e \<Rightarrow> Inl e
                                        | Inr d \<Rightarrow> Inr (store p1 cur (d\<lparr>pc_next := pc_next c'\<rparr>)))))))))"

text \<open>\<open>replayNext\<close> iterates over the buffer and sends every message to the next connection.\<close>

definition connectionPool_replayNext :: "msgbuffer \<Rightarrow> pool \<Rightarrow> pool run" where
  "connectionPool_replayNext buffer p =
     (case connectionPool_peek p of
        Inl e \<Rightarrow> Some (Inl e)
      | Inr nxtp \<Rightarrow>
          (case go_deref nxtp of
             Inl e \<Rightarrow> Some (Inl e)
           | Inr nxt \<Rightarrow>
               (case load p nxt of
                  Inl e \<Rightarrow> Some (Inl e)
                | Inr c \<Rightarrow>
                    (case MsgBuffer_Iter podConnection_send buffer c of
                       None \<Rightarrow> None
                     | Some (Inl e) \<Rightarrow> Some (Inl e)
                     | Some (Inr c') \<Rightarrow> Some (Inr (store p nxt c'))))))"

definition errRemoving :: error where
  "errRemoving = ErrorText ''removing next podConnection''"

definition errWantsDisconnect :: error where
  "errWantsDisconnect = ErrorText ''next pod requested disconnection, removing podConnection''"

text \<open>The tail of \<open>prepareNext\<close>: flush the next connection after a success.\<close>

definition flush_after_success :: "connStatus \<Rightarrow> addr \<Rightarrow> pool \<Rightarrow> (error option \<times> pool) run" where
  "flush_after_success status nxt p =
     (if HadSuccess status then
        (case load p nxt of
           Inl e \<Rightarrow> Some (Inl e)
         | Inr c \<Rightarrow> Some (Inr (None, store p nxt (podConnection_flushFailed c))))
      else Some (Inr (None, p)))"

definition connectionPool_prepareNext :: "msgbuffer \<Rightarrow> pool \<Rightarrow> (error option \<times> pool) run" where
  "connectionPool_prepareNext buffer p =
     (case connectionPool_peek p of
        Inl e \<Rightarrow> Some (Inl e)
      | Inr nxtp \<Rightarrow>
          (case go_deref nxtp of
             Inl e \<Rightarrow> Some (Inl e)
           | Inr nxt \<Rightarrow>
               (case load p nxt of
                  Inl e \<Rightarrow> Some (Inl e)
                | Inr c \<Rightarrow>
                    (case podConnection_checkStatus c of
                       (status, c1) \<Rightarrow>
                         (let p1 = store p nxt c1
                          in if StatusError status \<noteq> None then
                               (if StatusError status = Some errFailedMessageMax then
                                  (case connectionPool_deleteNext p1 of
                                     Inl e \<Rightarrow> Some (Inl e)
                                   | Inr p2 \<Rightarrow> Some (Inr (Some errRemoving, p2)))
                                else flush_after_success status nxt p1)
                             else if WantsDisconnect status then
                               (case connectionPool_deleteNext p1 of
                                  Inl e \<Rightarrow> Some (Inl e)
                                | Inr p2 \<Rightarrow> Some (Inr (Some errWantsDisconnect, p2)))
                             else if WantsReplay status then
                               (case connectionPool_replayNext buffer p1 of
                                  None \<Rightarrow> None
                                | Some (Inl e) \<Rightarrow> Some (Inl e)
                                | Some (Inr p2) \<Rightarrow> flush_after_success status nxt p2)
                             else flush_after_success status nxt p1)))))"

section \<open>The ring as a list\<close>

definition conn_at :: "pool \<Rightarrow> addr \<Rightarrow> podConnection" where
  "conn_at p a = the (pl_heap p a)"

definition live :: "podConnection \<Rightarrow> bool" where
  "live c \<longleftrightarrow> pc_connected c \<and> \<not> pc_closed c"

definition links :: "pool \<Rightarrow> addr \<Rightarrow> addr \<Rightarrow> bool" where
  "links p x y \<longleftrightarrow> (\<exists>c. pl_heap p x = Some c \<and> pc_next c = Some y)"

fun chain :: "pool \<Rightarrow> addr list \<Rightarrow> bool" where
  "chain p (x # y # zs) \<longleftrightarrow> links p x y \<and> chain p (y # zs)"
| "chain p _ \<longleftrightarrow> True"

lemma chain_hd: "xs \<noteq> [] \<Longrightarrow> chain p (x # xs) \<longleftrightarrow> links p x (hd xs) \<and> chain p xs"
  by (cases xs) auto

lemma chain_append: "chain p (xs @ y # ys) \<longleftrightarrow> chain p (xs @ [y]) \<and> chain p (y # ys)"
  by (induction p xs rule: chain.induct) (auto simp: chain_hd)

lemma chain_cong: "(\<And>x. x \<in> set xs \<Longrightarrow> links p' x = links p x) \<Longrightarrow> chain p' (xs @ [z]) = chain p (xs @ [z])"
  by (induction xs) (auto simp: chain_hd)

text \<open>
  \<open>ring p as\<close>: the addresses \<open>as\<close> are the ring, in order, from the current connection on;
  every connection in it is connected with its channel open.
\<close>

definition ring :: "pool \<Rightarrow> addr list \<Rightarrow> bool" where
  "ring p as \<longleftrightarrow> distinct as \<and> (\<forall>a \<in> set as. pl_heap p a \<noteq> None \<and> live (conn_at p a))
     \<and> (case as of
          [] \<Rightarrow> pl_current p = None
        | a # _ \<Rightarrow> pl_current p = Some a \<and> chain p (as @ [a]))"

text \<open>
  The IDs of the ring are pairwise different, as long as fewer than \<open>2^64\<close> pods have been
  connected; addresses at and above \<open>pl_fresh\<close> are unused.
\<close>

definition ids_ok :: "pool \<Rightarrow> addr list \<Rightarrow> bool" where
  "ids_ok p as \<longleftrightarrow> inj_on (\<lambda>a. pc_ID (conn_at p a)) (set as)
     \<and> (\<forall>a \<in> set as. unat (pc_ID (conn_at p a)) \<le> unat (pl_maxID p))
     \<and> pl_fresh p = unat (pl_maxID p)
     \<and> (\<forall>a. pl_heap p a \<noteq> None \<longrightarrow> a < pl_fresh p)"

definition pool_ok :: "pool \<Rightarrow> addr list \<Rightarrow> bool" where
  "pool_ok p as \<longleftrightarrow> ring p as \<and> ids_ok p as"

lemma store_simps [simp]:
  "pl_heap (store p a c) = (pl_heap p)(a \<mapsto> c)"
  "pl_current (store p a c) = pl_current p"
  "pl_maxID (store p a c) = pl_maxID p"
  "pl_fresh (store p a c) = pl_fresh p"
  by (simp_all add: store_def)

lemma conn_at_simps [simp]:
  "conn_at (store p a c) b = (if b = a then c else conn_at p b)"
  "conn_at (p\<lparr>pl_current := x\<rparr>) b = conn_at p b"
  "conn_at (p\<lparr>pl_maxID := i\<rparr>) b = conn_at p b"
  "conn_at (p\<lparr>pl_fresh := n\<rparr>) b = conn_at p b"
  by (simp_all add: conn_at_def)

lemma load_Some [simp]: "pl_heap p a = Some c \<Longrightarrow> load p a = Inr c"
  by (simp add: load_def)

lemma links_simps [simp]:
  "links (store p a c) x y = (if x = a then pc_next c = Some y else links p x y)"
  "links (p\<lparr>pl_current := z\<rparr>) x y = links p x y"
  "links (p\<lparr>pl_maxID := i\<rparr>) x y = links p x y"
  "links (p\<lparr>pl_fresh := n\<rparr>) x y = links p x y"
  by (simp_all add: links_def)

lemma ring_heap: "ring p as \<Longrightarrow> a \<in> set as \<Longrightarrow> pl_heap p a = Some (conn_at p a)"
  by (auto simp: ring_def conn_at_def)

lemma ring_live: "ring p as \<Longrightarrow> a \<in> set as \<Longrightarrow> live (conn_at p a)"
  by (auto simp: ring_def)

lemma ids_ok_cong:
  assumes "ids_ok p as" and "set as' \<subseteq> set as"
    and "\<forall>a \<in> set as'. pc_ID (conn_at p' a) = pc_ID (conn_at p a)"
    and "pl_maxID p' = pl_maxID p" and "pl_fresh p' = pl_fresh p"
    and "dom (pl_heap p') \<subseteq> dom (pl_heap p)"
  shows "ids_ok p' as'"
proof -
  have "inj_on (\<lambda>a. pc_ID (conn_at p' a)) (set as') = inj_on (\<lambda>a. pc_ID (conn_at p a)) (set as')"
    using assms(3) by (intro inj_on_cong) simp
  moreover have "inj_on (\<lambda>a. pc_ID (conn_at p a)) (set as')"
    using assms(1,2) by (auto simp: ids_ok_def intro: inj_on_subset)
  moreover have "\<forall>a \<in> set as'. unat (pc_ID (conn_at p' a)) \<le> unat (pl_maxID p)"
    using assms(1-3) by (auto simp: ids_ok_def)
  moreover have "\<forall>a. pl_heap p' a \<noteq> None \<longrightarrow> a < pl_fresh p"
    using assms(1,6) by (auto simp: ids_ok_def)
  ultimately show ?thesis
    using assms(1,4,5) by (simp add: ids_ok_def)
qed

lemma ring_new: "pool_ok newConnectionPool []"
  by (simp add: pool_ok_def ring_def ids_ok_def newConnectionPool_def)

lemma ring_next:
  assumes "ring p (a # as)"
  shows "pl_current p = Some a" and "pc_next (conn_at p a) = Some (hd (as @ [a]))"
proof -
  from assms show "pl_current p = Some a" by (simp add: ring_def)
  have "links p a (hd (as @ [a]))"
    using assms by (cases as) (auto simp: ring_def)
  then show "pc_next (conn_at p a) = Some (hd (as @ [a]))"
    by (auto simp: links_def conn_at_def)
qed

lemma peek_ring: "ring p (a # as) \<Longrightarrow> connectionPool_peek p = Inr (Some (hd (as @ [a])))"
  by (simp add: connectionPool_peek_def load_next_def ring_next load_Some [OF ring_heap])

lemma next_ring:
  assumes "pool_ok p (a # as)"
  shows "connectionPool_next p = Inr (Some (hd (as @ [a])), p\<lparr>pl_current := Some (hd (as @ [a]))\<rparr>)"
    and "pool_ok (p\<lparr>pl_current := Some (hd (as @ [a]))\<rparr>) (as @ [a])"
proof -
  have r: "ring p (a # as)" using assms by (simp add: pool_ok_def)
  show "connectionPool_next p = Inr (Some (hd (as @ [a])), p\<lparr>pl_current := Some (hd (as @ [a]))\<rparr>)"
    using r by (simp add: connectionPool_next_def load_next_def ring_next load_Some [OF ring_heap])
  let ?p' = "p\<lparr>pl_current := Some (hd (as @ [a]))\<rparr>"
  have "ring ?p' (as @ [a])"
  proof (cases as)
    case Nil
    with r show ?thesis by (simp add: ring_def)
  next
    case (Cons b bs)
    have lk: "chain ?p' ((b # bs) @ [a]) = chain p ((b # bs) @ [a])"
      by (rule chain_cong) (auto intro: ext)
    from r Cons lk chain_append [of ?p' "b # bs" a "[b]"] show ?thesis
      by (auto simp: ring_def)
  qed
  moreover have "ids_ok ?p' (as @ [a])"
    by (rule ids_ok_cong [of p "a # as"]) (use assms in \<open>auto simp: pool_ok_def\<close>)
  ultimately show "pool_ok ?p' (as @ [a])"
    by (simp add: pool_ok_def)
qed

definition dead :: "podConnection \<Rightarrow> podConnection" where
  "dead c = c\<lparr>pc_connected := False, pc_closed := True\<rparr>"

lemma dead_simps [simp]:
  "pc_next (dead c) = pc_next c" "pc_ID (dead c) = pc_ID c" "pc_sends (dead c) = pc_sends c"
  "pc_connected (dead c) = False" "pc_closed (dead c) = True"
  by (simp_all add: dead_def)

text \<open>The pool after \<open>deleteNext\<close> on a ring \<open>a # as\<close>.\<close>

definition deleted :: "pool \<Rightarrow> addr \<Rightarrow> addr list \<Rightarrow> pool" where
  "deleted p a as =
     (case as of
        [] \<Rightarrow> (store p a (dead (conn_at p a)))\<lparr>pl_current := None\<rparr>
      | b # bs \<Rightarrow> store (store p b (dead (conn_at p b))) a
                    ((conn_at p a)\<lparr>pc_next := pc_next (conn_at p b)\<rparr>))"

lemma deleteNext_eq:
  assumes "ring p (a # as)"
  shows "connectionPool_deleteNext p = Inr (deleted p a as)"
proof (cases as)
  case Nil
  with assms have "\<not> pc_closed (conn_at p a)" by (auto simp: ring_def live_def)
  with assms Nil show ?thesis
    by (simp add: connectionPool_deleteNext_def load_next_def ring_next load_Some [OF ring_heap]
        disconnect_open deleted_def dead_def Let_def)
next
  case (Cons b bs)
  with assms have "\<not> pc_closed (conn_at p b)" "a \<noteq> b" by (auto simp: ring_def live_def)
  moreover have "pl_heap p b = Some (conn_at p b)" "pl_heap p a = Some (conn_at p a)"
    using assms Cons by (auto intro: ring_heap)
  ultimately show ?thesis
    using assms Cons
    by (simp add: connectionPool_deleteNext_def load_next_def ring_next
        disconnect_open deleted_def dead_def Let_def)
qed

lemma deleted_ok:
  assumes ok: "pool_ok p (a # as)"
  shows "pool_ok (deleted p a as) (if as = [] then [] else a # tl as)"
proof (cases as)
  case Nil
  with ok show ?thesis
    by (auto simp: pool_ok_def ring_def ids_ok_def deleted_def)
next
  case (Cons b bs)
  have r: "ring p (a # b # bs)" using ok Cons by (simp add: pool_ok_def)
  then have "links p b (hd (bs @ [a]))"
    by (cases bs) (auto simp: ring_def)
  then have nxt: "pc_next (conn_at p b) = Some (hd (bs @ [a]))"
    by (auto simp: links_def conn_at_def)
  let ?p' = "store (store p b (dead (conn_at p b))) a ((conn_at p a)\<lparr>pc_next := pc_next (conn_at p b)\<rparr>)"
  have new: "deleted p a as = ?p'" by (simp add: deleted_def Cons)
  have "chain ?p' (bs @ [a]) = chain p (bs @ [a])"
    using r by (intro chain_cong) (auto simp: ring_def fun_eq_iff)
  moreover have "live (conn_at ?p' x)" if "x \<in> set (a # bs)" for x
    using that r by (auto simp: ring_def live_def)
  ultimately have "ring ?p' (a # bs)"
    using r nxt by (auto simp: ring_def chain_hd)
  moreover have "ids_ok ?p' (a # bs)"
    by (rule ids_ok_cong [of p "a # as"])
       (use ok Cons r in \<open>auto simp: pool_ok_def dest: ring_heap\<close>)
  ultimately show ?thesis by (simp add: pool_ok_def new [unfolded Cons] Cons)
qed

lemma update_ok:
  assumes ok: "pool_ok p as" and a: "a \<in> set as"
    and same: "pc_next c = pc_next (conn_at p a)" "pc_ID c = pc_ID (conn_at p a)" "live c"
  shows "pool_ok (store p a c) as"
proof -
  have h: "pl_heap p a = Some (conn_at p a)"
    using ok a by (auto simp: pool_ok_def intro: ring_heap)
  have "links (store p a c) = links p"
    using h same(1) by (intro ext) (auto simp: links_def)
  then have "chain (store p a c) (x # xs @ [z]) = chain p (x # xs @ [z])" for x xs z
    using chain_cong [of "x # xs" "store p a c" p z] by simp
  then have "ring (store p a c) as"
    using ok a same(3) by (cases as) (auto simp: pool_ok_def ring_def)
  moreover have "ids_ok (store p a c) as"
    by (rule ids_ok_cong [of p as]) (use ok h same(2) in \<open>auto simp: pool_ok_def\<close>)
  ultimately show ?thesis by (simp add: pool_ok_def)
qed

text \<open>The pool after \<open>insert\<close>: the new connection is at the fresh address, behind the current one.\<close>

definition spec_insert :: "addr \<Rightarrow> addr list \<Rightarrow> addr list" where
  "spec_insert n as = (case as of [] \<Rightarrow> [n] | a # bs \<Rightarrow> a # n # bs)"

lemma ids_insert:
  assumes "ids_ok p as" and "unat (pl_maxID p) + 1 < 2 ^ 64"
    and "pl_maxID p' = pl_maxID p + 1" and "pl_fresh p' = Suc (pl_fresh p)"
    and "set as' = insert (pl_fresh p) (set as)"
    and "pc_ID (conn_at p' (pl_fresh p)) = pl_maxID p + 1"
    and "\<forall>a \<in> set as. a \<noteq> pl_fresh p \<and> pc_ID (conn_at p' a) = pc_ID (conn_at p a)"
    and "\<forall>a. pl_heap p' a \<noteq> None \<longrightarrow> a = pl_fresh p \<or> pl_heap p a \<noteq> None"
  shows "ids_ok p' as'"
proof -
  have max: "unat (pl_maxID p + 1) = Suc (unat (pl_maxID p))"
    using assms(2) by (simp add: unat_word_ariths)
  have new: "pc_ID (conn_at p a) \<noteq> pl_maxID p + 1" if "a \<in> set as" for a
  proof
    assume "pc_ID (conn_at p a) = pl_maxID p + 1"
    with that assms(1) have "unat (pl_maxID p + 1) \<le> unat (pl_maxID p)"
      by (metis ids_ok_def)
    with max show False by simp
  qed
  have "inj_on (\<lambda>a. pc_ID (conn_at p' a)) (insert (pl_fresh p) (set as))"
  proof (rule inj_onI)
    fix x y
    assume xy: "x \<in> insert (pl_fresh p) (set as)" "y \<in> insert (pl_fresh p) (set as)"
      and eq: "pc_ID (conn_at p' x) = pc_ID (conn_at p' y)"
    show "x = y"
    proof (cases "x \<in> set as \<and> y \<in> set as")
      case True
      with eq assms(7) have "pc_ID (conn_at p x) = pc_ID (conn_at p y)" by metis
      with True assms(1) show ?thesis by (auto simp: ids_ok_def dest: inj_onD)
    next
      case False
      with xy eq assms(6,7) new show ?thesis by (metis insertE)
    qed
  qed
  moreover have "\<forall>a \<in> insert (pl_fresh p) (set as). unat (pc_ID (conn_at p' a)) \<le> unat (pl_maxID p + 1)"
  proof
    fix a assume "a \<in> insert (pl_fresh p) (set as)"
    then consider "a = pl_fresh p" | "a \<in> set as" by auto
    then show "unat (pc_ID (conn_at p' a)) \<le> unat (pl_maxID p + 1)"
    proof cases
      case 1
      with assms(6) show ?thesis by simp
    next
      case 2
      with assms(1,7) have "unat (pc_ID (conn_at p' a)) \<le> unat (pl_maxID p)"
        by (simp add: ids_ok_def)
      then show ?thesis unfolding max by (rule le_SucI)
    qed
  qed
  moreover have "\<forall>a. pl_heap p' a \<noteq> None \<longrightarrow> a < Suc (pl_fresh p)"
    using assms(1,8) by (auto simp: ids_ok_def less_Suc_eq)
  ultimately show ?thesis
    using assms(1,3,4,5) max by (simp add: ids_ok_def)
qed

lemma insert_ok:
  assumes ok: "pool_ok p as" and bound: "unat (pl_maxID p) + 1 < 2 ^ 64"
  shows "\<exists>p'. connectionPool_insert p chans = Inr p'
    \<and> pool_ok p' (spec_insert (pl_fresh p) as)
    \<and> (\<exists>n. conn_at p' (pl_fresh p) = (newPodConnection (pl_maxID p + 1) chans)\<lparr>pc_next := n\<rparr>)
    \<and> (\<forall>a \<in> set as. \<exists>n. conn_at p' a = (conn_at p a)\<lparr>pc_next := n\<rparr>)
    \<and> pl_maxID p' = pl_maxID p + 1"
proof -
  let ?n = "pl_fresh p" and ?c = "newPodConnection (pl_maxID p + 1) chans"
  have r: "ring p as" and ids: "ids_ok p as" using ok by (simp_all add: pool_ok_def)
  have fresh: "?n \<notin> set as"
  proof
    assume "?n \<in> set as"
    then have "pl_heap p ?n \<noteq> None" using r by (auto simp: ring_def)
    with ids have "?n < ?n" unfolding ids_ok_def by blast
    then show False by simp
  qed
  have live: "live (?c\<lparr>pc_next := x\<rparr>)" for x
    by (simp add: live_def newPodConnection_def)
  show ?thesis
  proof (cases as)
    case Nil
    let ?p' = "(store ((store p ?n ?c)\<lparr>pl_maxID := pl_maxID p + 1, pl_fresh := Suc ?n\<rparr>) ?n
        (?c\<lparr>pc_next := Some ?n\<rparr>))\<lparr>pl_current := Some ?n\<rparr>"
    have ins: "connectionPool_insert p chans = Inr ?p'"
      using r Nil by (simp add: connectionPool_insert_def Let_def ring_def)
    have "ring ?p' [?n]"
      using live by (simp add: ring_def)
    moreover have "ids_ok ?p' [?n]"
      by (rule ids_insert [OF ids bound]) (auto simp: Nil newPodConnection_def)
    ultimately show ?thesis
      using ins Nil by (auto simp: pool_ok_def spec_insert_def)
  next
    case (Cons a bs)
    have na: "?n \<noteq> a" using fresh Cons by simp
    have ha: "pl_heap p a = Some (conn_at p a)"
      using r Cons by (auto intro: ring_heap)
    have nxt: "pl_current p = Some a" "pc_next (conn_at p a) = Some (hd (bs @ [a]))"
      using ring_next r Cons by auto
    let ?p1 = "(store p ?n ?c)\<lparr>pl_maxID := pl_maxID p + 1, pl_fresh := Suc ?n\<rparr>"
    let ?p' = "store (store ?p1 a ((conn_at p a)\<lparr>pc_next := Some ?n\<rparr>)) ?n (?c\<lparr>pc_next := Some (hd (bs @ [a]))\<rparr>)"
    have ins: "connectionPool_insert p chans = Inr ?p'"
      using na ha nxt by (simp add: connectionPool_insert_def insertAfter_def Let_def)
    have "chain ?p' (bs @ [a]) = chain p (bs @ [a])"
      using r fresh Cons by (intro chain_cong) (auto simp: ring_def fun_eq_iff)
    moreover have "live (conn_at ?p' x)" if "x \<in> set (a # ?n # bs)" for x
      using that r Cons live by (auto simp: ring_def live_def)
    ultimately have "ring ?p' (a # ?n # bs)"
      using r fresh Cons na by (auto simp: ring_def chain_hd)
    moreover have "ids_ok ?p' (a # ?n # bs)"
      by (rule ids_insert [OF ids bound]) (use fresh na Cons ha in \<open>auto simp: newPodConnection_def\<close>)
    moreover have "\<exists>n. conn_at ?p' x = (conn_at p x)\<lparr>pc_next := n\<rparr>" if "x \<in> set as" for x
    proof (cases "x = a")
      case False
      with that fresh have "conn_at ?p' x = (conn_at p x)\<lparr>pc_next := pc_next (conn_at p x)\<rparr>" by auto
      then show ?thesis by blast
    qed (use na in auto)
    ultimately show ?thesis
      using ins Cons by (auto simp: pool_ok_def spec_insert_def)
  qed
qed

section \<open>prepareNext\<close>

definition failures :: "podConnection \<Rightarrow> message list" where
  "failures c = pc_failed c @ failed_of (pc_feedbackChan c)"

text \<open>
  What makes \<open>prepareNext\<close> remove a connection: too many failures, or a disconnect request that
  does not arrive together with a failure.
\<close>

definition doomed :: "podConnection \<Rightarrow> bool" where
  "doomed c \<longleftrightarrow> highWaterMark \<le> length (failures c)
     \<or> failed_of (pc_feedbackChan c) = [] \<and> FbDisconnect \<in> set (pc_feedbackChan c)"

text \<open>A connection that stays, after the replay of \<open>log\<close> and the flush it may get.\<close>

definition prepared :: "msg_ref list \<Rightarrow> podConnection \<Rightarrow> podConnection" where
  "prepared log c =
     c\<lparr>pc_feedbackChan := [],
       pc_failed := (if FbSuccess \<in> set (pc_feedbackChan c) then [] else failures c),
       pc_sends := pc_sends c
         @ (if failed_of (pc_feedbackChan c) = [] \<and> FbReplay \<in> set (pc_feedbackChan c)
            then map (Pair Spawned) log else [])
         @ (if FbSuccess \<in> set (pc_feedbackChan c) then map (\<lambda>m. (Spawned, Some m)) (failures c) else [])\<rparr>"

lemma prepared_simps [simp]:
  "pc_next (prepared log c) = pc_next c" "pc_ID (prepared log c) = pc_ID c"
  "live (prepared log c) = live c" "pc_feedbackChan (prepared log c) = []"
  "pc_connected (prepared log c) = pc_connected c"
  by (simp_all add: prepared_def live_def)

text \<open>The goroutines \<open>prepareNext\<close> spawns on a connection that stays.\<close>

definition extras :: "msg_ref list \<Rightarrow> podConnection \<Rightarrow> (send_phase \<times> msg_ref) list" where
  "extras log c =
     (if failed_of (pc_feedbackChan c) = [] \<and> FbReplay \<in> set (pc_feedbackChan c)
      then map (Pair Spawned) log else [])
     @ (if FbSuccess \<in> set (pc_feedbackChan c) then map (\<lambda>m. (Spawned, Some m)) (failures c) else [])"

lemma prepared_sends: "pc_sends (prepared log c) = pc_sends c @ extras log c"
  by (cases "failed_of (pc_feedbackChan c) = [] \<and> FbReplay \<in> set (pc_feedbackChan c)")
     (simp_all add: prepared_def extras_def)

lemma feedback_send [simp]: "pc_feedbackChan (podConnection_send c r) = pc_feedbackChan c"
  by (simp add: podConnection_send_def)

lemma failures_simps [simp]:
  "failures (podConnection_send c r) = failures c" "failures (c\<lparr>pc_next := n\<rparr>) = failures c"
  by (simp_all add: failures_def podConnection_send_def)

lemma doomed_simps [simp]:
  "doomed (podConnection_send c r) = doomed c" "doomed (c\<lparr>pc_next := n\<rparr>) = doomed c"
  by (simp_all add: doomed_def)

lemma extras_simps [simp]:
  "extras log (podConnection_send c r) = extras log c" "extras log (c\<lparr>pc_next := n\<rparr>) = extras log c"
  by (simp_all add: extras_def)

lemma send_simps [simp]:
  "pc_next (podConnection_send c r) = pc_next c" "pc_ID (podConnection_send c r) = pc_ID c"
  "live (podConnection_send c r) = live c"
  "pc_sends (podConnection_send c r) = pc_sends c @ [(Spawned, r)]"
  by (simp_all add: podConnection_send_def live_def)

text \<open>A prepared connection is not removed by the next check, unless new feedback arrives.\<close>

lemma prepared_not_doomed: "\<not> doomed c \<Longrightarrow> \<not> doomed (prepared log c)"
  by (auto simp: doomed_def prepared_def failures_def highWaterMark_def)

lemma store_store [simp]: "store (store p a c) a d = store p a d"
  by (simp add: store_def)

lemma ring_store:
  "ring p as \<Longrightarrow> a \<in> set as \<Longrightarrow> pc_next c = pc_next (conn_at p a) \<Longrightarrow> pc_ID c = pc_ID (conn_at p a) \<Longrightarrow>
   live c \<Longrightarrow> ids_ok p as \<Longrightarrow> ring (store p a c) as"
  using update_ok [of p as a c] by (simp add: pool_ok_def)

lemma replayNext_ring:
  assumes "ring p (a # as)" and "mb_ok buffer" and b: "b = hd (as @ [a])"
  shows "connectionPool_replayNext buffer p =
    Some (Inr (store p b ((conn_at p b)\<lparr>pc_sends := pc_sends (conn_at p b) @ map (Pair Spawned) (buffer_log buffer)\<rparr>)))"
proof -
  have "b \<in> set (a # as)" by (cases as) (auto simp: b)
  then have "pl_heap p b = Some (conn_at p b)" by (rule ring_heap [OF assms(1)])
  then show ?thesis
    using peek_ring [OF assms(1)]
    by (simp add: connectionPool_replayNext_def b [symmetric] Iter_foldl [OF assms(2)] foldl_send_refs)
qed

lemma prepareNext_doomed:
  assumes ok: "pool_ok p (a # as)" and b: "b = hd (as @ [a])" and dm: "doomed (conn_at p b)"
  shows "\<exists>e. connectionPool_prepareNext buffer p =
    Some (Inr (Some e, deleted (store p b (snd (podConnection_checkStatus (conn_at p b)))) a as))"
proof -
  let ?c1 = "snd (podConnection_checkStatus (conn_at p b))"
  have r: "ring p (a # as)" using ok by (simp add: pool_ok_def)
  have mem: "b \<in> set (a # as)" by (cases as) (auto simp: b)
  then have heap: "pl_heap p b = Some (conn_at p b)" by (rule ring_heap [OF r])
  have "live ?c1" using ring_live [OF r mem] by (simp add: checkStatus_eq live_def)
  then have "ring (store p b ?c1) (a # as)"
    using ok mem by (intro ring_store) (simp_all add: checkStatus_eq pool_ok_def)
  then have del: "connectionPool_deleteNext (store p b ?c1) = Inr (deleted (store p b ?c1) a as)"
    by (rule deleteNext_eq)
  have peek: "connectionPool_peek p = Inr (Some b)"
    using peek_ring [OF r] b by simp
  show ?thesis
    using dm del
    by (auto simp: connectionPool_prepareNext_def peek heap checkStatus_eq Let_def doomed_def failures_def)
qed

lemma prepareNext_healthy:
  assumes ok: "pool_ok p (a # as)" and mb: "mb_ok buffer" and b: "b = hd (as @ [a])"
    and healthy: "\<not> doomed (conn_at p b)"
  shows "connectionPool_prepareNext buffer p =
    Some (Inr (None, store p b (prepared (buffer_log buffer) (conn_at p b))))"
proof -
  let ?c1 = "snd (podConnection_checkStatus (conn_at p b))"
  have r: "ring p (a # as)" using ok by (simp add: pool_ok_def)
  have mem: "b \<in> set (a # as)" by (cases as) (auto simp: b)
  then have heap: "pl_heap p b = Some (conn_at p b)" by (rule ring_heap [OF r])
  have "live ?c1" using ring_live [OF r mem] by (simp add: checkStatus_eq live_def)
  then have "ring (store p b ?c1) (a # as)"
    using ok mem by (intro ring_store) (simp_all add: checkStatus_eq pool_ok_def)
  note rep = replayNext_ring [OF this mb b]
  have peek: "connectionPool_peek p = Inr (Some b)"
    using peek_ring [OF r] b by simp
  show ?thesis
    using healthy rep
    by (auto simp: connectionPool_prepareNext_def peek heap checkStatus_eq Let_def doomed_def failures_def
        flush_after_success_def flushFailed_eq prepared_def)
qed

lemma prepareNext_doomed_ok:
  assumes ok: "pool_ok p (a # as)" and b: "b = hd (as @ [a])"
  shows "pool_ok (deleted (store p b (snd (podConnection_checkStatus (conn_at p b)))) a as)
           (if as = [] then [] else a # tl as)"
proof (rule deleted_ok, rule update_ok [OF ok])
  show "b \<in> set (a # as)" by (cases as) (auto simp: b)
  then show "live (snd (podConnection_checkStatus (conn_at p b)))"
    using ok by (auto simp: checkStatus_eq live_def pool_ok_def dest: ring_live)
qed (simp_all add: checkStatus_eq)

lemma prepareNext_healthy_ok:
  assumes ok: "pool_ok p (a # as)" and b: "b = hd (as @ [a])"
  shows "pool_ok (store p b (prepared log (conn_at p b))) (a # as)"
proof (rule update_ok [OF ok])
  show "b \<in> set (a # as)" by (cases as) (auto simp: b)
  then show "live (prepared log (conn_at p b))"
    using ok by (auto simp: pool_ok_def dest: ring_live)
qed simp_all

section \<open>The ring operations refine list operations\<close>

datatype ring_op = RInsert "msg_ref list \<times> feedback list" | RNext | RDeleteNext

fun pool_op :: "ring_op \<Rightarrow> pool \<Rightarrow> panic + pool" where
  "pool_op (RInsert chans) p = connectionPool_insert p chans"
| "pool_op RNext p = (case connectionPool_next p of Inl e \<Rightarrow> Inl e | Inr (_, p') \<Rightarrow> Inr p')"
| "pool_op RDeleteNext p = connectionPool_deleteNext p"

text \<open>The specification: the list of connections from the current one on, and a counter.\<close>

fun ring_spec :: "ring_op \<Rightarrow> addr list \<times> nat \<Rightarrow> (addr list \<times> nat) option" where
  "ring_spec (RInsert _) (as, n) = (if n + 1 < 2 ^ 64 then Some (spec_insert n as, Suc n) else None)"
| "ring_spec RNext (as, n) = (if as = [] then None else Some (rotate1 as, n))"
| "ring_spec RDeleteNext (as, n) =
     (case as of [] \<Rightarrow> None | [a] \<Rightarrow> Some ([], n) | a # b # bs \<Rightarrow> Some (a # bs, n))"

definition ring_rel :: "pool \<Rightarrow> addr list \<times> nat \<Rightarrow> bool" where
  "ring_rel p s \<longleftrightarrow> pool_ok p (fst s) \<and> pl_fresh p = snd s"

lemma insert_fresh: "connectionPool_insert p chans = Inr p' \<Longrightarrow> pl_fresh p' = Suc (pl_fresh p)"
  by (auto simp: connectionPool_insert_def insertAfter_def Let_def split: option.splits sum.splits)

lemma deleted_fresh [simp]: "pl_fresh (deleted p a as) = pl_fresh p"
  by (simp add: deleted_def split: list.split)

lemma ring_simulates:
  assumes rel: "ring_rel p s" and spec: "ring_spec x s = Some s'"
  shows "\<exists>p'. pool_op x p = Inr p' \<and> ring_rel p' s'"
proof (cases x)
  case (RInsert chans)
  obtain as n where s: "s = (as, n)" by (cases s)
  have "unat (pl_maxID p) = n"
    using rel s by (auto simp: ring_rel_def pool_ok_def ids_ok_def)
  with spec s RInsert have "unat (pl_maxID p) + 1 < 2 ^ 64" by (auto split: if_splits)
  with insert_ok [of p as chans] rel s spec RInsert show ?thesis
    by (auto simp: ring_rel_def dest: insert_fresh split: if_splits)
next
  case RNext
  with spec obtain a as n where s: "s = (a # as, n)"
    by (cases s; cases "fst s") auto
  with rel RNext spec next_ring [of p a as] show ?thesis
    by (auto simp: ring_rel_def)
next
  case RDeleteNext
  with spec obtain a as n where s: "s = (a # as, n)"
    by (cases s; cases "fst s") auto
  with rel have ok: "pool_ok p (a # as)" by (simp add: ring_rel_def)
  then have "connectionPool_deleteNext p = Inr (deleted p a as)"
    by (intro deleteNext_eq) (simp add: pool_ok_def)
  with RDeleteNext rel s spec deleted_ok [OF ok] show ?thesis
    by (cases as) (auto simp: ring_rel_def)
qed

interpretation poolring: forward_simulation ring_rel pool_op ring_spec
  by unfold_locales (fact ring_simulates)

text \<open>A pool of one pod whose feedback channel holds \<open>fb\<close>.\<close>

lemma one_pod_pool:
  "\<exists>p. connectionPool_insert newConnectionPool ([], fb) = Inr p \<and> pool_ok p [0] \<and> pl_maxID p = 1
     \<and> conn_at p 0 = (newPodConnection 1 ([], fb))\<lparr>pc_next := Some 0\<rparr>"
proof -
  have "\<exists>p. connectionPool_insert newConnectionPool ([], fb) = Inr p \<and> pool_ok p [0] \<and> pl_maxID p = 1"
    using insert_ok [OF ring_new, of "([], fb)"] by (auto simp: newConnectionPool_def spec_insert_def)
  moreover have "connectionPool_insert newConnectionPool ([], fb) = Inr p \<Longrightarrow>
      conn_at p 0 = (newPodConnection 1 ([], fb))\<lparr>pc_next := Some 0\<rparr>" for p
    by (auto simp: connectionPool_insert_def newConnectionPool_def Let_def)
  ultimately show ?thesis by blast
qed

section \<open>Properties\<close>

text \<open>Property C4. The pointer ring implements a list: whatever sequence of connects, advances and
  deletions the specification allows, the pointer operations perform without a nil dereference
  or a double close, and the resulting ring, followed through \<open>next\<close> from the current
  connection, is the specified list; all its connections are open and their IDs differ.\<close>

theorem pool_refines_ring:
  assumes "run_spec ring_spec ops ([], 0) = Some (as, n)"
  shows "\<exists>p. run_ops pool_op ops newConnectionPool = Inr p \<and> ring p as
    \<and> inj_on (\<lambda>a. pc_ID (conn_at p a)) (set as)"
proof -
  have "ring_rel newConnectionPool ([], 0)"
    by (simp add: ring_rel_def ring_new) (simp add: newConnectionPool_def)
  from poolring.simulate_run [OF this assms] show ?thesis
    by (auto simp: ring_rel_def pool_ok_def ids_ok_def)
qed

theorem pool_refines_ring_witness:
  "\<exists>p. run_ops pool_op [RInsert ([], []), RInsert ([], []), RInsert ([], []), RNext, RDeleteNext] newConnectionPool = Inr p
    \<and> ring p [2, 0]"
  using pool_refines_ring [of "[RInsert ([], []), RInsert ([], []), RInsert ([], []), RNext, RDeleteNext]" "[2, 0]" 3]
  by (auto simp: spec_insert_def)

text \<open>\<open>prepareNext\<close> always comes back. It removes the next connection exactly when its
  failures, old and just reported, reach 64, or when a disconnect request arrived and no
  failure with it. A connection that stays is \<open>prepared\<close>: its failed messages are spawned for
  sending again if a success was reported, and the recent messages if a replay was requested
  and no failure came with the request.\<close>

theorem prepareNext_decides:
  assumes "pool_ok p (a # as)" and "mb_ok buffer" and "b = hd (as @ [a])"
  shows "\<exists>err p'. connectionPool_prepareNext buffer p = Some (Inr (err, p'))
    \<and> (err = None) = (\<not> (64 \<le> length (failures (conn_at p b))
          \<or> failed_of (pc_feedbackChan (conn_at p b)) = [] \<and> FbDisconnect \<in> set (pc_feedbackChan (conn_at p b))))
    \<and> pool_ok p' (if err = None then a # as else if as = [] then [] else a # tl as)
    \<and> pc_connected (conn_at p' b) = (err = None)
    \<and> (err = None \<longrightarrow> conn_at p' b = prepared (buffer_log buffer) (conn_at p b))"
proof (cases "doomed (conn_at p b)")
  case True
  obtain e where "connectionPool_prepareNext buffer p =
      Some (Inr (Some e, deleted (store p b (snd (podConnection_checkStatus (conn_at p b)))) a as))"
    using prepareNext_doomed [OF assms(1,3) True] by blast
  moreover have "pc_connected (conn_at (deleted (store p b (snd (podConnection_checkStatus (conn_at p b)))) a as) b) = False"
    using assms(1,3) by (cases as) (auto simp: deleted_def pool_ok_def ring_def)
  ultimately show ?thesis
    using prepareNext_doomed_ok [OF assms(1,3)] True
    by (auto simp: doomed_def highWaterMark_def)
next
  case False
  have "b \<in> set (a # as)" by (cases as) (auto simp: assms(3))
  then have "live (conn_at p b)" using assms(1) by (auto simp: pool_ok_def dest: ring_live)
  with prepareNext_healthy [OF assms False] prepareNext_healthy_ok [OF assms(1,3)] False
  show ?thesis
    by (auto simp: doomed_def highWaterMark_def live_def)
qed

theorem prepareNext_decides_witness:
  "\<exists>p err p'. connectionPool_insert newConnectionPool ([], [FbSuccess, FbFailed (NewMsg ''a'' 0 ''t'' [])]) = Inr p
    \<and> connectionPool_prepareNext (NewMsgBuffer 128) p = Some (Inr (err, p'))
    \<and> err = None \<and> pc_sends (conn_at p' 0) = [(Spawned, Some (NewMsg ''a'' 0 ''t'' []))]"
proof -
  let ?fb = "[FbSuccess, FbFailed (NewMsg ''a'' 0 ''t'' [])]"
  obtain p where p: "connectionPool_insert newConnectionPool ([], ?fb) = Inr p" "pool_ok p [0]"
      "conn_at p 0 = (newPodConnection 1 ([], ?fb))\<lparr>pc_next := Some 0\<rparr>"
    using one_pod_pool by blast
  have "mb_ok (NewMsgBuffer 128)" by (rule mb_ok_new) simp
  from prepareNext_decides [OF p(2) this, of 0] p show ?thesis
    by (auto simp: newPodConnection_def failures_def prepared_def)
qed

text \<open>A disconnect request that reaches the bus together with a failed message is
  lost: the connection stays in the ring, the request is gone from the channel, and neither
  is a replay asked for at the same time made.\<close>

theorem disconnect_with_failure_is_lost:
  assumes "pool_ok p (a # as)" and "mb_ok buffer" and "b = hd (as @ [a])"
    and "FbDisconnect \<in> set (pc_feedbackChan (conn_at p b))"
    and "failed_of (pc_feedbackChan (conn_at p b)) \<noteq> []"
    and "length (failures (conn_at p b)) < 64"
    and "FbSuccess \<notin> set (pc_feedbackChan (conn_at p b))"
  shows "\<exists>p'. connectionPool_prepareNext buffer p = Some (Inr (None, p')) \<and> pool_ok p' (a # as)
    \<and> pc_connected (conn_at p' b) \<and> pc_feedbackChan (conn_at p' b) = []
    \<and> pc_sends (conn_at p' b) = pc_sends (conn_at p b)"
proof -
  have "\<not> doomed (conn_at p b)"
    using assms(5,6) by (simp add: doomed_def highWaterMark_def)
  moreover have "b \<in> set (a # as)" by (cases as) (auto simp: assms(3))
  then have "live (conn_at p b)" using assms(1) by (auto simp: pool_ok_def dest: ring_live)
  ultimately show ?thesis
    using prepareNext_healthy [OF assms(1-3)] prepareNext_healthy_ok [OF assms(1,3)] assms(5,7)
    by (auto simp: live_def) (simp add: prepared_def)
qed

theorem disconnect_with_failure_is_lost_witness:
  "\<exists>p p'. connectionPool_insert newConnectionPool ([], [FbDisconnect, FbFailed (NewMsg ''a'' 0 ''t'' [])]) = Inr p
    \<and> connectionPool_prepareNext (NewMsgBuffer 128) p = Some (Inr (None, p'))
    \<and> pc_connected (conn_at p' 0) \<and> pc_feedbackChan (conn_at p' 0) = []"
proof -
  let ?fb = "[FbDisconnect, FbFailed (NewMsg ''a'' 0 ''t'' [])]"
  obtain p where p: "connectionPool_insert newConnectionPool ([], ?fb) = Inr p" "pool_ok p [0]"
      "conn_at p 0 = (newPodConnection 1 ([], ?fb))\<lparr>pc_next := Some 0\<rparr>"
    using one_pod_pool by blast
  have "mb_ok (NewMsgBuffer 128)" by (rule mb_ok_new) simp
  from disconnect_with_failure_is_lost [OF p(2) this, of 0] p show ?thesis
    by (auto simp: newPodConnection_def failures_def)
qed

end
