(* ===== verification/Message_Bus.thy ===== *)
theory Message_Bus
  imports Connection_Pool
begin

text \<open>
  The message bus of \<open>grav/bus.go\<close>: for every message from the bus channel, find a healthy
  connection to start with, go once around the ring to send the message to each connection,
  removing unhealthy ones on the way, and record the message in the replay buffer. The bus
  goroutine is the only code that touches the ring's connections, apart from \<open>insert\<close>, which
  takes the pool's lock. The model of this theory runs one message at a time: feedback that pods write while
  a message goes round is read when the next one does. \<open>Bus_Interleaved\<close> lifts this restriction.
\<close>

section \<open>State and operations\<close>

definition defaultBusChanSize :: nat where
  "defaultBusChanSize = 256"

record messageBus =
  bus_busChan :: "message list"
  bus_pool :: pool
  bus_buffer :: msgbuffer

definition newMessageBus :: messageBus where
  "newMessageBus =
     \<lparr>bus_busChan = [], bus_pool = newConnectionPool, bus_buffer = NewMsgBuffer defaultBufferSize\<rparr>"

definition messageBus_addPod :: "messageBus \<Rightarrow> msg_ref list \<times> feedback list \<Rightarrow> panic + messageBus" where
  "messageBus_addPod b pod =
     (case connectionPool_insert (bus_pool b) pod of
        Inl e \<Rightarrow> Inl e
      | Inr p \<Rightarrow> Inr (b\<lparr>bus_pool := p\<rparr>))"

text \<open>Reading the ID of a connection through a pointer that may be nil.\<close>

definition load_id :: "pool \<Rightarrow> addr option \<Rightarrow> panic + int64" where
  "load_id p conn =
     (case go_deref conn of
        Inl e \<Rightarrow> Inl e
      | Inr a \<Rightarrow> (case load p a of Inl e \<Rightarrow> Inl e | Inr c \<Rightarrow> Inr (pc_ID c)))"

text \<open>The inner loop of \<open>start\<close>: prepare the next connection until one is healthy.\<close>

partial_function (option) prepare_loop :: "msgbuffer \<Rightarrow> pool \<Rightarrow> pool run" where
  "prepare_loop buffer p =
     (case connectionPool_prepareNext buffer p of
        None \<Rightarrow> None
      | Some (Inl e) \<Rightarrow> Some (Inl e)
      | Some (Inr (err, p')) \<Rightarrow> if err = None then Some (Inr p') else prepare_loop buffer p')"

declare prepare_loop.simps [code]

text \<open>One turn of the loop of \<open>traverse\<close>, up to its break test.\<close>

definition traverse_start_id :: "pool \<Rightarrow> error option \<Rightarrow> addr option \<Rightarrow> int64 \<Rightarrow> panic + int64" where
  "traverse_start_id p err next startID =
     (if err = None then Inr startID
      else (case load_id p next of
              Inl e \<Rightarrow> Inl e
            | Inr nextID \<Rightarrow>
                if startID = nextID then
                  (case go_deref next of
                     Inl e \<Rightarrow> Inl e
                   | Inr a \<Rightarrow> (case load_next p a of Inl e \<Rightarrow> Inl e | Inr nn \<Rightarrow> load_id p nn))
                else Inr startID))"

definition traverse_turn ::
  "msgbuffer \<Rightarrow> message \<Rightarrow> int64 \<Rightarrow> addr option \<Rightarrow> pool \<Rightarrow> (int64 \<times> addr option \<times> pool) run" where
  "traverse_turn buffer msg startID conn p =
     (case go_deref conn of
        Inl e \<Rightarrow> Some (Inl e)
      | Inr x \<Rightarrow>
          (case load p x of
             Inl e \<Rightarrow> Some (Inl e)
           | Inr c \<Rightarrow>
               (let p1 = store p x (podConnection_send c (Some msg))
                in case connectionPool_peek p1 of
                     Inl e \<Rightarrow> Some (Inl e)
                   | Inr next \<Rightarrow>
                       (case connectionPool_prepareNext buffer p1 of
                          None \<Rightarrow> None
                        | Some (Inl e) \<Rightarrow> Some (Inl e)
                        | Some (Inr (err, p2)) \<Rightarrow>
                            (case traverse_start_id p2 err next startID of
                               Inl e \<Rightarrow> Some (Inl e)
                             | Inr startID' \<Rightarrow>
                                 (case connectionPool_next p2 of
                                    Inl e \<Rightarrow> Some (Inl e)
                                  | Inr (conn', p3) \<Rightarrow> Some (Inr (startID', conn', p3))))))))"

partial_function (option) traverse_loop ::
  "msgbuffer \<Rightarrow> message \<Rightarrow> int64 \<Rightarrow> addr option \<Rightarrow> pool \<Rightarrow> pool run" where
  "traverse_loop buffer msg startID conn p =
     (case traverse_turn buffer msg startID conn p of
        None \<Rightarrow> None
      | Some (Inl e) \<Rightarrow> Some (Inl e)
      | Some (Inr (startID', conn', p')) \<Rightarrow>
          (case load_id p' conn' of
             Inl e \<Rightarrow> Some (Inl e)
           | Inr connID \<Rightarrow> if startID' = connID then Some (Inr p')
                          else traverse_loop buffer msg startID' conn' p'))"

declare traverse_loop.simps [code]

definition messageBus_traverse :: "msgbuffer \<Rightarrow> message \<Rightarrow> addr option \<Rightarrow> pool \<Rightarrow> pool run" where
  "messageBus_traverse buffer msg start p =
     (case load_id p start of
        Inl e \<Rightarrow> Some (Inl e)
      | Inr startID \<Rightarrow> traverse_loop buffer msg startID start p)"

text \<open>The body of the outer loop of \<open>start\<close>, for one message, and the loop over messages.\<close>

definition messageBus_handle :: "messageBus \<Rightarrow> message \<Rightarrow> messageBus run" where
  "messageBus_handle b msg =
     (case prepare_loop (bus_buffer b) (bus_pool b) of
        None \<Rightarrow> None
      | Some (Inl e) \<Rightarrow> Some (Inl e)
      | Some (Inr p1) \<Rightarrow>
          (case connectionPool_next p1 of
             Inl e \<Rightarrow> Some (Inl e)
           | Inr (startingConn, p2) \<Rightarrow>
               (case messageBus_traverse (bus_buffer b) msg startingConn p2 of
                  None \<Rightarrow> None
                | Some (Inl e) \<Rightarrow> Some (Inl e)
                | Some (Inr p3) \<Rightarrow>
                    (case MsgBuffer_Push (bus_buffer b) msg of
                       Inl e \<Rightarrow> Some (Inl e)
                     | Inr buffer' \<Rightarrow> Some (Inr (b\<lparr>bus_pool := p3, bus_buffer := buffer'\<rparr>))))))"

fun messageBus_start :: "messageBus \<Rightarrow> message list \<Rightarrow> messageBus run" where
  "messageBus_start b [] = Some (Inr b)"
| "messageBus_start b (msg # msgs) =
     (case messageBus_handle b msg of
        None \<Rightarrow> None
      | Some (Inl e) \<Rightarrow> Some (Inl e)
      | Some (Inr b') \<Rightarrow> messageBus_start b' msgs)"

section \<open>The loops on a ring\<close>

lemma load_id_ring: "ring p as \<Longrightarrow> a \<in> set as \<Longrightarrow> load_id p (Some a) = Inr (pc_ID (conn_at p a))"
  by (simp add: load_id_def ring_heap)

lemma ids_distinct:
  "pool_ok p as \<Longrightarrow> a \<in> set as \<Longrightarrow> b \<in> set as \<Longrightarrow> pc_ID (conn_at p a) = pc_ID (conn_at p b) \<longleftrightarrow> a = b"
  by (auto simp: pool_ok_def ids_ok_def inj_on_def)

text \<open>The state after removing the connection behind the current one.\<close>

definition removed :: "pool \<Rightarrow> addr \<Rightarrow> addr list \<Rightarrow> pool" where
  "removed p a as =
     (let b = hd (as @ [a]) in deleted (store p b (snd (podConnection_checkStatus (conn_at p b)))) a as)"

lemma removed_ok: "pool_ok p (a # as) \<Longrightarrow> pool_ok (removed p a as) (if as = [] then [] else a # tl as)"
  unfolding removed_def Let_def by (rule prepareNext_doomed_ok) simp_all

lemma removed_maxID [simp]: "pl_maxID (removed p a as) = pl_maxID p"
  by (simp add: removed_def deleted_def Let_def split: list.split)

lemma removed_other: "c \<noteq> a \<Longrightarrow> c \<noteq> hd (as @ [a]) \<Longrightarrow> conn_at (removed p a as) c = conn_at p c"
  by (cases as) (auto simp: removed_def deleted_def Let_def)

lemma removed_self: "as \<noteq> [] \<Longrightarrow> a \<noteq> hd as \<Longrightarrow> \<exists>n. conn_at (removed p a as) a = (conn_at p a)\<lparr>pc_next := n\<rparr>"
  by (auto simp: removed_def deleted_def Let_def split: list.split)

lemma removed_gone:
  "as \<noteq> [] \<Longrightarrow> a \<noteq> hd as \<Longrightarrow> pl_heap (removed p a as) (hd as) = Some (conn_at (removed p a as) (hd as))
     \<and> pc_ID (conn_at (removed p a as) (hd as)) = pc_ID (conn_at p (hd as))
     \<and> pc_next (conn_at (removed p a as) (hd as)) = pc_next (conn_at p (hd as))"
  by (cases as) (auto simp: removed_def deleted_def Let_def checkStatus_eq conn_at_def)

text \<open>One turn of the traversal at \<open>x\<close>, with \<open>b\<close> behind it.\<close>

lemma turn_healthy:
  fixes msg :: message
  assumes ok: "pool_ok p (x # as)" and mb: "mb_ok buffer" and b: "b = hd (as @ [x])"
    and healthy: "\<not> doomed (conn_at p b)"
  defines "p1 \<equiv> store p x (podConnection_send (conn_at p x) (Some msg))"
  defines "p2 \<equiv> store p1 b (prepared (buffer_log buffer) (conn_at p1 b))"
  shows "traverse_turn buffer msg startID (Some x) p = Some (Inr (startID, Some b, p2\<lparr>pl_current := Some b\<rparr>))"
    and "pool_ok (p2\<lparr>pl_current := Some b\<rparr>) (as @ [x])"
proof -
  have ok1: "pool_ok p1 (x # as)"
    unfolding p1_def by (rule update_ok [OF ok]) (use ok in \<open>auto simp: pool_ok_def dest: ring_live\<close>)
  have hx: "pl_heap p x = Some (conn_at p x)"
    using ok by (auto simp: pool_ok_def intro: ring_heap)
  have "\<not> doomed (conn_at p1 b)" using healthy by (auto simp: p1_def)
  then have prep: "connectionPool_prepareNext buffer p1 = Some (Inr (None, p2))"
    unfolding p2_def using prepareNext_healthy [OF ok1 mb b] by simp
  have ok2: "pool_ok p2 (x # as)"
    unfolding p2_def by (rule prepareNext_healthy_ok [OF ok1 b])
  have peek: "connectionPool_peek p1 = Inr (Some b)"
    using peek_ring [of p1 x as] ok1 b by (simp add: pool_ok_def)
  show "traverse_turn buffer msg startID (Some x) p = Some (Inr (startID, Some b, p2\<lparr>pl_current := Some b\<rparr>))"
    using hx peek prep next_ring(1) [OF ok2] b
    by (simp add: traverse_turn_def Let_def p1_def [symmetric] traverse_start_id_def)
  show "pool_ok (p2\<lparr>pl_current := Some b\<rparr>) (as @ [x])"
    using next_ring(2) [OF ok2] b by simp
qed

lemma turn_doomed:
  fixes msg :: message
  assumes ok: "pool_ok p (x # as)" and mb: "mb_ok buffer" and ne: "as = y # ys"
    and doomed: "doomed (conn_at p y)"
  defines "p1 \<equiv> store p x (podConnection_send (conn_at p x) (Some msg))"
  defines "p2 \<equiv> removed p1 x as" and "z \<equiv> hd (ys @ [x])"
  shows "traverse_turn buffer msg startID (Some x) p =
      Some (Inr (if startID = pc_ID (conn_at p y) then pc_ID (conn_at p2 z) else startID,
                 Some z, p2\<lparr>pl_current := Some z\<rparr>))"
    and "pool_ok (p2\<lparr>pl_current := Some z\<rparr>) (ys @ [x])"
proof -
  have ok1: "pool_ok p1 (x # as)"
    unfolding p1_def by (rule update_ok [OF ok]) (use ok in \<open>auto simp: pool_ok_def dest: ring_live\<close>)
  have r1: "ring p1 (x # y # ys)" using ok1 ne by (simp add: pool_ok_def)
  have xy: "x \<noteq> y" using ok ne by (auto simp: pool_ok_def ring_def)
  have hx: "pl_heap p x = Some (conn_at p x)"
    using ok by (auto simp: pool_ok_def intro: ring_heap)
  have y: "hd (as @ [x]) = y" by (simp add: ne)
  have "doomed (conn_at p1 y)" using doomed xy by (simp add: p1_def)
  then obtain e where prep: "connectionPool_prepareNext buffer p1 = Some (Inr (Some e, p2))"
    using prepareNext_doomed [OF ok1, of y buffer] y by (auto simp: p2_def removed_def)
  have ok2: "pool_ok p2 (x # ys)"
    using removed_ok [OF ok1] by (simp add: p2_def ne)
  have peek: "connectionPool_peek p1 = Inr (Some y)"
    using peek_ring [OF r1] by simp
  have "links p1 y z"
    using r1 by (cases ys) (auto simp: ring_def z_def chain_hd)
  then have "pc_next (conn_at p1 y) = Some z" by (auto simp: links_def conn_at_def)
  then have gone: "pl_heap p2 y = Some (conn_at p2 y)" "pc_ID (conn_at p2 y) = pc_ID (conn_at p y)"
      "pc_next (conn_at p2 y) = Some z"
    using removed_gone [of as x p1] xy by (auto simp: p2_def ne p1_def)
  have "z \<in> set (x # ys)" by (cases ys) (auto simp: z_def)
  then have zid: "load_id p2 (Some z) = Inr (pc_ID (conn_at p2 z))"
    using ok2 by (intro load_id_ring) (auto simp: pool_ok_def)
  show "traverse_turn buffer msg startID (Some x) p =
      Some (Inr (if startID = pc_ID (conn_at p y) then pc_ID (conn_at p2 z) else startID,
                 Some z, p2\<lparr>pl_current := Some z\<rparr>))"
    using hx peek prep gone zid next_ring(1) [OF ok2]
    by (simp add: traverse_turn_def Let_def p1_def [symmetric] traverse_start_id_def load_id_def
        load_next_def z_def)
  show "pool_ok (p2\<lparr>pl_current := Some z\<rparr>) (ys @ [x])"
    using next_ring(2) [OF ok2] by (simp add: z_def)
qed

text \<open>
  The bus alone does not touch the channel to the pod, and it does not add feedback or failures to a
  connection without feedback, nor to one that has neither reported a failure nor asked to be disconnected.
\<close>

definition undisturbed :: "podConnection \<Rightarrow> podConnection \<Rightarrow> bool" where
  "undisturbed c c' \<longleftrightarrow> pc_messageChan c' = pc_messageChan c
     \<and> (pc_feedbackChan c = [] \<longrightarrow> pc_feedbackChan c' = [] \<and> pc_failed c' = pc_failed c)
     \<and> (failures c = [] \<and> FbDisconnect \<notin> set (pc_feedbackChan c) \<longrightarrow>
          failures c' = [] \<and> FbDisconnect \<notin> set (pc_feedbackChan c'))"

lemma undisturbed_simps [simp]:
  "undisturbed c c"
  "undisturbed c (podConnection_send c r)"
  "undisturbed c (prepared log c)"
  "undisturbed c (prepared log (podConnection_send c r))"
  "undisturbed c (c'\<lparr>pc_next := n\<rparr>) = undisturbed c c'"
  "undisturbed (c\<lparr>pc_next := n\<rparr>) c' = undisturbed c c'"
  "undisturbed (podConnection_send c r) c' = undisturbed c c'"
  by (auto simp: undisturbed_def podConnection_send_def prepared_def failures_def)

lemma undisturbed_trans: "undisturbed c d \<Longrightarrow> undisturbed d e \<Longrightarrow> undisturbed c e"
  by (auto simp: undisturbed_def)

text \<open>
  The effect of a traversal on the sends spawned for connection \<open>a\<close>: the message once, unless
  \<open>a\<close> was visited before; replays or flushes before it for a connection still to visit, after
  it only for the start \<open>s\<close>, whose turn to be prepared is the last. A connection
  to visit gets its replay or flush if none of those to visit is removed: the one behind a
  removed one is not prepared.
\<close>

definition effect ::
  "msg_ref list \<Rightarrow> message \<Rightarrow> pool \<Rightarrow> pool \<Rightarrow> addr \<Rightarrow> addr list \<Rightarrow> addr list \<Rightarrow> addr \<Rightarrow> bool" where
  "effect log msg p p' s vis rem a \<longleftrightarrow> undisturbed (conn_at p a) (conn_at p' a) \<and> (\<exists>pre post.
       pc_sends (conn_at p' a) = pc_sends (conn_at p a) @ pre
         @ (if a \<in> set vis then [] else [(Spawned, Some msg)]) @ post
     \<and> pre \<in> {[], extras log (conn_at p a)} \<and> post \<in> {[], extras log (conn_at p a)}
     \<and> (a \<notin> set rem \<longrightarrow> pre = []) \<and> (a \<noteq> s \<longrightarrow> post = [])
     \<and> (a \<in> set rem \<and> (\<forall>y \<in> set rem. \<not> doomed (conn_at p y)) \<longrightarrow> pre = extras log (conn_at p a)))"

text \<open>
  At \<open>x\<close>, with \<open>rem\<close> still to visit and \<open>vis\<close> already visited, starting at the first element of
  \<open>vis @ [x]\<close>. The traversal ends with the ring \<open>as'\<close>, from the start on.
\<close>

definition traversed ::
  "msg_ref list \<Rightarrow> message \<Rightarrow> pool \<Rightarrow> addr \<Rightarrow> addr list \<Rightarrow> addr list \<Rightarrow> pool \<Rightarrow> addr list \<Rightarrow> bool" where
  "traversed log msg p x rem vis p' as' \<longleftrightarrow> pool_ok p' as' \<and> as' \<noteq> [] \<and> pl_maxID p' = pl_maxID p
     \<and> as' = filter (\<lambda>a. a \<in> set as') (vis @ x # rem)
     \<and> (\<forall>a \<in> set (vis @ x # rem) - set as'. doomed (conn_at p a))
     \<and> (\<forall>a \<in> set as'. effect log msg p p' (hd (vis @ [x])) vis rem a)"

lemma traversed_step:
  assumes T: "traversed log msg p3 x2 rem2 (vis @ [x]) p' as'"
    and rem: "rem = skipped @ x2 # rem2" and sk: "\<forall>y \<in> set skipped. doomed (conn_at p y)"
    and dist: "distinct (vis @ x # rem)"
    and cx: "conn_at p3 x = (podConnection_send (conn_at p x) (Some msg))\<lparr>pc_next := n\<rparr>"
    and cx2: "conn_at p3 x2 = (if skipped = [] then prepared log (conn_at p x2) else conn_at p x2)"
    and hx2: "skipped = [] \<Longrightarrow> \<not> doomed (conn_at p x2)"
    and others: "\<forall>a \<in> set vis \<union> set rem2. conn_at p3 a = conn_at p a"
    and maxID: "pl_maxID p3 = pl_maxID p"
  shows "traversed log msg p x rem vis p' as'"
proof -
  have sub: "set as' \<subseteq> set (vis @ x # x2 # rem2)"
  proof
    fix a assume "a \<in> set as'"
    with T have "a \<in> set (filter (\<lambda>a. a \<in> set as') ((vis @ [x]) @ x2 # rem2))"
      by (simp only: traversed_def)
    then show "a \<in> set (vis @ x # x2 # rem2)" by (auto split: if_splits)
  qed
  then have "filter (\<lambda>a. a \<in> set as') skipped = []"
    using dist rem by (auto simp: filter_empty_conv)
  moreover have "vis @ x # rem = (vis @ [x]) @ skipped @ x2 # rem2" by (simp add: rem)
  ultimately have "filter (\<lambda>a. a \<in> set as') (vis @ x # rem)
      = filter (\<lambda>a. a \<in> set as') ((vis @ [x]) @ x2 # rem2)"
    by (simp only: filter_append append_Nil)
  moreover have "as' = filter (\<lambda>a. a \<in> set as') ((vis @ [x]) @ x2 # rem2)"
    using T unfolding traversed_def by blast
  ultimately have flt: "as' = filter (\<lambda>a. a \<in> set as') (vis @ x # rem)"
    by (rule trans [OF _ sym, rotated])
  have D: "\<forall>a \<in> set ((vis @ [x]) @ x2 # rem2) - set as'. doomed (conn_at p3 a)"
    using T unfolding traversed_def by blast
  have gone: "doomed (conn_at p a)" if "a \<in> set (vis @ x # rem) - set as'" for a
  proof -
    have "a \<in> set (vis @ x # skipped @ x2 # rem2)" using that by (simp add: rem)
    then consider "a \<in> set skipped" | "a = x" | "a = x2" | "a \<in> set vis \<union> set rem2"
      by auto
    then show ?thesis
    proof cases
      case 1
      with sk show ?thesis by blast
    next
      case 2
      then have "doomed (conn_at p3 x)" using D that by simp
      with cx 2 show ?thesis by simp
    next
      case 3
      then have "doomed (conn_at p3 x2)" using D that by simp
      with cx2 hx2 prepared_not_doomed 3 show ?thesis by (auto split: if_splits)
    next
      case 4
      then have "doomed (conn_at p3 a)" using D that by auto
      with 4 others show ?thesis by simp
    qed
  qed
  have start: "hd ((vis @ [x]) @ [x2]) = hd (vis @ [x])" by (cases vis) auto
  have eff: "effect log msg p p' (hd (vis @ [x])) vis rem a" if a: "a \<in> set as'" for a
  proof -
    have e: "effect log msg p3 p' (hd (vis @ [x])) (vis @ [x]) rem2 a"
      using T a start by (simp add: traversed_def)
    consider "a = x" | "a = x2" | "a \<in> set vis \<union> set rem2" "a \<noteq> x" "a \<noteq> x2"
      using sub a by auto
    then show ?thesis
    proof cases
      case 1
      then show ?thesis using e dist cx by (auto simp: effect_def rem)
    next
      case 2
      have "x2 \<noteq> hd (vis @ [x])" "x2 \<notin> set vis" "x2 \<noteq> x" "x2 \<notin> set rem2"
        using dist by (cases vis, auto simp: rem)
      then have "pc_sends (conn_at p' a) = pc_sends (conn_at p3 x2) @ [(Spawned, Some msg)]"
        using e 2 by (auto simp: effect_def)
      moreover obtain pre where "pc_sends (conn_at p3 x2) = pc_sends (conn_at p x2) @ pre"
          "pre \<in> {[], extras log (conn_at p x2)}" "skipped = [] \<longrightarrow> pre = extras log (conn_at p x2)"
        using cx2 by (cases "skipped = []") (auto simp: prepared_sends)
      moreover have "undisturbed (conn_at p x2) (conn_at p3 x2)" using cx2 by auto
      then have "undisturbed (conn_at p a) (conn_at p' a)"
        using e 2 undisturbed_trans by (auto simp: effect_def)
      ultimately show ?thesis
        using 2 \<open>x2 \<notin> set vis\<close> sk unfolding effect_def
        by (intro conjI [OF _ exI [of _ pre, OF exI [of _ "[]"]]]) (auto simp: rem)
    next
      case 3
      then have same: "conn_at p3 a = conn_at p a" and sub: "a \<in> set rem2 \<longrightarrow> a \<in> set rem"
        using others by (auto simp: rem)
      moreover obtain pre post where
        "pc_sends (conn_at p' a) = pc_sends (conn_at p3 a) @ pre
           @ (if a \<in> set (vis @ [x]) then [] else [(Spawned, Some msg)]) @ post"
        "pre \<in> {[], extras log (conn_at p3 a)}" "post \<in> {[], extras log (conn_at p3 a)}"
        "a \<notin> set rem2 \<longrightarrow> pre = []" "a \<noteq> hd (vis @ [x]) \<longrightarrow> post = []"
        and all: "a \<in> set rem2 \<and> (\<forall>y \<in> set rem2. \<not> doomed (conn_at p3 y)) \<longrightarrow> pre = extras log (conn_at p3 a)"
        using e unfolding effect_def by blast
      moreover have "a \<in> set rem \<and> (\<forall>y \<in> set rem. \<not> doomed (conn_at p y)) \<longrightarrow> pre = extras log (conn_at p a)"
      proof
        assume h: "a \<in> set rem \<and> (\<forall>y \<in> set rem. \<not> doomed (conn_at p y))"
        then have "a \<in> set rem2" using 3 sk by (auto simp: rem)
        moreover have "\<forall>y \<in> set rem2. \<not> doomed (conn_at p3 y)" using h others by (auto simp: rem)
        ultimately show "pre = extras log (conn_at p a)" using all same by simp
      qed
      moreover have "a \<in> set (vis @ [x]) \<longleftrightarrow> a \<in> set vis" using 3 by simp
      moreover have "undisturbed (conn_at p a) (conn_at p' a)"
        using e same by (simp add: effect_def)
      ultimately show ?thesis
        using sub unfolding effect_def by (intro conjI exI [of _ pre] exI [of _ post]) (simp_all only: same, blast+)
    qed
  qed
  show ?thesis
    using T flt gone eff maxID by (simp add: traversed_def)
qed

text \<open>The last turn: nothing is left to visit, and the start itself is checked.\<close>

lemma last_turn_healthy:
  assumes ok: "pool_ok p (x # vis)" and mb: "mb_ok buffer" and s: "s = hd (vis @ [x])"
    and healthy: "\<not> doomed (conn_at p s)" and id: "startID = pc_ID (conn_at p s)"
  shows "\<exists>p' as'. traverse_loop buffer msg startID (Some x) p = Some (Inr p')
    \<and> traversed (buffer_log buffer) msg p x [] vis p' as'"
proof -
  let ?p1 = "store p x (podConnection_send (conn_at p x) (Some msg))"
  let ?p3 = "(store ?p1 s (prepared (buffer_log buffer) (conn_at ?p1 s)))\<lparr>pl_current := Some s\<rparr>"
  note turn = turn_healthy [OF ok mb s healthy, where msg = msg]
  have "s \<in> set (vis @ [x])" by (cases vis) (auto simp: s)
  then have "load_id ?p3 (Some s) = Inr (pc_ID (conn_at ?p3 s))"
    using turn(2) by (intro load_id_ring) (auto simp: pool_ok_def)
  also have "pc_ID (conn_at ?p3 s) = startID" by (simp add: id)
  finally have "traverse_loop buffer msg startID (Some x) p = Some (Inr ?p3)"
    using turn(1) by (subst traverse_loop.simps) simp
  moreover have "traversed (buffer_log buffer) msg p x [] vis ?p3 (vis @ [x])"
    using ok turn(2) by (auto simp: traversed_def effect_def s [symmetric] prepared_sends pool_ok_def ring_def)
  ultimately show ?thesis by blast
qed

lemma last_turn_doomed:
  assumes ok: "pool_ok p (x # s # vs)" and mb: "mb_ok buffer"
    and dm: "doomed (conn_at p s)" and id: "startID = pc_ID (conn_at p s)"
  shows "\<exists>p' as'. traverse_loop buffer msg startID (Some x) p = Some (Inr p')
    \<and> traversed (buffer_log buffer) msg p x [] (s # vs) p' as'"
proof -
  let ?p1 = "store p x (podConnection_send (conn_at p x) (Some msg))" and ?z = "hd (vs @ [x])"
  let ?p2 = "removed ?p1 x (s # vs)"
  let ?p3 = "?p2\<lparr>pl_current := Some ?z\<rparr>"
  note turn = turn_doomed [OF ok mb refl dm, where msg = msg]
  have dist: "distinct (x # s # vs)" using ok by (simp add: pool_ok_def ring_def)
  have "?z \<in> set (vs @ [x])" by (cases vs) auto
  then have "load_id ?p3 (Some ?z) = Inr (pc_ID (conn_at ?p3 ?z))"
    using turn(2) by (intro load_id_ring) (auto simp: pool_ok_def)
  then have run: "traverse_loop buffer msg startID (Some x) p = Some (Inr ?p3)"
    using turn(1) id by (subst traverse_loop.simps) simp
  obtain n where cx: "conn_at ?p2 x = (conn_at ?p1 x)\<lparr>pc_next := n\<rparr>"
    using removed_self [of "s # vs" x ?p1] dist by auto
  have others: "conn_at ?p2 a = conn_at p a" if "a \<in> set vs" for a
    using removed_other [of a x "s # vs" ?p1] that dist by auto
  have "traversed (buffer_log buffer) msg p x [] (s # vs) ?p3 (vs @ [x])"
    using turn(2) dist dm cx others by (auto simp: traversed_def effect_def)
  with run show ?thesis by blast
qed

lemma traverse_loop_ok:
  assumes "pool_ok p (x # rem @ vis)" and "mb_ok buffer"
    and "startID = pc_ID (conn_at p (hd (vis @ [x])))"
    and "rem = [] \<and> vis = [] \<longrightarrow> \<not> doomed (conn_at p x)"
  shows "\<exists>p' as'. traverse_loop buffer msg startID (Some x) p = Some (Inr p')
    \<and> traversed (buffer_log buffer) msg p x rem vis p' as'"
  using assms
proof (induction "length rem" arbitrary: p x rem vis rule: less_induct)
  case less
  note ok = less.prems(1) and mb = less.prems(2) and id = less.prems(3)
  let ?log = "buffer_log buffer" and ?s = "hd (vis @ [x])"
  let ?p1 = "store p x (podConnection_send (conn_at p x) (Some msg))"
  have dist: "distinct (vis @ x # rem)" using ok by (auto simp: pool_ok_def ring_def)
  have smem: "?s \<in> set (vis @ [x])" by (cases vis) auto
  show ?case
  proof (cases rem)
    case Nil
    show ?thesis
    proof (cases "doomed (conn_at p ?s)")
      case False
      with last_turn_healthy [of p x vis buffer ?s startID] ok mb id Nil show ?thesis by auto
    next
      case True
      then obtain s vs where vs: "vis = s # vs"
        using less.prems(4) Nil by (cases vis) auto
      with last_turn_doomed [of p x s vs buffer startID msg] ok mb id True Nil show ?thesis by simp
    qed
  next
    case (Cons y ys)
    have ynot: "startID \<noteq> pc_ID (conn_at p y)"
      using ids_distinct [OF ok, of ?s y] dist smem Cons unfolding id by auto
    show ?thesis
    proof (cases "doomed (conn_at p y)")
      case False
      let ?p3 = "(store ?p1 y (prepared ?log (conn_at ?p1 y)))\<lparr>pl_current := Some y\<rparr>"
      have hd: "y = hd ((rem @ vis) @ [x])" by (simp add: Cons)
      note turn = turn_healthy [OF ok mb hd False, where msg = msg]
      have ok3: "pool_ok ?p3 (y # ys @ vis @ [x])" using turn(2) Cons by simp
      have "load_id ?p3 (Some y) = Inr (pc_ID (conn_at ?p3 y))"
        using load_id_ring [of ?p3 "y # ys @ vis @ [x]" y] ok3 by (simp add: pool_ok_def)
      also have "pc_ID (conn_at ?p3 y) = pc_ID (conn_at p y)" using dist Cons by auto
      finally have run: "traverse_loop buffer msg startID (Some x) p = traverse_loop buffer msg startID (Some y) ?p3"
        using turn(1) ynot by (subst traverse_loop.simps) simp
      have id3: "startID = pc_ID (conn_at ?p3 (hd ((vis @ [x]) @ [y])))"
        using id dist Cons smem by (cases vis) auto
      obtain p' as' where p': "traverse_loop buffer msg startID (Some y) ?p3 = Some (Inr p')"
          "traversed ?log msg ?p3 y ys (vis @ [x]) p' as'"
        using less.hyps [of ys ?p3 y "vis @ [x]"] Cons ok3 mb id3 by auto
      have "traversed ?log msg p x rem vis p' as'"
        by (rule traversed_step [OF p'(2), of rem "[]" p "pc_next (conn_at p x)"])
           (use Cons dist False in auto)
      with run p'(1) show ?thesis by auto
    next
      case True
      let ?p2 = "removed ?p1 x (rem @ vis)" and ?z = "hd ((ys @ vis) @ [x])"
      let ?p3 = "?p2\<lparr>pl_current := Some ?z\<rparr>"
      have eq: "rem @ vis = y # (ys @ vis)" by (simp add: Cons)
      note turn = turn_doomed [OF ok mb eq True, where msg = msg]
      have ok3: "pool_ok ?p3 ((ys @ vis) @ [x])" using turn(2) by simp
      obtain n where cx: "conn_at ?p3 x = (podConnection_send (conn_at p x) (Some msg))\<lparr>pc_next := n\<rparr>"
        using removed_self [of "rem @ vis" x ?p1] Cons dist by auto
      have others: "conn_at ?p3 a = conn_at p a" if "a \<in> set (vis @ ys)" for a
        using removed_other [of a x "rem @ vis" ?p1] that dist Cons by auto
      have zmem: "?z \<in> set ((ys @ vis) @ [x])" by (cases "ys @ vis") auto
      have "pc_ID (conn_at ?p3 ?z) = pc_ID (conn_at p ?z)"
        using zmem cx others by (cases "?z = x") auto
      then have lid: "load_id ?p3 (Some ?z) = Inr (pc_ID (conn_at p ?z))"
        using load_id_ring [of ?p3 "(ys @ vis) @ [x]" ?z] ok3 zmem by (simp add: pool_ok_def)
      show ?thesis
      proof (cases ys)
        case Nil
        then have "?z = ?s" by simp
        then have run: "traverse_loop buffer msg startID (Some x) p = Some (Inr ?p3)"
          using turn(1) ynot lid id by (subst traverse_loop.simps) simp
        have "traversed ?log msg p x rem vis ?p3 (vis @ [x])"
          using ok3 dist True cx others Cons Nil by (auto simp: traversed_def effect_def)
        with run show ?thesis by blast
      next
        case (Cons z zs)
        note rem' = \<open>rem = y # ys\<close>
        have "startID \<noteq> pc_ID (conn_at p z)"
          using ids_distinct [OF ok, of ?s z] dist smem Cons rem' unfolding id by auto
        then have run: "traverse_loop buffer msg startID (Some x) p = traverse_loop buffer msg startID (Some z) ?p3"
          using turn(1) ynot lid Cons by (subst traverse_loop.simps) simp
        have id3: "startID = pc_ID (conn_at ?p3 (hd ((vis @ [x]) @ [z])))"
          using id cx others by (cases vis) auto
        obtain p' as' where p': "traverse_loop buffer msg startID (Some z) ?p3 = Some (Inr p')"
            "traversed ?log msg ?p3 z zs (vis @ [x]) p' as'"
          using less.hyps [of zs ?p3 z "vis @ [x]"] Cons rem' ok3 mb id3 by auto
        have "traversed ?log msg p x rem vis p' as'"
          by (rule traversed_step [OF p'(2), of rem "[y]" p n])
             (use Cons rem' dist True cx others in auto)
        with run p'(1) show ?thesis by auto
      qed
    qed
  qed
qed

section \<open>The body of the bus loop\<close>

text \<open>Equality of connections up to the \<open>next\<close> pointer.\<close>

definition same_conn :: "podConnection \<Rightarrow> podConnection \<Rightarrow> bool" where
  "same_conn c d \<longleftrightarrow> c\<lparr>pc_next := None\<rparr> = d\<lparr>pc_next := None\<rparr>"

lemma same_conn_refl [simp]: "same_conn c c" "same_conn (c\<lparr>pc_next := n\<rparr>) c"
  by (simp_all add: same_conn_def)

lemma same_conn_trans: "same_conn c d \<Longrightarrow> same_conn d e \<Longrightarrow> same_conn c e"
  by (simp add: same_conn_def)

lemma same_conn_fields:
  assumes "same_conn c d"
  shows "pc_sends c = pc_sends d" and "doomed c = doomed d" and "extras log c = extras log d"
    and "pc_feedbackChan c = pc_feedbackChan d" and "pc_failed c = pc_failed d"
    and "pc_messageChan c = pc_messageChan d"
proof -
  obtain n where "c = d\<lparr>pc_next := n\<rparr>"
    using assms by (cases c; cases d) (auto simp: same_conn_def)
  then show "pc_sends c = pc_sends d" "doomed c = doomed d" "extras log c = extras log d"
    "pc_feedbackChan c = pc_feedbackChan d" "pc_failed c = pc_failed d"
    "pc_messageChan c = pc_messageChan d" by simp_all
qed

lemma same_conn_prepared: "same_conn c d \<Longrightarrow> same_conn (prepared log c) (prepared log d)"
  by (cases c; cases d) (auto simp: same_conn_def prepared_def failures_def)

lemma removed_next_doomed:
  assumes "pool_ok p (a # as)" and "doomed (conn_at p (hd (as @ [a])))"
  shows "prepare_loop buffer p = prepare_loop buffer (removed p a as)"
  using prepareNext_doomed [OF assms(1) refl assms(2), of buffer]
  by (subst prepare_loop.simps) (auto simp: removed_def Let_def)

lemma removed_same:
  assumes ok: "pool_ok p (a # b # bs)" and x: "x \<in> set (a # bs)"
  shows "same_conn (conn_at (removed p a (b # bs)) x) (conn_at p x)"
proof (cases "x = a")
  case True
  moreover have "a \<noteq> b" using ok by (auto simp: pool_ok_def ring_def)
  ultimately show ?thesis using removed_self [of "b # bs" a p] by auto
next
  case False
  then have "x \<noteq> b" using ok x by (auto simp: pool_ok_def ring_def)
  with False show ?thesis using removed_other [of x a "b # bs" p] by simp
qed

lemma prepare_loop_finds:
  assumes "pool_ok p (a # as)" and "mb_ok buffer" and "as @ [a] = ds @ h # rs"
    and "\<forall>d \<in> set ds. doomed (conn_at p d)" and "\<not> doomed (conn_at p h)"
  shows "\<exists>p1 p2. prepare_loop buffer p = Some (Inr p1) \<and> connectionPool_next p1 = Inr (Some h, p2)
    \<and> pool_ok p2 (h # rs) \<and> same_conn (conn_at p2 h) (prepared (buffer_log buffer) (conn_at p h))
    \<and> (\<forall>x \<in> set rs. same_conn (conn_at p2 x) (conn_at p x)) \<and> pl_maxID p2 = pl_maxID p"
  using assms
proof (induction ds arbitrary: p as)
  case Nil
  let ?p1 = "store p h (prepared (buffer_log buffer) (conn_at p h))"
  have h: "h = hd (as @ [a])" using Nil.prems(3) by simp
  have "prepare_loop buffer p = Some (Inr ?p1)"
    using prepareNext_healthy [OF Nil.prems(1,2) h Nil.prems(5)]
    by (subst prepare_loop.simps) simp
  moreover have ok1: "pool_ok ?p1 (a # as)"
    by (rule prepareNext_healthy_ok [OF Nil.prems(1) h])
  moreover have "distinct (as @ [a])" using Nil.prems(1) by (auto simp: pool_ok_def ring_def)
  then have "h \<notin> set rs" using Nil.prems(3) by simp
  moreover have "connectionPool_next ?p1 = Inr (Some h, ?p1\<lparr>pl_current := Some h\<rparr>)"
    using next_ring(1) [OF ok1] by (simp only: h [symmetric])
  moreover have "pool_ok (?p1\<lparr>pl_current := Some h\<rparr>) (h # rs)"
    using next_ring(2) [OF ok1] Nil.prems(3) by simp
  ultimately show ?case
    by (intro exI [of _ ?p1] exI [of _ "?p1\<lparr>pl_current := Some h\<rparr>"]) auto
next
  case (Cons d ds)
  then obtain as' where as: "as = d # as'" by (cases as) auto
  let ?p = "removed p a as"
  have ok1: "pool_ok ?p (a # as')"
    using removed_ok [OF Cons.prems(1)] as by simp
  have eq: "as' @ [a] = ds @ h # rs" using Cons.prems(3) as by simp
  have same: "same_conn (conn_at ?p x) (conn_at p x)" if "x \<in> set ds \<union> {h} \<union> set rs" for x
  proof -
    have "x \<in> set (as' @ [a])" unfolding eq using that by auto
    with removed_same [of p a d as' x] Cons.prems(1) as show ?thesis by auto
  qed
  have "prepare_loop buffer p = prepare_loop buffer ?p"
    using Cons.prems(1,4) as by (intro removed_next_doomed) auto
  moreover have "\<forall>x \<in> set ds. doomed (conn_at ?p x)" "\<not> doomed (conn_at ?p h)"
    using same same_conn_fields(2) Cons.prems(4,5) by auto
  ultimately obtain p1 p2 where p: "prepare_loop buffer p = Some (Inr p1)"
      "connectionPool_next p1 = Inr (Some h, p2)" "pool_ok p2 (h # rs)"
      "same_conn (conn_at p2 h) (prepared (buffer_log buffer) (conn_at ?p h))"
      "\<forall>x \<in> set rs. same_conn (conn_at p2 x) (conn_at ?p x)" "pl_maxID p2 = pl_maxID ?p"
    using Cons.IH [OF ok1 Cons.prems(2) eq] by auto
  moreover have "same_conn (conn_at p2 h) (prepared (buffer_log buffer) (conn_at p h))"
    using p(4) same_conn_prepared [OF same] by (blast intro: same_conn_trans)
  moreover have "\<forall>x \<in> set rs. same_conn (conn_at p2 x) (conn_at p x)"
    using p(5) same by (blast intro: same_conn_trans)
  ultimately show ?case by auto
qed

lemma prepare_loop_panics:
  assumes "pool_ok p (a # as)" and "\<forall>x \<in> set (a # as). doomed (conn_at p x)"
  shows "prepare_loop buffer p = Some (Inl NilDereference)"
  using assms
proof (induction as arbitrary: p)
  case Nil
  have "pool_ok (removed p a []) []" using removed_ok [OF Nil.prems(1)] by simp
  then have "connectionPool_prepareNext buffer (removed p a []) = Some (Inl NilDereference)"
    by (simp add: connectionPool_prepareNext_def connectionPool_peek_def pool_ok_def ring_def)
  with removed_next_doomed [OF Nil.prems(1)] Nil.prems(2) show ?case
    by (subst (asm) (2) prepare_loop.simps) simp
next
  case (Cons b bs)
  have "pool_ok (removed p a (b # bs)) (a # bs)" using removed_ok [OF Cons.prems(1)] by simp
  moreover have "\<forall>x \<in> set (a # bs). doomed (conn_at (removed p a (b # bs)) x)"
    using removed_same [OF Cons.prems(1)] same_conn_fields(2) Cons.prems(2) by auto
  ultimately show ?case
    using removed_next_doomed [OF Cons.prems(1)] Cons.prems(2) Cons.IH by simp
qed

definition bus_ok :: "messageBus \<Rightarrow> addr list \<Rightarrow> bool" where
  "bus_ok b as \<longleftrightarrow> pool_ok (bus_pool b) as \<and> mb_ok (bus_buffer b)"

text \<open>
  What one message does to a bus with at least one connection that is not to be removed. The
  surviving connections keep their order, from the one that received the message first.
\<close>

definition handled :: "message \<Rightarrow> messageBus \<Rightarrow> addr list \<Rightarrow> messageBus \<Rightarrow> addr list \<Rightarrow> bool" where
  "handled msg b as b' as' \<longleftrightarrow> bus_ok b' as' \<and> as' \<noteq> []
     \<and> as' = filter (\<lambda>a. a \<in> set as') (rotate1 as)
     \<and> (\<forall>a \<in> set as - set as'. doomed (conn_at (bus_pool b) a))
     \<and> MsgBuffer_Push (bus_buffer b) msg = Inr (bus_buffer b')
     \<and> pl_maxID (bus_pool b') = pl_maxID (bus_pool b)
     \<and> (\<forall>a \<in> set as'. undisturbed (conn_at (bus_pool b) a) (conn_at (bus_pool b') a)
          \<and> (\<exists>pre \<in> {[], extras (buffer_log (bus_buffer b)) (conn_at (bus_pool b) a)}.
               pc_sends (conn_at (bus_pool b') a) = pc_sends (conn_at (bus_pool b) a) @ pre @ [(Spawned, Some msg)]
             \<and> ((\<forall>y \<in> set as. \<not> doomed (conn_at (bus_pool b) y)) \<longrightarrow>
                   pre = extras (buffer_log (bus_buffer b)) (conn_at (bus_pool b) a))))"

lemma extras_prepared [simp]: "extras log (prepared log' c) = []"
  by (simp add: extras_def)

lemma handle_ok:
  assumes ok: "bus_ok b as" and ex: "\<exists>a \<in> set as. \<not> doomed (conn_at (bus_pool b) a)"
  shows "\<exists>b' as'. messageBus_handle b msg = Some (Inr b') \<and> handled msg b as b' as'"
proof -
  let ?p = "bus_pool b" and ?buf = "bus_buffer b"
  let ?log = "buffer_log ?buf"
  obtain a0 as0 where as: "as = a0 # as0" using ex by (cases as) auto
  have pok: "pool_ok ?p (a0 # as0)" and mb: "mb_ok ?buf" using ok as by (auto simp: bus_ok_def)
  have "\<exists>x \<in> set (as0 @ [a0]). \<not> doomed (conn_at ?p x)" using ex as by auto
  then obtain ds h rs where split: "as0 @ [a0] = ds @ h # rs"
      and ds: "\<forall>d \<in> set ds. doomed (conn_at ?p d)" and h: "\<not> doomed (conn_at ?p h)"
    by (rule split_list_first_propE) auto
  have dist: "distinct (ds @ h # rs)"
    using pok unfolding split [symmetric] by (auto simp: pool_ok_def ring_def)
  obtain p1 p2 where prep: "prepare_loop ?buf ?p = Some (Inr p1)"
      and nxt: "connectionPool_next p1 = Inr (Some h, p2)" and ok2: "pool_ok p2 (h # rs)"
      and sh: "same_conn (conn_at p2 h) (prepared ?log (conn_at ?p h))"
      and srs: "\<forall>x \<in> set rs. same_conn (conn_at p2 x) (conn_at ?p x)" and "pl_maxID p2 = pl_maxID ?p"
    using prepare_loop_finds [OF pok mb split ds h] by blast
  have hh: "\<not> doomed (conn_at p2 h)"
    using same_conn_fields(2) [OF sh] prepared_not_doomed [OF h] by simp
  obtain p3 as' where trav: "traverse_loop ?buf msg (pc_ID (conn_at p2 h)) (Some h) p2 = Some (Inr p3)"
      and T: "traversed ?log msg p2 h rs [] p3 as'"
    using traverse_loop_ok [of p2 h rs "[]" ?buf "pc_ID (conn_at p2 h)" msg] ok2 mb hh by auto
  have lid: "load_id p2 (Some h) = Inr (pc_ID (conn_at p2 h))"
    using ok2 by (intro load_id_ring) (auto simp: pool_ok_def)
  obtain buf' where push: "MsgBuffer_Push ?buf msg = Inr buf'" "mb_ok buf'"
    using Push_ok [OF mb, of msg] by blast
  let ?b' = "b\<lparr>bus_pool := p3, bus_buffer := buf'\<rparr>"
  have run: "messageBus_handle b msg = Some (Inr ?b')"
    using prep nxt trav lid push by (simp add: messageBus_handle_def messageBus_traverse_def)
  have ok': "pool_ok p3 as'" and flt: "as' = filter (\<lambda>a. a \<in> set as') (h # rs)"
      and "pl_maxID p3 = pl_maxID p2"
    using T by (simp_all add: traversed_def)
  then have maxID: "pl_maxID p3 = pl_maxID ?p" using \<open>pl_maxID p2 = pl_maxID ?p\<close> by simp
  have sub: "set as' \<subseteq> set (h # rs)" by (subst flt) auto
  have "filter (\<lambda>a. a \<in> set as') ds = []" using sub dist by (auto simp: filter_empty_conv)
  then have rot: "as' = filter (\<lambda>a. a \<in> set as') (rotate1 as)"
    using flt by (simp add: as split)
  have D: "\<forall>a \<in> set (h # rs) - set as'. doomed (conn_at p2 a)"
    using T by (simp add: traversed_def)
  then have hin: "h \<in> set as'" using hh by auto
  have set_as: "set as = set (ds @ h # rs)" using split as by (metis set_rotate1 rotate1.simps(2))
  then have gone: "\<forall>a \<in> set as - set as'. doomed (conn_at ?p a)"
    using ds D hin same_conn_fields(2) srs by (metis Diff_iff UnE set_ConsD set_append)
  have "undisturbed (conn_at ?p a) (conn_at p3 a) \<and> (\<exists>pre \<in> {[], extras ?log (conn_at ?p a)}.
          pc_sends (conn_at p3 a) = pc_sends (conn_at ?p a) @ pre @ [(Spawned, Some msg)]
        \<and> ((\<forall>y \<in> set as. \<not> doomed (conn_at ?p y)) \<longrightarrow> pre = extras ?log (conn_at ?p a)))"
    if a: "a \<in> set as'" for a
  proof -
    have e: "effect ?log msg p2 p3 h [] rs a" using T a by (simp add: traversed_def)
    show ?thesis
    proof (cases "a = h")
      case True
      have "h \<notin> set rs" using dist by simp
      moreover have "extras ?log (conn_at p2 h) = []"
        using same_conn_fields(3) [OF sh] by simp
      ultimately have "pc_sends (conn_at p3 h) = pc_sends (conn_at p2 h) @ [(Spawned, Some msg)]"
        using e True by (auto simp: effect_def)
      moreover have "undisturbed (conn_at ?p h) (conn_at p2 h)"
        using same_conn_fields(4-6) [OF sh] undisturbed_simps(3) [of "conn_at ?p h" ?log]
        by (simp add: undisturbed_def failures_def)
      then have "undisturbed (conn_at ?p h) (conn_at p3 h)"
        using e True undisturbed_trans by (auto simp: effect_def)
      ultimately show ?thesis
        using True same_conn_fields(1) [OF sh] by (simp add: prepared_sends)
    next
      case False
      then have "a \<in> set rs" using a sub by auto
      then have s: "same_conn (conn_at p2 a) (conn_at ?p a)" using srs by blast
      have "undisturbed (conn_at ?p a) (conn_at p3 a)"
        using e same_conn_fields(4-6) [OF s] by (simp add: effect_def undisturbed_def failures_def)
      moreover obtain pre where pre: "pc_sends (conn_at p3 a) = pc_sends (conn_at p2 a) @ pre @ [(Spawned, Some msg)]"
          "pre \<in> {[], extras ?log (conn_at p2 a)}"
          "(\<forall>y \<in> set rs. \<not> doomed (conn_at p2 y)) \<longrightarrow> pre = extras ?log (conn_at p2 a)"
        using e False \<open>a \<in> set rs\<close> by (auto simp: effect_def)
      moreover have "\<forall>y \<in> set rs. \<not> doomed (conn_at p2 y)" if "\<forall>y \<in> set as. \<not> doomed (conn_at ?p y)"
        using that srs same_conn_fields(2) set_as by (metis Un_iff list.set_intros(2) set_append)
      ultimately show ?thesis
        using same_conn_fields(1,3) [OF s] by (intro conjI bexI [of _ pre]) auto
    qed
  qed
  then have "handled msg b as ?b' as'"
    using ok' push rot gone hin maxID by (auto simp: handled_def bus_ok_def)
  with run show ?thesis by blast
qed

lemma handle_panics:
  assumes "bus_ok b as" and "\<forall>a \<in> set as. doomed (conn_at (bus_pool b) a)"
  shows "messageBus_handle b msg = Some (Inl NilDereference)"
proof (cases as)
  case Nil
  then have "connectionPool_prepareNext (bus_buffer b) (bus_pool b) = Some (Inl NilDereference)"
    using assms(1) by (simp add: connectionPool_prepareNext_def connectionPool_peek_def bus_ok_def pool_ok_def ring_def)
  then show ?thesis
    by (subst messageBus_handle_def, subst prepare_loop.simps) simp
next
  case (Cons a rest)
  then have "prepare_loop (bus_buffer b) (bus_pool b) = Some (Inl NilDereference)"
    using prepare_loop_panics [of "bus_pool b" a rest] assms by (auto simp: bus_ok_def)
  then show ?thesis by (simp add: messageBus_handle_def)
qed

section \<open>A bus whose pods report nothing\<close>

definition quiet_bus :: "messageBus \<Rightarrow> addr list \<Rightarrow> bool" where
  "quiet_bus b as \<longleftrightarrow> bus_ok b as \<and> as \<noteq> [] \<and> (\<forall>a \<in> set as.
     pc_feedbackChan (conn_at (bus_pool b) a) = [] \<and> length (pc_failed (conn_at (bus_pool b) a)) < highWaterMark)"

lemma quiet_extras: "pc_feedbackChan c = [] \<Longrightarrow> extras log c = []"
  by (simp add: extras_def)

lemma quiet_not_doomed: "quiet_bus b as \<Longrightarrow> a \<in> set as \<Longrightarrow> \<not> doomed (conn_at (bus_pool b) a)"
  by (auto simp: quiet_bus_def doomed_def failures_def)

lemma quiet_handle:
  assumes q: "quiet_bus b as"
  shows "\<exists>b' as'. messageBus_handle b msg = Some (Inr b') \<and> quiet_bus b' as' \<and> set as' = set as
    \<and> MsgBuffer_Push (bus_buffer b) msg = Inr (bus_buffer b') \<and> pl_maxID (bus_pool b') = pl_maxID (bus_pool b)
    \<and> (\<forall>a \<in> set as. pc_sends (conn_at (bus_pool b') a) = pc_sends (conn_at (bus_pool b) a) @ [(Spawned, Some msg)])
    \<and> (\<forall>a \<in> set as. pc_messageChan (conn_at (bus_pool b') a) = pc_messageChan (conn_at (bus_pool b) a))"
proof -
  have "bus_ok b as" "\<exists>a \<in> set as. \<not> doomed (conn_at (bus_pool b) a)"
    using q quiet_not_doomed [OF q] by (auto simp: quiet_bus_def neq_Nil_conv)
  then obtain b' as' where b': "messageBus_handle b msg = Some (Inr b')" and H: "handled msg b as b' as'"
    using handle_ok by blast
  have "set as' = set (filter (\<lambda>a. a \<in> set as') (rotate1 as))"
    using H by (simp only: handled_def)
  then have sub: "set as' \<subseteq> set as" by auto
  have "\<forall>a \<in> set as - set as'. doomed (conn_at (bus_pool b) a)" using H by (simp add: handled_def)
  then have eq: "set as' = set as" using sub quiet_not_doomed [OF q] by blast
  have und: "\<forall>a \<in> set as. undisturbed (conn_at (bus_pool b) a) (conn_at (bus_pool b') a)"
    using H eq by (simp add: handled_def)
  have "quiet_bus b' as'"
    using H q und eq by (auto simp: quiet_bus_def handled_def undisturbed_def)
  moreover have "pc_sends (conn_at (bus_pool b') a) = pc_sends (conn_at (bus_pool b) a) @ [(Spawned, Some msg)]"
    if a: "a \<in> set as" for a
  proof -
    have "extras (buffer_log (bus_buffer b)) (conn_at (bus_pool b) a) = []"
      using q a by (intro quiet_extras) (auto simp: quiet_bus_def)
    then show ?thesis using H a eq by (auto simp: handled_def)
  qed
  moreover have "\<forall>a \<in> set as. pc_messageChan (conn_at (bus_pool b') a) = pc_messageChan (conn_at (bus_pool b) a)"
    using und by (simp add: undisturbed_def)
  ultimately show ?thesis using b' H eq by (auto simp: handled_def)
qed

lemma quiet_start:
  assumes "quiet_bus b as"
  shows "\<exists>b' as'. messageBus_start b msgs = Some (Inr b') \<and> quiet_bus b' as' \<and> set as' = set as
    \<and> push_seq MsgBuffer_Push (bus_buffer b) msgs = Inr (bus_buffer b') \<and> pl_maxID (bus_pool b') = pl_maxID (bus_pool b)
    \<and> (\<forall>a \<in> set as. pc_sends (conn_at (bus_pool b') a) =
          pc_sends (conn_at (bus_pool b) a) @ map (\<lambda>m. (Spawned, Some m)) msgs)
    \<and> (\<forall>a \<in> set as. pc_messageChan (conn_at (bus_pool b') a) = pc_messageChan (conn_at (bus_pool b) a))"
  using assms
proof (induction msgs arbitrary: b as)
  case Nil
  then show ?case by auto
next
  case (Cons m ms)
  obtain b1 as1 where b1: "messageBus_handle b m = Some (Inr b1)" "quiet_bus b1 as1" "set as1 = set as"
      "MsgBuffer_Push (bus_buffer b) m = Inr (bus_buffer b1)" "pl_maxID (bus_pool b1) = pl_maxID (bus_pool b)"
      "\<forall>a \<in> set as. pc_sends (conn_at (bus_pool b1) a) = pc_sends (conn_at (bus_pool b) a) @ [(Spawned, Some m)]"
      "\<forall>a \<in> set as. pc_messageChan (conn_at (bus_pool b1) a) = pc_messageChan (conn_at (bus_pool b) a)"
    using quiet_handle [OF Cons.prems] by blast
  obtain b2 as2 where "messageBus_start b1 ms = Some (Inr b2)" "quiet_bus b2 as2" "set as2 = set as1"
      "push_seq MsgBuffer_Push (bus_buffer b1) ms = Inr (bus_buffer b2)" "pl_maxID (bus_pool b2) = pl_maxID (bus_pool b1)"
      "\<forall>a \<in> set as1. pc_sends (conn_at (bus_pool b2) a) =
          pc_sends (conn_at (bus_pool b1) a) @ map (\<lambda>m. (Spawned, Some m)) ms"
      "\<forall>a \<in> set as1. pc_messageChan (conn_at (bus_pool b2) a) = pc_messageChan (conn_at (bus_pool b1) a)"
    using Cons.IH [OF b1(2)] by blast
  then show ?case using b1 by auto
qed

text \<open>A bus with one pod, whose feedback channel holds \<open>fb\<close>.\<close>

lemma one_pod_bus:
  "\<exists>b. messageBus_addPod newMessageBus ([], fb) = Inr b \<and> bus_ok b [0] \<and> pl_maxID (bus_pool b) = 1
     \<and> bus_buffer b = NewMsgBuffer defaultBufferSize
     \<and> conn_at (bus_pool b) 0 = (newPodConnection 1 ([], fb))\<lparr>pc_next := Some 0\<rparr>"
proof -
  have "mb_ok (NewMsgBuffer defaultBufferSize)" by (rule mb_ok_new) (simp add: defaultBufferSize_def)
  with one_pod_pool [of fb] show ?thesis
    by (auto simp: messageBus_addPod_def newMessageBus_def bus_ok_def)
qed

section \<open>Properties\<close>

text \<open>Property C3. One message goes around the ring once, whatever the pods have reported. If any
  connection is to stay, the bus finishes with the message: the ring is well formed again, it
  has lost only connections that were to be removed and kept the order of the others, every
  connection left got the message exactly once (after its replay and flush, if it was
  prepared), and the message is in the replay buffer.\<close>

theorem bus_delivers_once:
  assumes "bus_ok b as" and "\<exists>a \<in> set as. \<not> doomed (conn_at (bus_pool b) a)"
  shows "\<exists>b' as'. messageBus_handle b msg = Some (Inr b') \<and> handled msg b as b' as'"
  by (rule handle_ok [OF assms])

theorem bus_delivers_once_witness:
  "\<exists>b b' as'. messageBus_addPod newMessageBus ([], [FbSuccess]) = Inr b
    \<and> messageBus_handle b (NewMsg ''u'' 0 ''t'' []) = Some (Inr b')
    \<and> handled (NewMsg ''u'' 0 ''t'' []) b [0] b' as'"
proof -
  obtain b where b: "messageBus_addPod newMessageBus ([], [FbSuccess]) = Inr b" "bus_ok b [0]"
      "conn_at (bus_pool b) 0 = (newPodConnection 1 ([], [FbSuccess]))\<lparr>pc_next := Some 0\<rparr>"
    using one_pod_bus by blast
  then have "\<exists>a \<in> set [0]. \<not> doomed (conn_at (bus_pool b) a)"
    by (simp add: doomed_def failures_def newPodConnection_def highWaterMark_def)
  from bus_delivers_once [OF b(2) this] b(1) show ?thesis by blast
qed

text \<open>Property C23. The bus goroutine dies of a nil dereference exactly when every connection in
  the ring is to be removed, an empty ring included: the loop that looks for a healthy
  connection deletes the last one and then asks the empty pool for the next.\<close>

theorem bus_crashes_iff_all_doomed:
  assumes "bus_ok b as"
  shows "messageBus_handle b msg = Some (Inl NilDereference)
    \<longleftrightarrow> (\<forall>a \<in> set as. doomed (conn_at (bus_pool b) a))"
  using handle_ok [OF assms, of msg] handle_panics [OF assms, of msg]
  by (cases "\<exists>a \<in> set as. \<not> doomed (conn_at (bus_pool b) a)") auto

theorem bus_crashes_iff_all_doomed_witness:
  "\<exists>b. messageBus_addPod newMessageBus ([], [FbDisconnect]) = Inr b
    \<and> messageBus_handle b (NewMsg ''u'' 0 ''t'' []) = Some (Inl NilDereference)"
proof -
  obtain b where b: "messageBus_addPod newMessageBus ([], [FbDisconnect]) = Inr b" "bus_ok b [0]"
      "conn_at (bus_pool b) 0 = (newPodConnection 1 ([], [FbDisconnect]))\<lparr>pc_next := Some 0\<rparr>"
    using one_pod_bus by blast
  then show ?thesis
    using bus_crashes_iff_all_doomed [OF b(2), of "NewMsg ''u'' 0 ''t'' []"]
    by (simp add: doomed_def failures_def newPodConnection_def)
qed

text \<open>While no pod reports anything, the bus loop keeps every connection and hands
  every connection all messages, in the order of the bus channel.\<close>

theorem bus_broadcasts_in_order:
  assumes "quiet_bus b as"
  shows "\<exists>b' as'. messageBus_start b msgs = Some (Inr b') \<and> quiet_bus b' as' \<and> set as' = set as
    \<and> (\<forall>a \<in> set as. pc_sends (conn_at (bus_pool b') a) =
          pc_sends (conn_at (bus_pool b) a) @ map (\<lambda>m. (Spawned, Some m)) msgs)"
  using quiet_start [OF assms, of msgs] by blast

theorem bus_broadcasts_in_order_witness:
  "\<exists>b b'. messageBus_addPod newMessageBus ([], []) = Inr b
    \<and> messageBus_start b [NewMsg ''u'' 0 ''t'' [], NewMsg ''v'' 1 ''t'' []] = Some (Inr b')
    \<and> pc_sends (conn_at (bus_pool b') 0) =
        [(Spawned, Some (NewMsg ''u'' 0 ''t'' [])), (Spawned, Some (NewMsg ''v'' 1 ''t'' []))]"
proof -
  obtain b where b: "messageBus_addPod newMessageBus ([], []) = Inr b" "bus_ok b [0]"
      "conn_at (bus_pool b) 0 = (newPodConnection 1 ([], []))\<lparr>pc_next := Some 0\<rparr>"
    using one_pod_bus by blast
  then have "quiet_bus b [0]"
    by (simp add: quiet_bus_def newPodConnection_def highWaterMark_def)
  from bus_broadcasts_in_order [OF this, of "[NewMsg ''u'' 0 ''t'' [], NewMsg ''v'' 1 ''t'' []]"] b
  show ?thesis by (auto simp: newPodConnection_def)
qed

text \<open>Property C24. A pod that connects late and asks for a replay gets, at the next message, the
  last 128 messages the bus has sent, in order, and then the message itself.\<close>

theorem late_pod_replays:
  assumes "quiet_bus b as" and "bus_buffer b = NewMsgBuffer defaultBufferSize"
    and "distinct (map msg_UUID msgs)" and "unat (pl_maxID (bus_pool b)) + 1 < 2 ^ 64"
  shows "\<exists>b1 b2 b3. messageBus_start b msgs = Some (Inr b1)
    \<and> messageBus_addPod b1 ([], [FbReplay]) = Inr b2
    \<and> messageBus_handle b2 msg = Some (Inr b3)
    \<and> pc_sends (conn_at (bus_pool b3) (pl_fresh (bus_pool b1))) =
        map (\<lambda>m. (Spawned, Some m)) (keep_last 128 msgs @ [msg])"
proof -
  obtain b1 as1 where b1: "messageBus_start b msgs = Some (Inr b1)" "quiet_bus b1 as1"
      "push_seq MsgBuffer_Push (bus_buffer b) msgs = Inr (bus_buffer b1)"
      "pl_maxID (bus_pool b1) = pl_maxID (bus_pool b)"
    using quiet_start [OF assms(1), of msgs] by blast
  have log: "buffer_log (bus_buffer b1) = map Some (keep_last 128 msgs)"
    using pushes_log [of defaultBufferSize, OF _ assms(3)] b1(3) assms(2) by (simp add: defaultBufferSize_def)
  let ?n = "pl_fresh (bus_pool b1)"
  have ok1: "pool_ok (bus_pool b1) as1" using b1(2) by (simp add: quiet_bus_def bus_ok_def)
  have "unat (pl_maxID (bus_pool b1)) + 1 < 2 ^ 64" using assms(4) b1(4) by simp
  from insert_ok [OF ok1 this, of "([], [FbReplay])"]
  obtain p2 x where p2: "connectionPool_insert (bus_pool b1) ([], [FbReplay]) = Inr p2"
      "pool_ok p2 (spec_insert ?n as1)"
      "conn_at p2 ?n = (newPodConnection (pl_maxID (bus_pool b1) + 1) ([], [FbReplay]))\<lparr>pc_next := x\<rparr>"
      "\<forall>a \<in> set as1. \<exists>n. conn_at p2 a = (conn_at (bus_pool b1) a)\<lparr>pc_next := n\<rparr>"
    by blast
  let ?b2 = "b1\<lparr>bus_pool := p2\<rparr>"
  have ok2: "bus_ok ?b2 (spec_insert ?n as1)" using p2(2) b1(2) by (simp add: quiet_bus_def bus_ok_def)
  have set2: "set (spec_insert ?n as1) = insert ?n (set as1)" by (auto simp: spec_insert_def split: list.split)
  have new: "\<not> doomed (conn_at p2 ?n)"
    by (simp add: p2(3) doomed_def failures_def newPodConnection_def highWaterMark_def)
  have "\<not> doomed (conn_at p2 a)" if "a \<in> set as1" for a
    using p2(4) that quiet_not_doomed [OF b1(2) that] by force
  with new have none: "\<forall>a \<in> set (spec_insert ?n as1). \<not> doomed (conn_at (bus_pool ?b2) a)"
    by (simp add: set2)
  then obtain b3 as3 where b3: "messageBus_handle ?b2 msg = Some (Inr b3)"
      and H: "handled msg ?b2 (spec_insert ?n as1) b3 as3"
    using handle_ok [OF ok2, of msg] set2 by auto
  have "?n \<in> set as3" using H new set2 by (auto simp: handled_def)
  then have "pc_sends (conn_at (bus_pool b3) ?n) =
      pc_sends (conn_at p2 ?n) @ extras (buffer_log (bus_buffer b1)) (conn_at p2 ?n) @ [(Spawned, Some msg)]"
    using H none by (auto simp: handled_def)
  also have "\<dots> = map (\<lambda>m. (Spawned, Some m)) (keep_last 128 msgs @ [msg])"
    by (simp add: p2(3) extras_def newPodConnection_def log)
  finally show ?thesis
    using b1(1) p2(1) b3 by (auto simp: messageBus_addPod_def)
qed

theorem late_pod_replays_witness:
  "\<exists>b b1 b2 b3. messageBus_addPod newMessageBus ([], []) = Inr b
    \<and> messageBus_start b [NewMsg ''u'' 0 ''t'' []] = Some (Inr b1)
    \<and> messageBus_addPod b1 ([], [FbReplay]) = Inr b2
    \<and> messageBus_handle b2 (NewMsg ''v'' 1 ''t'' []) = Some (Inr b3)
    \<and> pc_sends (conn_at (bus_pool b3) (pl_fresh (bus_pool b1))) =
        [(Spawned, Some (NewMsg ''u'' 0 ''t'' [])), (Spawned, Some (NewMsg ''v'' 1 ''t'' []))]"
proof -
  obtain b where b: "messageBus_addPod newMessageBus ([], []) = Inr b" "bus_ok b [0]" "pl_maxID (bus_pool b) = 1"
      "bus_buffer b = NewMsgBuffer defaultBufferSize"
      "conn_at (bus_pool b) 0 = (newPodConnection 1 ([], []))\<lparr>pc_next := Some 0\<rparr>"
    using one_pod_bus by blast
  then have "quiet_bus b [0]"
    by (simp add: quiet_bus_def newPodConnection_def highWaterMark_def)
  from late_pod_replays [OF this b(4), of "[NewMsg ''u'' 0 ''t'' []]" "NewMsg ''v'' 1 ''t'' []"] b
  show ?thesis by (simp add: keep_last_def)
qed

end
