(* ===== verification/Bus_Steps.thy ===== *)
theory Bus_Steps
  imports Message_Bus
begin

text \<open>
  The bus goroutine of \<open>grav/bus.go\<close> step by step. One step is one access to what the bus shares
  with other goroutines: an operation under the pool's lock (\<open>peek\<close>, \<open>next\<close>, \<open>deleteNext\<close>), one
  receive from a feedback channel, one receive from the bus channel. Between two steps pods are
  connected and report feedback; \<open>prepareNext\<close> takes and releases the lock several times, so
  another goroutine can get in between its parts. The last section proves that the goroutine
  alone computes what the functions of \<open>Message_Bus\<close> do.
\<close>

section \<open>prepareNext in steps\<close>

text \<open>
  \<open>PnCheck\<close> is the loop of \<open>checkStatus\<close> on the peeked connection with the status so far,
  \<open>PnReturn\<close> a call that has returned. The step from \<open>PnDelete\<close> is \<open>deleteNext\<close> once \<open>disconnect\<close> has the
  write lock of the connection; \<open>bus_turn\<close> of \<open>Bus_Senders\<close> lets the goroutine wait for it, with the
  lock of the pool held, as long as a sender holds the read lock.
\<close>

datatype prep_phase =
    PnPeek
  | PnCheck addr connStatus
  | PnDelete error
  | PnReplay addr connStatus
  | PnFlush addr connStatus
  | PnReturn "error option"

definition empty_status :: connStatus where
  "empty_status = \<lparr>HadSuccess = False, WantsReplay = False, WantsDisconnect = False, StatusError = None\<rparr>"

text \<open>The end of \<open>checkStatus\<close>, when the feedback channel is empty, and the choice of \<open>prepareNext\<close>.\<close>

definition prep_decide :: "addr \<Rightarrow> connStatus \<Rightarrow> message list \<Rightarrow> prep_phase" where
  "prep_decide nxt status failed =
     (let status' = (if length failed \<ge> highWaterMark
                     then status\<lparr>StatusError := Some errFailedMessageMax\<rparr> else status)
      in if StatusError status' \<noteq> None then
           (if StatusError status' = Some errFailedMessageMax then PnDelete errRemoving
            else PnFlush nxt status')
         else if WantsDisconnect status' then PnDelete errWantsDisconnect
         else if WantsReplay status' then PnReplay nxt status'
         else PnFlush nxt status')"

fun prepareNext_step :: "msgbuffer \<Rightarrow> prep_phase \<Rightarrow> pool \<Rightarrow> (prep_phase \<times> pool) run" where
  "prepareNext_step buffer PnPeek p =
     (case connectionPool_peek p of
        Inl e \<Rightarrow> Some (Inl e)
      | Inr nxtp \<Rightarrow>
          (case go_deref nxtp of
             Inl e \<Rightarrow> Some (Inl e)
           | Inr nxt \<Rightarrow> Some (Inr (PnCheck nxt empty_status, p))))"
| "prepareNext_step buffer (PnCheck nxt status) p =
     (case load p nxt of
        Inl e \<Rightarrow> Some (Inl e)
      | Inr c \<Rightarrow>
          (case pc_feedbackChan c of
             feedbackMsg # rest \<Rightarrow>
               (case checkStatus_loop [feedbackMsg] status (pc_failed c) of
                  (status', failed) \<Rightarrow>
                    Some (Inr (PnCheck nxt status',
                      store p nxt (c\<lparr>pc_feedbackChan := rest, pc_failed := failed\<rparr>))))
           | [] \<Rightarrow> Some (Inr (prep_decide nxt status (pc_failed c), p))))"
| "prepareNext_step buffer (PnDelete err) p =
     (case connectionPool_deleteNext p of
        Inl e \<Rightarrow> Some (Inl e)
      | Inr p' \<Rightarrow> Some (Inr (PnReturn (Some err), p')))"
| "prepareNext_step buffer (PnReplay nxt status) p =
     (case connectionPool_replayNext buffer p of
        None \<Rightarrow> None
      | Some (Inl e) \<Rightarrow> Some (Inl e)
      | Some (Inr p') \<Rightarrow> Some (Inr (PnFlush nxt status, p')))"
| "prepareNext_step buffer (PnFlush nxt status) p =
     (case flush_after_success status nxt p of
        None \<Rightarrow> None
      | Some (Inl e) \<Rightarrow> Some (Inl e)
      | Some (Inr (err, p')) \<Rightarrow> Some (Inr (PnReturn err, p')))"
| "prepareNext_step buffer (PnReturn err) p = None"

section \<open>The bus goroutine in steps\<close>

text \<open>
  Where the goroutine is: in the receive of the outer loop, in the loop that prepares the first
  connection, at the call of \<open>next\<close> after it, and in \<open>traverse\<close> before the send, the peek, inside
  \<open>prepareNext\<close>, before the call of \<open>next\<close>; before the push to the buffer; or dead of a panic.
\<close>

datatype bus_phase =
    BpReceive
  | BpPrepare message prep_phase
  | BpStart message
  | BpSend message int64 "addr option"
  | BpPeek message int64
  | BpCheck message int64 "addr option" prep_phase
  | BpAdvance message int64
  | BpPush message
  | BpCrashed panic

definition in_pool :: "messageBus \<Rightarrow> ('a \<Rightarrow> bus_phase) \<Rightarrow> ('a \<times> pool) run \<Rightarrow> (bus_phase \<times> messageBus) run" where
  "in_pool b phase r =
     (case r of
        None \<Rightarrow> None
      | Some (Inl e) \<Rightarrow> Some (Inl e)
      | Some (Inr (x, p)) \<Rightarrow> Some (Inr (phase x, b\<lparr>bus_pool := p\<rparr>)))"

fun bus_goroutine :: "bus_phase \<Rightarrow> messageBus \<Rightarrow> (bus_phase \<times> messageBus) run" where
  "bus_goroutine BpReceive b =
     (case bus_busChan b of
        [] \<Rightarrow> None
      | msg # rest \<Rightarrow> Some (Inr (BpPrepare msg PnPeek, b\<lparr>bus_busChan := rest\<rparr>)))"
| "bus_goroutine (BpPrepare msg (PnReturn err)) b =
     Some (Inr (if err = None then BpStart msg else BpPrepare msg PnPeek, b))"
| "bus_goroutine (BpPrepare msg ph) b =
     in_pool b (BpPrepare msg) (prepareNext_step (bus_buffer b) ph (bus_pool b))"
| "bus_goroutine (BpStart msg) b =
     (case connectionPool_next (bus_pool b) of
        Inl e \<Rightarrow> Some (Inl e)
      | Inr (start, p) \<Rightarrow>
          (case load_id p start of
             Inl e \<Rightarrow> Some (Inl e)
           | Inr startID \<Rightarrow> Some (Inr (BpSend msg startID start, b\<lparr>bus_pool := p\<rparr>))))"
| "bus_goroutine (BpSend msg startID conn) b =
     (case go_deref conn of
        Inl e \<Rightarrow> Some (Inl e)
      | Inr x \<Rightarrow>
          (case load (bus_pool b) x of
             Inl e \<Rightarrow> Some (Inl e)
           | Inr c \<Rightarrow> Some (Inr (BpPeek msg startID,
               b\<lparr>bus_pool := store (bus_pool b) x (podConnection_send c (Some msg))\<rparr>))))"
| "bus_goroutine (BpPeek msg startID) b =
     (case connectionPool_peek (bus_pool b) of
        Inl e \<Rightarrow> Some (Inl e)
      | Inr next \<Rightarrow> Some (Inr (BpCheck msg startID next PnPeek, b)))"
| "bus_goroutine (BpCheck msg startID next (PnReturn err)) b =
     (case traverse_start_id (bus_pool b) err next startID of
        Inl e \<Rightarrow> Some (Inl e)
      | Inr startID' \<Rightarrow> Some (Inr (BpAdvance msg startID', b)))"
| "bus_goroutine (BpCheck msg startID next ph) b =
     in_pool b (BpCheck msg startID next) (prepareNext_step (bus_buffer b) ph (bus_pool b))"
| "bus_goroutine (BpAdvance msg startID) b =
     (case connectionPool_next (bus_pool b) of
        Inl e \<Rightarrow> Some (Inl e)
      | Inr (conn, p) \<Rightarrow>
          (case load_id p conn of
             Inl e \<Rightarrow> Some (Inl e)
           | Inr connID \<Rightarrow>
               Some (Inr (if startID = connID then BpPush msg else BpSend msg startID conn,
                          b\<lparr>bus_pool := p\<rparr>))))"
| "bus_goroutine (BpPush msg) b =
     (case MsgBuffer_Push (bus_buffer b) msg of
        Inl e \<Rightarrow> Some (Inl e)
      | Inr buffer' \<Rightarrow> Some (Inr (BpReceive, b\<lparr>bus_buffer := buffer'\<rparr>)))"
| "bus_goroutine (BpCrashed e) b = None"

text \<open>
  The bus with its goroutine. Two fields only record history: \<open>bs_sent\<close> lists the connections
  that \<open>traverse\<close> has sent the current message to, and connections below \<open>bs_mark\<close> were
  connected when the message was taken from the channel.
\<close>

record bus_sys =
  bs_bus :: messageBus
  bs_phase :: bus_phase
  bs_sent :: "addr list"
  bs_mark :: addr

definition sent_log :: "bus_phase \<Rightarrow> addr list \<Rightarrow> addr list" where
  "sent_log ph sent =
     (case ph of BpReceive \<Rightarrow> [] | BpSend msg startID (Some x) \<Rightarrow> sent @ [x] | _ \<Rightarrow> sent)"

definition bus_step :: "bus_sys \<Rightarrow> bus_sys option" where
  "bus_step s =
     (case bus_goroutine (bs_phase s) (bs_bus s) of
        None \<Rightarrow> None
      | Some (Inl e) \<Rightarrow> Some (s\<lparr>bs_phase := BpCrashed e\<rparr>)
      | Some (Inr (ph, b)) \<Rightarrow>
          Some (s\<lparr>bs_bus := b, bs_phase := ph, bs_sent := sent_log (bs_phase s) (bs_sent s),
                  bs_mark := (if bs_phase s = BpReceive then pl_fresh (bus_pool b) else bs_mark s)\<rparr>))"

text \<open>The goroutine alone, for \<open>n\<close> steps.\<close>

fun bus_steps :: "nat \<Rightarrow> bus_sys \<Rightarrow> bus_sys option" where
  "bus_steps 0 s = Some s"
| "bus_steps (Suc n) s = (case bus_step s of None \<Rightarrow> None | Some t \<Rightarrow> bus_steps n t)"

definition bus_runs :: "bus_sys \<Rightarrow> bus_sys \<Rightarrow> bool" where
  "bus_runs s t \<longleftrightarrow> (\<exists>n. bus_steps n s = Some t)"

section \<open>Runs of the goroutine\<close>

lemma bus_steps_add: "bus_steps (m + n) s = (case bus_steps m s of None \<Rightarrow> None | Some t \<Rightarrow> bus_steps n t)"
  by (induction m arbitrary: s) (auto split: option.split)

lemma bus_runs_refl [simp, intro]: "bus_runs s s"
  unfolding bus_runs_def by (rule exI [of _ 0]) simp

lemma bus_runs_step: "bus_step s = Some t \<Longrightarrow> bus_runs t u \<Longrightarrow> bus_runs s u"
  unfolding bus_runs_def by (metis bus_steps.simps(2) option.case(2))

lemma bus_runs_trans: "bus_runs s t \<Longrightarrow> bus_runs t u \<Longrightarrow> bus_runs s u"
  unfolding bus_runs_def by (metis bus_steps_add option.case(2))

text \<open>A goroutine that blocks or is dead has one last state.\<close>

lemma bus_steps_last:
  assumes "bus_steps m s = Some t" and "bus_step t = None"
    and "bus_steps n s = Some u" and "bus_step u = None"
  shows "t = u"
  using assms
proof (induction m arbitrary: s n)
  case 0
  then show ?case by (cases n) auto
next
  case (Suc m)
  then show ?case by (cases n) (auto split: option.splits)
qed

lemma bus_runs_last:
  "bus_runs s t \<Longrightarrow> bus_step t = None \<Longrightarrow> bus_runs s u \<Longrightarrow> bus_step u = None \<Longrightarrow> t = u"
  unfolding bus_runs_def using bus_steps_last by blast

text \<open>Reaching a phase, whatever the history fields are then.\<close>

definition gets_to :: "bus_phase \<times> messageBus \<Rightarrow> bus_phase \<times> messageBus \<Rightarrow> bool" where
  "gets_to x y \<longleftrightarrow> (\<forall>s. bs_phase s = fst x \<and> bs_bus s = snd x \<longrightarrow>
     (\<exists>t. bus_runs s t \<and> bs_phase t = fst y \<and> bs_bus t = snd y))"

lemma gets_to_refl [simp, intro]: "gets_to x x"
  unfolding gets_to_def by blast

lemma gets_to_trans: "gets_to x y \<Longrightarrow> gets_to y z \<Longrightarrow> gets_to x z"
  unfolding gets_to_def using bus_runs_trans by meson

lemma gets_to_one:
  assumes "bus_goroutine ph b = Some (Inr (ph', b'))"
  shows "gets_to (ph, b) (ph', b')"
  unfolding gets_to_def
proof (intro allI impI)
  fix s :: bus_sys
  assume s: "bs_phase s = fst (ph, b) \<and> bs_bus s = snd (ph, b)"
  then have "\<exists>t. bus_step s = Some t \<and> bs_phase t = ph' \<and> bs_bus t = b'"
    using assms by (simp add: bus_step_def)
  then show "\<exists>t. bus_runs s t \<and> bs_phase t = fst (ph', b') \<and> bs_bus t = snd (ph', b')"
    using bus_runs_step by fastforce
qed

lemma gets_to_panic:
  assumes "bus_goroutine ph b = Some (Inl e)"
  shows "gets_to (ph, b) (BpCrashed e, b)"
  unfolding gets_to_def
proof (intro allI impI)
  fix s :: bus_sys
  assume s: "bs_phase s = fst (ph, b) \<and> bs_bus s = snd (ph, b)"
  then have "\<exists>t. bus_step s = Some t \<and> bs_phase t = BpCrashed e \<and> bs_bus t = b"
    using assms by (simp add: bus_step_def)
  then show "\<exists>t. bus_runs s t \<and> bs_phase t = fst (BpCrashed e, b) \<and> bs_bus t = snd (BpCrashed e, b)"
    using bus_runs_step by fastforce
qed

lemma gets_to_next: "bus_goroutine ph b = Some (Inr (ph', b')) \<Longrightarrow> gets_to (ph', b') z \<Longrightarrow> gets_to (ph, b) z"
  using gets_to_one gets_to_trans by blast

section \<open>The goroutine alone computes the functions of the sequential model\<close>

text \<open>The two places of the code that call \<open>prepareNext\<close>.\<close>

definition prep_caller :: "(prep_phase \<Rightarrow> bus_phase) \<Rightarrow> bool" where
  "prep_caller wrap \<longleftrightarrow> (\<forall>ph b. (\<forall>err. ph \<noteq> PnReturn err) \<longrightarrow>
     bus_goroutine (wrap ph) b = in_pool b wrap (prepareNext_step (bus_buffer b) ph (bus_pool b)))"

lemma prep_caller_prepare: "prep_caller (BpPrepare msg)"
  unfolding prep_caller_def by (intro allI impI, case_tac ph) auto

lemma prep_caller_check: "prep_caller (BpCheck msg startID next)"
  unfolding prep_caller_def by (intro allI impI, case_tac ph) auto

lemma prep_step:
  assumes "prep_caller wrap" and "\<forall>err. ph \<noteq> PnReturn err"
    and "prepareNext_step (bus_buffer b) ph (bus_pool b) = Some (Inr (ph', p'))"
  shows "gets_to (wrap ph, b) (wrap ph', b\<lparr>bus_pool := p'\<rparr>)"
  using assms by (intro gets_to_one) (simp add: prep_caller_def in_pool_def)

lemma prep_panic:
  assumes "prep_caller wrap" and "\<forall>err. ph \<noteq> PnReturn err"
    and "prepareNext_step (bus_buffer b) ph (bus_pool b) = Some (Inl e)"
  shows "gets_to (wrap ph, b) (BpCrashed e, b)"
  using assms by (intro gets_to_panic) (simp add: prep_caller_def in_pool_def)

lemma checkStatus_loop_Cons:
  "checkStatus_loop (f # fs) st failed =
     (case checkStatus_loop [f] st failed of (st', failed') \<Rightarrow> checkStatus_loop fs st' failed')"
  by (cases f) (simp_all add: checkStatus_loop_eq)

text \<open>Receiving one feedback message after the other is reading the channel's contents at once.\<close>

lemma check_run:
  assumes "prep_caller wrap" and "pl_heap (bus_pool b) a = Some c"
    and "checkStatus_loop (pc_feedbackChan c) st (pc_failed c) = (st', failed')"
  shows "gets_to (wrap (PnCheck a st), b)
    (wrap (prep_decide a st' failed'),
     b\<lparr>bus_pool := store (bus_pool b) a (c\<lparr>pc_feedbackChan := [], pc_failed := failed'\<rparr>)\<rparr>)"
  using assms(2,3)
proof (induction "pc_feedbackChan c" arbitrary: b c st)
  case Nil
  have "pc_failed c = failed'" and st: "st = st'" using Nil by simp_all
  then have "c\<lparr>pc_feedbackChan := [], pc_failed := failed'\<rparr> = c" using Nil by (cases c) auto
  moreover have "store (bus_pool b) a c = bus_pool b"
    using Nil by (simp add: store_def fun_upd_idem)
  ultimately have same: "b\<lparr>bus_pool := store (bus_pool b) a (c\<lparr>pc_feedbackChan := [], pc_failed := failed'\<rparr>)\<rparr> = b"
    by simp
  have "gets_to (wrap (PnCheck a st), b) (wrap (prep_decide a st' failed'), b\<lparr>bus_pool := bus_pool b\<rparr>)"
    by (rule prep_step [OF assms(1)]) (use Nil st in \<open>simp_all split: list.split\<close>)
  then show ?case unfolding same by simp
next
  case (Cons f fs)
  obtain st1 failed1 where one: "checkStatus_loop [f] st (pc_failed c) = (st1, failed1)"
    by (cases "checkStatus_loop [f] st (pc_failed c)")
  let ?c = "c\<lparr>pc_feedbackChan := fs, pc_failed := failed1\<rparr>"
  let ?b = "b\<lparr>bus_pool := store (bus_pool b) a ?c\<rparr>"
  have "gets_to (wrap (PnCheck a st), b) (wrap (PnCheck a st1), ?b)"
    using Cons.prems(1) Cons.hyps(2) [symmetric] one assms(1) by (intro prep_step) simp_all
  moreover have "checkStatus_loop (pc_feedbackChan ?c) st1 (pc_failed ?c) = (st', failed')"
    using Cons.prems(2) Cons.hyps(2) [symmetric] one by (cases f) auto
  then have "gets_to (wrap (PnCheck a st1), ?b) (wrap (prep_decide a st' failed'),
      ?b\<lparr>bus_pool := store (bus_pool ?b) a (?c\<lparr>pc_feedbackChan := [], pc_failed := failed'\<rparr>)\<rparr>)"
    using Cons.hyps(1) [of ?c ?b st1] by simp
  ultimately show ?case using gets_to_trans by simp
qed

lemma decide_steps:
  assumes "podConnection_checkStatus c = (status, c1)"
  shows "\<exists>st failed. checkStatus_loop (pc_feedbackChan c) empty_status (pc_failed c) = (st, failed)
    \<and> c1 = c\<lparr>pc_feedbackChan := [], pc_failed := failed\<rparr>
    \<and> prep_decide a st failed =
        (if StatusError status \<noteq> None then
           (if StatusError status = Some errFailedMessageMax then PnDelete errRemoving else PnFlush a status)
         else if WantsDisconnect status then PnDelete errWantsDisconnect
         else if WantsReplay status then PnReplay a status
         else PnFlush a status)"
proof -
  obtain st failed where l: "checkStatus_loop (pc_feedbackChan c) empty_status (pc_failed c) = (st, failed)"
    by (cases "checkStatus_loop (pc_feedbackChan c) empty_status (pc_failed c)")
  then have "status = (if length failed \<ge> highWaterMark then st\<lparr>StatusError := Some errFailedMessageMax\<rparr> else st)"
      "c1 = c\<lparr>pc_feedbackChan := [], pc_failed := failed\<rparr>"
    using assms by (simp_all add: podConnection_checkStatus_def empty_status_def)
  with l show ?thesis by (simp add: prep_decide_def Let_def)
qed

text \<open>Both outcomes of \<open>prepareNext\<close>, for either caller.\<close>

definition prep_outcome :: "(prep_phase \<Rightarrow> bus_phase) \<Rightarrow> messageBus \<Rightarrow> prep_phase \<Rightarrow> panic + (error option \<times> pool) \<Rightarrow> bool" where
  "prep_outcome wrap b ph r =
     (case r of
        Inl e \<Rightarrow> \<exists>b'. gets_to (wrap ph, b) (BpCrashed e, b')
      | Inr (err, p') \<Rightarrow> gets_to (wrap ph, b) (wrap (PnReturn err), b\<lparr>bus_pool := p'\<rparr>))"

lemma prep_outcome_step:
  "gets_to (wrap ph, b) (wrap ph', b\<lparr>bus_pool := p\<rparr>) \<Longrightarrow> prep_outcome wrap (b\<lparr>bus_pool := p\<rparr>) ph' r \<Longrightarrow>
   prep_outcome wrap b ph r"
  by (cases r) (auto simp: prep_outcome_def intro: gets_to_trans [of "(wrap ph, b)" "(wrap ph', b\<lparr>bus_pool := p\<rparr>)"])

lemma outcome_delete:
  "prep_caller wrap \<Longrightarrow>
   prep_outcome wrap b (PnDelete err)
     (case connectionPool_deleteNext (bus_pool b) of Inl e \<Rightarrow> Inl e | Inr p' \<Rightarrow> Inr (Some err, p'))"
  using prep_step [of wrap "PnDelete err" b] prep_panic [of wrap "PnDelete err" b]
  by (cases "connectionPool_deleteNext (bus_pool b)") (auto simp: prep_outcome_def)

lemma outcome_deletes:
  assumes "prep_caller wrap"
    and "(case connectionPool_deleteNext (bus_pool b) of
            Inl e \<Rightarrow> Some (Inl e)
          | Inr p2 \<Rightarrow> Some (Inr (Some err, p2))) = Some r"
  shows "prep_outcome wrap b (PnDelete err) r"
  using assms(2) outcome_delete [OF assms(1), of b err] by (auto split: sum.splits)

lemma outcome_flush:
  "prep_caller wrap \<Longrightarrow> flush_after_success status nxt (bus_pool b) = Some r \<Longrightarrow>
   prep_outcome wrap b (PnFlush nxt status) r"
  using prep_step [of wrap "PnFlush nxt status" b] prep_panic [of wrap "PnFlush nxt status" b]
  by (cases r) (auto simp: prep_outcome_def)

lemma outcome_replay:
  assumes "prep_caller wrap"
    and "(case connectionPool_replayNext (bus_buffer b) (bus_pool b) of
            None \<Rightarrow> None
          | Some (Inl e) \<Rightarrow> Some (Inl e)
          | Some (Inr p2) \<Rightarrow> flush_after_success status nxt p2) = Some r"
  shows "prep_outcome wrap b (PnReplay nxt status) r"
proof (cases "connectionPool_replayNext (bus_buffer b) (bus_pool b)")
  case (Some x)
  show ?thesis
  proof (cases x)
    case (Inl e)
    then show ?thesis
      using Some assms prep_panic [of wrap "PnReplay nxt status" b] by (auto simp: prep_outcome_def)
  next
    case (Inr p2)
    have "gets_to (wrap (PnReplay nxt status), b) (wrap (PnFlush nxt status), b\<lparr>bus_pool := p2\<rparr>)"
      using Some Inr by (intro prep_step assms) simp_all
    moreover have "flush_after_success status nxt (bus_pool (b\<lparr>bus_pool := p2\<rparr>)) = Some r"
      using Some Inr assms(2) by simp
    ultimately show ?thesis
      by (rule prep_outcome_step [OF _ outcome_flush [OF assms(1)]])
  qed
qed (use assms in simp)

lemma parallel_branches:
  "ph = (if c1 then (if c2 then d1 else f) else if c3 then d2 else if c4 then r else f) \<Longrightarrow>
   (if c1 then (if c2 then D1 else F) else if c3 then D2 else if c4 then R else F) = x \<Longrightarrow>
   ph = d1 \<and> D1 = x \<or> ph = d2 \<and> D2 = x \<or> ph = r \<and> R = x \<or> ph = f \<and> F = x"
  by (simp split: if_splits)

lemma prepareNext_runs:
  assumes wrap: "prep_caller wrap" and run: "connectionPool_prepareNext (bus_buffer b) (bus_pool b) = Some r"
  shows "prep_outcome wrap b PnPeek r"
proof -
  note panic = prep_panic [OF wrap, of PnPeek b, simplified]
  consider (peek) e where "prepareNext_step (bus_buffer b) PnPeek (bus_pool b) = Some (Inl e)" "r = Inl e"
    | (nxt) nxt where "connectionPool_peek (bus_pool b) = Inr (Some nxt)"
    using run by (cases "connectionPool_peek (bus_pool b)")
      (auto simp: connectionPool_prepareNext_def go_deref_def split: option.splits)
  then show ?thesis
  proof cases
    case peek
    then show ?thesis using panic by (auto simp: prep_outcome_def)
  next
    case nxt
    have first: "gets_to (wrap PnPeek, b) (wrap (PnCheck nxt empty_status), b\<lparr>bus_pool := bus_pool b\<rparr>)"
      using nxt by (intro prep_step wrap) simp_all
    show ?thesis
    proof (cases "pl_heap (bus_pool b) nxt")
      case None
      then have "load (bus_pool b) nxt = Inl NilDereference" by (simp add: load_def)
      then have "r = Inl NilDereference" and
        "gets_to (wrap (PnCheck nxt empty_status), b) (BpCrashed NilDereference, b)"
        using run nxt prep_panic [OF wrap, of "PnCheck nxt empty_status" b]
        by (auto simp: connectionPool_prepareNext_def)
      then show ?thesis using gets_to_trans [OF first [simplified]] by (auto simp: prep_outcome_def)
    next
      case (Some c)
      obtain status c1 where cs: "podConnection_checkStatus c = (status, c1)" by (cases "podConnection_checkStatus c")
      obtain st failed where st: "checkStatus_loop (pc_feedbackChan c) empty_status (pc_failed c) = (st, failed)"
          "c1 = c\<lparr>pc_feedbackChan := [], pc_failed := failed\<rparr>"
          and decide: "prep_decide nxt st failed =
            (if StatusError status \<noteq> None then
               (if StatusError status = Some errFailedMessageMax then PnDelete errRemoving else PnFlush nxt status)
             else if WantsDisconnect status then PnDelete errWantsDisconnect
             else if WantsReplay status then PnReplay nxt status
             else PnFlush nxt status)"
        using decide_steps [OF cs, of nxt] by blast
      let ?b = "b\<lparr>bus_pool := store (bus_pool b) nxt c1\<rparr>"
      have "gets_to (wrap (PnCheck nxt empty_status), b) (wrap (prep_decide nxt st failed), ?b)"
        using check_run [OF wrap Some st(1)] st(2) by simp
      then have reach: "gets_to (wrap PnPeek, b) (wrap (prep_decide nxt st failed), ?b)"
        using first gets_to_trans by simp
      have run': "(if StatusError status \<noteq> None then
               (if StatusError status = Some errFailedMessageMax then
                  (case connectionPool_deleteNext (bus_pool ?b) of
                     Inl e \<Rightarrow> Some (Inl e)
                   | Inr p2 \<Rightarrow> Some (Inr (Some errRemoving, p2)))
                else flush_after_success status nxt (bus_pool ?b))
             else if WantsDisconnect status then
               (case connectionPool_deleteNext (bus_pool ?b) of
                  Inl e \<Rightarrow> Some (Inl e)
                | Inr p2 \<Rightarrow> Some (Inr (Some errWantsDisconnect, p2)))
             else if WantsReplay status then
               (case connectionPool_replayNext (bus_buffer ?b) (bus_pool ?b) of
                  None \<Rightarrow> None
                | Some (Inl e) \<Rightarrow> Some (Inl e)
                | Some (Inr p2) \<Rightarrow> flush_after_success status nxt p2)
             else flush_after_success status nxt (bus_pool ?b)) = Some r"
        using run nxt Some cs by (simp add: connectionPool_prepareNext_def Let_def split del: if_split cong: if_cong)
      have "prep_outcome wrap ?b (prep_decide nxt st failed) r"
        using parallel_branches [OF decide run']
        by (elim disjE conjE)
           (simp_all only: outcome_deletes [OF wrap] outcome_replay [OF wrap] outcome_flush [OF wrap])
      then show ?thesis by (rule prep_outcome_step [OF reach])
    qed
  qed
qed

definition crashes :: "bus_phase \<times> messageBus \<Rightarrow> panic \<Rightarrow> bool" where
  "crashes x e \<longleftrightarrow> (\<exists>b. gets_to x (BpCrashed e, b))"

lemma crashes_later: "gets_to x y \<Longrightarrow> crashes y e \<Longrightarrow> crashes x e"
  unfolding crashes_def using gets_to_trans by blast

lemma crashes_now: "bus_goroutine ph b = Some (Inl e) \<Longrightarrow> crashes (ph, b) e"
  unfolding crashes_def using gets_to_panic by blast

lemma crashes_next: "bus_goroutine ph b = Some (Inr (ph', b')) \<Longrightarrow> crashes (ph', b') e \<Longrightarrow> crashes (ph, b) e"
  using gets_to_one crashes_later by blast

lemma prep_crashes:
  "prep_caller wrap \<Longrightarrow> connectionPool_prepareNext (bus_buffer b) (bus_pool b) = Some (Inl e) \<Longrightarrow>
   crashes (wrap PnPeek, b) e"
  using prepareNext_runs [of wrap b] by (auto simp: prep_outcome_def crashes_def)

lemma prep_returns:
  "prep_caller wrap \<Longrightarrow> connectionPool_prepareNext (bus_buffer b) (bus_pool b) = Some (Inr (err, p)) \<Longrightarrow>
   gets_to (wrap PnPeek, b) (wrap (PnReturn err), b\<lparr>bus_pool := p\<rparr>)"
  using prepareNext_runs [of wrap b] by (auto simp: prep_outcome_def)

lemma prepare_loop_runs:
  assumes "prepare_loop buffer p = Some r" and "bus_buffer b = buffer" and "bus_pool b = p"
  shows "case r of
      Inl e \<Rightarrow> crashes (BpPrepare msg PnPeek, b) e
    | Inr p' \<Rightarrow> gets_to (BpPrepare msg PnPeek, b) (BpStart msg, b\<lparr>bus_pool := p'\<rparr>)"
  using assms(2,3)
proof (induction arbitrary: b rule: prepare_loop.raw_induct [OF _ assms(1)])
  case (1 loop buffer p r)
  show ?case
  proof (cases "connectionPool_prepareNext buffer p")
    case (Some x)
    show ?thesis
    proof (cases x)
      case (Inl e)
      with Some 1 show ?thesis using prep_crashes [OF prep_caller_prepare, of b e msg] by auto
    next
      case (Inr y)
      obtain err p1 where y: "y = (err, p1)" by (cases y)
      let ?b = "b\<lparr>bus_pool := p1\<rparr>"
      have one: "gets_to (BpPrepare msg PnPeek, b) (BpPrepare msg (PnReturn err), ?b)"
        using Some Inr y 1(3,4) by (intro prep_returns prep_caller_prepare) simp
      show ?thesis
      proof (cases "err = None")
        case True
        have "gets_to (BpPrepare msg (PnReturn err), ?b) (BpStart msg, ?b)"
          by (rule gets_to_one) (simp add: True)
        moreover have "r = Inr p1" using 1(2) Some Inr y True by simp
        ultimately show ?thesis using gets_to_trans [OF one] by simp
      next
        case False
        have "gets_to (BpPrepare msg (PnReturn err), ?b) (BpPrepare msg PnPeek, ?b)"
          by (rule gets_to_one) (simp add: False)
        then have two: "gets_to (BpPrepare msg PnPeek, b) (BpPrepare msg PnPeek, ?b)"
          by (rule gets_to_trans [OF one])
        have "loop buffer p1 = Some r" using 1(2) Some Inr y False by simp
        from 1(1) [OF this, of ?b] 1(3) show ?thesis
          using crashes_later [OF two] gets_to_trans [OF two] by (auto split: sum.splits)
      qed
    qed
  qed (use 1 in simp)
qed

text \<open>One turn of \<open>traverse\<close> and the break test after it.\<close>

definition after_turn :: "message \<Rightarrow> messageBus \<Rightarrow> int64 \<times> addr option \<times> pool \<Rightarrow> panic + (bus_phase \<times> messageBus)" where
  "after_turn msg b r =
     (case r of (startID, conn, p) \<Rightarrow>
        (case load_id p conn of
           Inl e \<Rightarrow> Inl e
         | Inr connID \<Rightarrow> Inr (if startID = connID then BpPush msg else BpSend msg startID conn,
                              b\<lparr>bus_pool := p\<rparr>)))"

lemma advance_runs:
  assumes "connectionPool_next (bus_pool b) = Inr (conn, p)"
  shows "case after_turn msg b (startID, conn, p) of
      Inl e \<Rightarrow> crashes (BpAdvance msg startID, b) e
    | Inr y \<Rightarrow> gets_to (BpAdvance msg startID, b) y"
  using assms by (auto simp: after_turn_def intro!: crashes_now gets_to_one split: sum.split)

lemma turn_runs:
  assumes "traverse_turn (bus_buffer b) msg startID conn (bus_pool b) = Some r"
  shows "case r of
      Inl e \<Rightarrow> crashes (BpSend msg startID conn, b) e
    | Inr x \<Rightarrow> (case after_turn msg b x of
                 Inl e \<Rightarrow> crashes (BpSend msg startID conn, b) e
               | Inr y \<Rightarrow> gets_to (BpSend msg startID conn, b) y)"
proof -
  let ?from = "(BpSend msg startID conn, b)"
  note T = assms [unfolded traverse_turn_def Let_def]
  consider (nil) e where "bus_goroutine (BpSend msg startID conn) b = Some (Inl e)" "r = Inl e"
    | (conn) x c where "conn = Some x" "load (bus_pool b) x = Inr c"
    using T by (cases conn; cases "load (bus_pool b) (the conn)") auto
  then show ?thesis
  proof cases
    case nil
    then show ?thesis by (simp add: crashes_now)
  next
    case conn
    let ?b1 = "b\<lparr>bus_pool := store (bus_pool b) x (podConnection_send c (Some msg))\<rparr>"
    have one: "gets_to ?from (BpPeek msg startID, ?b1)"
      using conn by (intro gets_to_one) simp
    show ?thesis
    proof (cases "connectionPool_peek (bus_pool ?b1)")
      case (Inl e)
      then have "r = Inl e" "crashes (BpPeek msg startID, ?b1) e"
        using T conn by (auto intro: crashes_now)
      then show ?thesis using crashes_later [OF one] by simp
    next
      case (Inr nxt)
      have two: "gets_to ?from (BpCheck msg startID nxt PnPeek, ?b1)"
        using Inr by (intro gets_to_trans [OF one] gets_to_one) simp
      show ?thesis
      proof (cases "connectionPool_prepareNext (bus_buffer ?b1) (bus_pool ?b1)")
        case (Some y)
        show ?thesis
        proof (cases y)
          case (Inl e)
          then have "r = Inl e" "crashes (BpCheck msg startID nxt PnPeek, ?b1) e"
            using T conn Inr Some prep_crashes [OF prep_caller_check, of ?b1] by auto
          then show ?thesis using crashes_later [OF two] by simp
        next
          case (Inr z)
          obtain err p2 where z: "z = (err, p2)" by (cases z)
          let ?b2 = "?b1\<lparr>bus_pool := p2\<rparr>"
          have three: "gets_to ?from (BpCheck msg startID nxt (PnReturn err), ?b2)"
            using Some Inr z by (intro gets_to_trans [OF two] prep_returns prep_caller_check) simp
          show ?thesis
          proof (cases "traverse_start_id p2 err nxt startID")
            case (Inl e)
            then have "r = Inl e" "crashes (BpCheck msg startID nxt (PnReturn err), ?b2) e"
              using T conn \<open>connectionPool_peek _ = _\<close> Some \<open>y = _\<close> z by (auto intro: crashes_now)
            then show ?thesis using crashes_later [OF three] by simp
          next
            case (Inr sid)
            have four: "gets_to ?from (BpAdvance msg sid, ?b2)"
              using Inr by (intro gets_to_trans [OF three] gets_to_one) simp
            show ?thesis
            proof (cases "connectionPool_next p2")
              case (Inl e)
              then have "r = Inl e" "crashes (BpAdvance msg sid, ?b2) e"
                using T conn \<open>connectionPool_peek _ = _\<close> Some \<open>y = _\<close> z \<open>traverse_start_id _ _ _ _ = _\<close>
                by (auto intro: crashes_now)
              then show ?thesis using crashes_later [OF four] by simp
            next
              case (Inr w)
              obtain conn' p3 where w: "w = (conn', p3)" by (cases w)
              then have "r = Inr (sid, conn', p3)"
                using T conn \<open>connectionPool_peek _ = _\<close> Some \<open>y = _\<close> z \<open>traverse_start_id _ _ _ _ = _\<close> Inr
                by simp
              moreover have "after_turn msg ?b2 (sid, conn', p3) = after_turn msg b (sid, conn', p3)"
                by (simp add: after_turn_def split: sum.split)
              ultimately show ?thesis
                using advance_runs [of ?b2 conn' p3 msg sid] Inr w crashes_later [OF four] gets_to_trans [OF four]
                by (auto split: sum.splits)
            qed
          qed
        qed
      qed (use T conn Inr in simp)
    qed
  qed
qed

lemma traverse_runs:
  assumes "traverse_loop buffer msg startID conn p = Some r" and "bus_buffer b = buffer" and "bus_pool b = p"
  shows "case r of
      Inl e \<Rightarrow> crashes (BpSend msg startID conn, b) e
    | Inr p' \<Rightarrow> gets_to (BpSend msg startID conn, b) (BpPush msg, b\<lparr>bus_pool := p'\<rparr>)"
  using assms(2,3)
proof (induction arbitrary: b rule: traverse_loop.raw_induct [OF _ assms(1)])
  case (1 loop buffer msg startID conn p r)
  show ?case
  proof (cases "traverse_turn buffer msg startID conn p")
    case (Some x)
    then have turn: "traverse_turn (bus_buffer b) msg startID conn (bus_pool b) = Some x"
      using 1 by simp
    show ?thesis
    proof (cases x)
      case (Inl e)
      with Some 1(2) turn_runs [OF turn] show ?thesis by auto
    next
      case (Inr y)
      obtain sid conn' p' where y: "y = (sid, conn', p')" by (cases y)
      note run = turn_runs [OF turn, unfolded Inr y, simplified after_turn_def]
      show ?thesis
      proof (cases "load_id p' conn'")
        case (Inl e)
        with Some Inr y 1(2) run show ?thesis by auto
      next
        case (Inr cid)
        show ?thesis
        proof (cases "sid = cid")
          case True
          with Some \<open>x = _\<close> y Inr 1(2) run show ?thesis by auto
        next
          case False
          let ?b = "b\<lparr>bus_pool := p'\<rparr>"
          have one: "gets_to (BpSend msg startID conn, b) (BpSend msg sid conn', ?b)"
            using run Inr False by simp
          have "loop buffer msg sid conn' p' = Some r"
            using 1(2) Some \<open>x = _\<close> y Inr False by simp
          from 1(1) [OF this, of ?b] 1(3) show ?thesis
            using crashes_later [OF one] gets_to_trans [OF one] by (auto split: sum.splits)
        qed
      qed
    qed
  qed (use 1 in simp)
qed

text \<open>The body of the bus loop.\<close>

lemma handle_runs:
  assumes "messageBus_handle b msg = Some r"
  shows "case r of
      Inl e \<Rightarrow> crashes (BpPrepare msg PnPeek, b) e
    | Inr b' \<Rightarrow> gets_to (BpPrepare msg PnPeek, b) (BpReceive, b')"
proof (cases "prepare_loop (bus_buffer b) (bus_pool b)")
  case (Some x)
  let ?from = "(BpPrepare msg PnPeek, b)"
  note H = assms [unfolded messageBus_handle_def messageBus_traverse_def]
  note loop = prepare_loop_runs [OF Some refl refl, of msg]
  show ?thesis
  proof (cases x)
    case (Inl e)
    with H Some loop show ?thesis by auto
  next
    case (Inr p1)
    let ?b1 = "b\<lparr>bus_pool := p1\<rparr>"
    have one: "gets_to ?from (BpStart msg, ?b1)" using loop Inr by simp
    show ?thesis
    proof (cases "\<exists>start p2 startID. connectionPool_next p1 = Inr (start, p2) \<and> load_id p2 start = Inr startID")
      case False
      then obtain e where "bus_goroutine (BpStart msg) ?b1 = Some (Inl e)" "r = Inl e"
        using H Some Inr by (auto split: sum.splits)
      then show ?thesis using crashes_later [OF one crashes_now] by simp
    next
      case True
      then obtain start p2 startID where n: "connectionPool_next p1 = Inr (start, p2)" "load_id p2 start = Inr startID"
        by blast
      let ?b2 = "b\<lparr>bus_pool := p2\<rparr>"
      have two: "gets_to ?from (BpSend msg startID start, ?b2)"
        using n by (intro gets_to_trans [OF one] gets_to_one) simp
      show ?thesis
      proof (cases "traverse_loop (bus_buffer b) msg startID start p2")
        case (Some y)
        have t: "case y of
            Inl e \<Rightarrow> crashes (BpSend msg startID start, ?b2) e
          | Inr p' \<Rightarrow> gets_to (BpSend msg startID start, ?b2) (BpPush msg, ?b2\<lparr>bus_pool := p'\<rparr>)"
          by (rule traverse_runs [OF Some]) simp_all
        show ?thesis
        proof (cases y)
          case (Inl e)
          then show ?thesis
            using H \<open>prepare_loop _ _ = _\<close> \<open>x = _\<close> n Some t crashes_later [OF two] by auto
        next
          case (Inr p3)
          let ?b3 = "b\<lparr>bus_pool := p3\<rparr>"
          have three: "gets_to ?from (BpPush msg, ?b3)"
            using t Inr gets_to_trans [OF two] by simp
          show ?thesis
          proof (cases "MsgBuffer_Push (bus_buffer b) msg")
            case (Inl e)
            then have "r = Inl e" "bus_goroutine (BpPush msg) ?b3 = Some (Inl e)"
              using H \<open>prepare_loop _ _ = _\<close> \<open>x = _\<close> n Some \<open>y = _\<close> by simp_all
            then show ?thesis using crashes_later [OF three crashes_now] by simp
          next
            case (Inr buf)
            then have "r = Inr (b\<lparr>bus_pool := p3, bus_buffer := buf\<rparr>)"
                "bus_goroutine (BpPush msg) ?b3 = Some (Inr (BpReceive, b\<lparr>bus_pool := p3, bus_buffer := buf\<rparr>))"
              using H \<open>prepare_loop _ _ = _\<close> \<open>x = _\<close> n Some \<open>y = _\<close> by simp_all
            then show ?thesis using gets_to_trans [OF three gets_to_one] by simp
          qed
        qed
      qed (use H \<open>prepare_loop _ _ = _\<close> \<open>x = _\<close> n in simp)
    qed
  qed
qed (use assms in \<open>simp add: messageBus_handle_def\<close>)

text \<open>Only the channel's other end adds to it.\<close>

lemma in_pool_chan: "in_pool b wrap r = Some (Inr (ph, b')) \<Longrightarrow> bus_busChan b' = bus_busChan b"
  by (auto simp: in_pool_def split: option.splits sum.splits)

fun_cases bus_goroutine_cases: "bus_goroutine ph b = Some (Inr (ph', b'))"

lemma goroutine_chan:
  "bus_goroutine ph b = Some (Inr (ph', b')) \<Longrightarrow> bus_busChan b = [] \<Longrightarrow> bus_busChan b' = []"
  by (erule bus_goroutine_cases)
     (auto dest: in_pool_chan [OF sym] split: sum.splits list.splits option.splits simp del: prepareNext_step.simps)

lemma bus_step_chan: "bus_step s = Some t \<Longrightarrow> bus_busChan (bs_bus s) = [] \<Longrightarrow> bus_busChan (bs_bus t) = []"
  by (auto simp: bus_step_def split: option.splits sum.splits dest: goroutine_chan)

lemma bus_runs_chan: "bus_runs s t \<Longrightarrow> bus_busChan (bs_bus s) = [] \<Longrightarrow> bus_busChan (bs_bus t) = []"
proof -
  have "bus_steps n s = Some t \<Longrightarrow> bus_busChan (bs_bus s) = [] \<Longrightarrow> bus_busChan (bs_bus t) = []" for n
    by (induction n arbitrary: s) (auto split: option.splits dest: bus_step_chan)
  then show "bus_runs s t \<Longrightarrow> bus_busChan (bs_bus s) = [] \<Longrightarrow> bus_busChan (bs_bus t) = []"
    by (auto simp: bus_runs_def)
qed

lemma handle_total: "bus_ok b as \<Longrightarrow> \<exists>r. messageBus_handle b msg = Some r"
  using handle_ok [of b as msg] handle_panics [of b as msg] by blast

section \<open>Properties\<close>

text \<open>Property C12. The bus goroutine, run step by step with nothing interfering, does with a message
  exactly what the function that models the loop body says: it gets back to its receive with the
  same bus, or dies of the same panic, and in no other way.\<close>

theorem goroutine_alone_is_handle:
  assumes "bus_ok b as" and "bus_busChan b = []"
    and "bs_phase s = BpPrepare msg PnPeek" and "bs_bus s = b"
  shows "(messageBus_handle b msg = Some (Inr b') \<longleftrightarrow>
      (\<exists>t. bus_runs s t \<and> bs_phase t = BpReceive \<and> bs_bus t = b'))
    \<and> (messageBus_handle b msg = Some (Inl e) \<longleftrightarrow> (\<exists>t. bus_runs s t \<and> bs_phase t = BpCrashed e))"
proof -
  obtain r where r: "messageBus_handle b msg = Some r" using handle_total [OF assms(1)] by blast
  have idle: "bus_step t = None" if "bus_runs s t" and "bs_phase t = BpReceive \<or> (\<exists>e. bs_phase t = BpCrashed e)" for t
    using bus_runs_chan [OF that(1)] that(2) assms(2,4) by (auto simp: bus_step_def)
  show ?thesis
  proof (cases r)
    case (Inl p)
    then obtain t where t: "bus_runs s t" "bs_phase t = BpCrashed p"
      using handle_runs [OF r] assms(3,4) by (auto simp: crashes_def gets_to_def)
    have only: "u = t" if "bus_runs s u" "bs_phase u = BpReceive \<or> (\<exists>e. bs_phase u = BpCrashed e)" for u
      using bus_runs_last [OF that(1) idle [OF that] t(1) idle [OF t(1)]] t(2) by auto
    have "messageBus_handle b msg \<noteq> Some (Inr b')" using r Inl by simp
    moreover have "\<not> (\<exists>u. bus_runs s u \<and> bs_phase u = BpReceive \<and> bs_bus u = b')"
      using only t(2) by (metis bus_phase.distinct(15))
    moreover have "messageBus_handle b msg = Some (Inl e) \<longleftrightarrow> p = e" using r Inl by simp
    moreover have "(\<exists>u. bus_runs s u \<and> bs_phase u = BpCrashed e) \<longleftrightarrow> p = e"
      using only t by (metis bus_phase.inject(8))
    ultimately show ?thesis by blast
  next
    case (Inr c)
    then obtain t where t: "bus_runs s t" "bs_phase t = BpReceive" "bs_bus t = c"
      using handle_runs [OF r] assms(3,4) by (auto simp: gets_to_def)
    have only: "u = t" if "bus_runs s u" "bs_phase u = BpReceive \<or> (\<exists>e. bs_phase u = BpCrashed e)" for u
      using bus_runs_last [OF that(1) idle [OF that] t(1) idle [OF t(1)]] t(2) by auto
    have "messageBus_handle b msg \<noteq> Some (Inl e)" using r Inr by simp
    moreover have "\<not> (\<exists>u. bus_runs s u \<and> bs_phase u = BpCrashed e)"
      using only t(2) by (metis bus_phase.distinct(15))
    moreover have "messageBus_handle b msg = Some (Inr b') \<longleftrightarrow> c = b'" using r Inr by simp
    moreover have "(\<exists>u. bus_runs s u \<and> bs_phase u = BpReceive \<and> bs_bus u = b') \<longleftrightarrow> c = b'"
      using only t by metis
    ultimately show ?thesis by blast
  qed
qed

theorem goroutine_alone_is_handle_witness:
  "\<exists>b b' t. messageBus_addPod newMessageBus ([], [FbSuccess]) = Inr b
    \<and> messageBus_handle b (NewMsg ''u'' 0 ''t'' []) = Some (Inr b')
    \<and> bus_runs \<lparr>bs_bus = b, bs_phase = BpPrepare (NewMsg ''u'' 0 ''t'' []) PnPeek, bs_sent = [], bs_mark = 1\<rparr> t
    \<and> bs_phase t = BpReceive \<and> bs_bus t = b'"
proof -
  let ?m = "NewMsg ''u'' 0 ''t'' []"
  obtain b where b: "messageBus_addPod newMessageBus ([], [FbSuccess]) = Inr b" "bus_ok b [0]"
      "conn_at (bus_pool b) 0 = (newPodConnection 1 ([], [FbSuccess]))\<lparr>pc_next := Some 0\<rparr>"
    using one_pod_bus by blast
  then have "\<exists>a \<in> set [0]. \<not> doomed (conn_at (bus_pool b) a)"
    by (simp add: doomed_def failures_def newPodConnection_def highWaterMark_def)
  then obtain b' where b': "messageBus_handle b ?m = Some (Inr b')"
    using handle_ok [OF b(2)] by blast
  have "bus_busChan b = []"
    using b(1) by (auto simp: messageBus_addPod_def newMessageBus_def split: sum.splits)
  from goroutine_alone_is_handle [OF b(2) this, of "\<lparr>bs_bus = b, bs_phase = BpPrepare ?m PnPeek, bs_sent = [], bs_mark = 1\<rparr>" ?m b']
    b(1) b' show ?thesis by auto
qed

end
