(* ===== verification/Bus_Interleaved.thy ===== *)
theory Bus_Interleaved
  imports Bus_Steps
begin

text \<open>
  The bus goroutine among the others: between any two of its steps pods are connected, report
  feedback, and messages are sent. The invariant of this section says where \<open>traverse\<close> is on a
  ring that grows and shrinks under it. It gives that the bus never panics as long as one pod
  stays, that its loops end, and that every connection gets the message; and it
  shows what goes wrong when a pod is connected while another is being removed. (The wait of
  \<open>deleteNext\<close> for goroutines that are writing to the connection is added in \<open>Bus_Senders\<close>.)
\<close>

section \<open>The system\<close>

datatype bus_action =
    Goroutine
  | Connect
  | Report addr feedback
  | Submit message

fun crashed :: "bus_phase \<Rightarrow> bool" where
  "crashed (BpCrashed e) = True"
| "crashed ph = False"

text \<open>
  \<open>Connect\<close> is \<open>addPod\<close> for a new pod, whose channels are empty; it is not considered after
  \<open>2^64 - 1\<close> connects. \<open>Report\<close> is a pod that writes to its feedback channel, whether or not its
  connection is still in the ring, \<open>Submit\<close> a pod that writes to the bus channel. A write to a full
  channel waits. A panic ends the whole program.
\<close>

fun bus_act :: "bus_action \<Rightarrow> bus_sys \<Rightarrow> bus_sys option" where
  "bus_act Goroutine s = bus_step s"
| "bus_act Connect s =
     (if crashed (bs_phase s) \<or> pl_maxID (bus_pool (bs_bus s)) = - 1 then None
      else (case messageBus_addPod (bs_bus s) ([], []) of
              Inl e \<Rightarrow> Some (s\<lparr>bs_phase := BpCrashed e\<rparr>)
            | Inr b \<Rightarrow> Some (s\<lparr>bs_bus := b\<rparr>)))"
| "bus_act (Report a f) s =
     (if crashed (bs_phase s) then None
      else (case pl_heap (bus_pool (bs_bus s)) a of
              None \<Rightarrow> None
            | Some c \<Rightarrow>
                if length (pc_feedbackChan c) < defaultPodChanSize then
                  Some (s\<lparr>bs_bus := (bs_bus s)\<lparr>bus_pool := store (bus_pool (bs_bus s)) a
                          (c\<lparr>pc_feedbackChan := pc_feedbackChan c @ [f]\<rparr>)\<rparr>\<rparr>)
                else None))"
| "bus_act (Submit msg) s =
     (if crashed (bs_phase s) \<or> \<not> length (bus_busChan (bs_bus s)) < defaultBusChanSize then None
      else Some (s\<lparr>bs_bus := (bs_bus s)\<lparr>bus_busChan := bus_busChan (bs_bus s) @ [msg]\<rparr>\<rparr>))"

text \<open>The pods at the addresses \<open>loyal\<close> report no failure and never ask to be disconnected.\<close>

fun allowed :: "addr set \<Rightarrow> bus_action \<Rightarrow> bool" where
  "allowed loyal (Report a f) \<longleftrightarrow> (a \<in> loyal \<longrightarrow> f = FbSuccess \<or> f = FbReplay)"
| "allowed loyal x \<longleftrightarrow> True"

inductive inter_step :: "addr set \<Rightarrow> bus_sys \<Rightarrow> bus_sys \<Rightarrow> bool" for loyal :: "addr set" where
  act: "allowed loyal x \<Longrightarrow> bus_act x s = Some t \<Longrightarrow> inter_step loyal s t"

inductive_cases inter_stepE: "inter_step loyal s t"

text \<open>A schedule of actions, for concrete runs.\<close>

fun interleave :: "bus_action list \<Rightarrow> bus_sys \<Rightarrow> bus_sys option" where
  "interleave [] s = Some s"
| "interleave (x # xs) s = (case bus_act x s of None \<Rightarrow> None | Some t \<Rightarrow> interleave xs t)"

lemma interleave_steps:
  "\<forall>x \<in> set xs. allowed loyal x \<Longrightarrow> interleave xs s = Some t \<Longrightarrow> (inter_step loyal)\<^sup>*\<^sup>* s t"
proof (induction xs arbitrary: s)
  case (Cons x xs)
  then obtain u where "bus_act x s = Some u" "interleave xs u = Some t"
    by (auto split: option.splits)
  with Cons show ?case by (auto intro: converse_rtranclp_into_rtranclp act)
qed simp

section \<open>Updates that leave the ring alone\<close>

definition touches :: "pool \<Rightarrow> addr \<Rightarrow> podConnection \<Rightarrow> bool" where
  "touches p a c \<longleftrightarrow> pl_heap p a \<noteq> None
     \<and> pc_next c = pc_next (conn_at p a) \<and> pc_ID c = pc_ID (conn_at p a)
     \<and> pc_connected c = pc_connected (conn_at p a) \<and> pc_closed c = pc_closed (conn_at p a)
     \<and> (\<exists>ys. pc_sends c = pc_sends (conn_at p a) @ ys)"

lemma touch_ok:
  assumes t: "touches p a c" and ok: "pool_ok p as"
  shows "pool_ok (store p a c) as"
proof (cases "a \<in> set as")
  case True
  then have "live (conn_at p a)" using ok by (auto simp: pool_ok_def dest: ring_live)
  with True t show ?thesis by (intro update_ok [OF ok]) (auto simp: touches_def live_def)
next
  case False
  have "links (store p a c) x = links p x" if "x \<noteq> a" for x
    using that by (auto simp: fun_eq_iff)
  then have "chain (store p a c) (xs @ [z]) = chain p (xs @ [z])" if "a \<notin> set xs" for xs z
    using that by (intro chain_cong) (auto simp: fun_eq_iff)
  then have "ring (store p a c) as"
    using ok False by (cases as) (auto simp: pool_ok_def ring_def simp flip: append_Cons)
  moreover have "ids_ok (store p a c) as"
    by (rule ids_ok_cong [of p as]) (use ok t False in \<open>auto simp: pool_ok_def touches_def\<close>)
  ultimately show ?thesis by (simp add: pool_ok_def)
qed

lemma touch_send: "pl_heap p a \<noteq> None \<Longrightarrow> touches p a (podConnection_send (conn_at p a) r)"
  by (auto simp: touches_def podConnection_send_def)

text \<open>The goroutine that hands a connection the message exists.\<close>

definition got :: "pool \<Rightarrow> message \<Rightarrow> addr \<Rightarrow> bool" where
  "got p msg a \<longleftrightarrow> pl_heap p a \<noteq> None \<and> (Spawned, Some msg) \<in> set (pc_sends (conn_at p a))"

lemma insert_keeps:
  assumes "connectionPool_insert p chans = Inr p'" and "a \<noteq> pl_fresh p"
  shows "pl_heap p' a = None \<longleftrightarrow> pl_heap p a = None"
    and "same_conn (conn_at p' a) (conn_at p a)"
    and "pl_current p \<noteq> Some a \<Longrightarrow> conn_at p' a = conn_at p a"
  using assms
  by (auto simp: connectionPool_insert_def insertAfter_def Let_def load_def go_deref_def conn_at_def
      split: option.splits sum.splits if_splits)

lemma same_conn_ID: "same_conn c d \<Longrightarrow> pc_ID c = pc_ID d"
  by (cases c; cases d) (simp add: same_conn_def)

text \<open>No update frees a connection, changes its ID, or takes back a send.\<close>

definition keeps :: "pool \<Rightarrow> pool \<Rightarrow> bool" where
  "keeps p p' \<longleftrightarrow> pl_fresh p \<le> pl_fresh p' \<and> (\<forall>a. pl_heap p a \<noteq> None \<longrightarrow> pl_heap p' a \<noteq> None
     \<and> pc_ID (conn_at p' a) = pc_ID (conn_at p a)
     \<and> set (pc_sends (conn_at p a)) \<subseteq> set (pc_sends (conn_at p' a)))"

lemma keeps_touch: "touches p a c \<Longrightarrow> keeps p (store p a c)"
  by (auto simp: keeps_def touches_def)

lemma keeps_deleted: "keeps p (deleted p x as)"
  by (auto simp: keeps_def deleted_def split: list.split)

lemma keeps_current: "keeps p (p\<lparr>pl_current := c\<rparr>)"
  by (simp add: keeps_def)

lemma keeps_insert:
  assumes "connectionPool_insert p chans = Inr p'" and "\<forall>a. pl_heap p a \<noteq> None \<longrightarrow> a < pl_fresh p"
  shows "keeps p p'"
  unfolding keeps_def
proof (intro conjI allI impI)
  show "pl_fresh p \<le> pl_fresh p'" using insert_fresh [OF assms(1)] by simp
  fix a assume a: "pl_heap p a \<noteq> None"
  then have ne: "a \<noteq> pl_fresh p" using assms(2) by blast
  note same = insert_keeps(2) [OF assms(1) ne]
  show "pl_heap p' a \<noteq> None" using insert_keeps(1) [OF assms(1) ne] a by blast
  show "pc_ID (conn_at p' a) = pc_ID (conn_at p a)" by (rule same_conn_ID [OF same])
  show "set (pc_sends (conn_at p a)) \<subseteq> set (pc_sends (conn_at p' a))"
    using same_conn_fields(1) [OF same] by simp
qed

lemma keeps_got: "keeps p p' \<Longrightarrow> got p msg a \<Longrightarrow> got p' msg a"
  by (auto simp: keeps_def got_def)

section \<open>A ring with a pod that stays\<close>

text \<open>The connection of a pod that reports only successes and requests for a replay.\<close>

definition stays :: "podConnection \<Rightarrow> bool" where
  "stays c \<longleftrightarrow> pc_failed c = [] \<and> set (pc_feedbackChan c) \<subseteq> {FbSuccess, FbReplay}"

definition good_status :: "connStatus \<Rightarrow> bool" where
  "good_status st \<longleftrightarrow> \<not> WantsDisconnect st \<and> StatusError st = None"

definition ring_inv :: "addr \<Rightarrow> messageBus \<Rightarrow> addr list \<Rightarrow> bool" where
  "ring_inv h b as \<longleftrightarrow> bus_ok b as \<and> h \<in> set as \<and> stays (conn_at (bus_pool b) h)"

text \<open>The connection behind the current one.\<close>

definition succ_of :: "addr list \<Rightarrow> addr" where
  "succ_of as = hd (tl as @ [hd as])"

lemma succ_of_mem: "as \<noteq> [] \<Longrightarrow> succ_of as \<in> set as"
  by (cases as; cases "tl as") (auto simp: succ_of_def)

lemma succ_of_Cons: "succ_of (x # xs) = hd (xs @ [x])"
  by (simp add: succ_of_def)

fun prep_inv :: "addr \<Rightarrow> addr list \<Rightarrow> prep_phase \<Rightarrow> bool" where
  "prep_inv h as (PnCheck a st) \<longleftrightarrow> a \<in> set as \<and> (if a = h then good_status st else succ_of as \<noteq> h)"
| "prep_inv h as (PnDelete e) \<longleftrightarrow> succ_of as \<noteq> h"
| "prep_inv h as (PnReplay a st) \<longleftrightarrow> a \<in> set as"
| "prep_inv h as (PnFlush a st) \<longleftrightarrow> a \<in> set as"
| "prep_inv h as ph \<longleftrightarrow> True"

lemma ring_inv_touch:
  "ring_inv h b as \<Longrightarrow> touches (bus_pool b) a c \<Longrightarrow> (a = h \<Longrightarrow> stays c) \<Longrightarrow>
   ring_inv h (b\<lparr>bus_pool := store (bus_pool b) a c\<rparr>) as"
  by (auto simp: ring_inv_def bus_ok_def touch_ok)

lemma ring_inv_heap: "ring_inv h b as \<Longrightarrow> a \<in> set as \<Longrightarrow> pl_heap (bus_pool b) a = Some (conn_at (bus_pool b) a)"
  by (auto simp: ring_inv_def bus_ok_def pool_ok_def intro: ring_heap)

lemma ring_inv_ne: "ring_inv h b as \<Longrightarrow> as \<noteq> []"
  by (auto simp: ring_inv_def)

text \<open>What bounds the number of steps: the feedback not yet received, and the parts of \<open>prepareNext\<close>.\<close>

definition unread :: "pool \<Rightarrow> addr list \<Rightarrow> nat" where
  "unread p as = sum_list (map (\<lambda>a. length (pc_feedbackChan (conn_at p a))) as)"

fun prep_rank :: "prep_phase \<Rightarrow> nat" where
  "prep_rank PnPeek = 6"
| "prep_rank (PnCheck a st) = 5"
| "prep_rank (PnDelete e) = 4"
| "prep_rank (PnReplay a st) = 4"
| "prep_rank (PnFlush a st) = 3"
| "prep_rank (PnReturn err) = (if err = None then 2 else 22)"

lemma unread_same:
  "\<forall>a \<in> set as. pc_feedbackChan (conn_at p' a) = pc_feedbackChan (conn_at p a) \<Longrightarrow> unread p' as = unread p as"
  unfolding unread_def by (induction as) auto

lemma unread_deleted: "distinct (x # y # zs) \<Longrightarrow> unread (deleted p x (y # zs)) (x # zs) \<le> unread p (x # y # zs)"
  using unread_same [of zs "deleted p x (y # zs)" p] by (auto simp: unread_def deleted_def dead_def)

lemma unread_take:
  assumes "pc_feedbackChan (conn_at p a) = f # rest" and "pc_feedbackChan c = rest"
    and "distinct as" and "a \<in> set as"
  shows "Suc (unread (store p a c) as) = unread p as"
  using assms(3,4)
proof (induction as)
  case (Cons x xs)
  show ?case
  proof (cases "x = a")
    case True
    then have "unread (store p a c) xs = unread p xs"
      using Cons.prems by (intro unread_same) auto
    with True assms(1,2) show ?thesis by (simp add: unread_def)
  next
    case False
    with Cons show ?thesis by (auto simp: unread_def)
  qed
qed simp

text \<open>
  One step inside \<open>prepareNext\<close> either updates one connection, or deletes the one behind the
  current connection, which is never the one that stays.
\<close>

definition prep_effect :: "addr \<Rightarrow> messageBus \<Rightarrow> addr list \<Rightarrow> prep_phase \<Rightarrow> prep_phase \<Rightarrow> pool \<Rightarrow> bool" where
  "prep_effect h b as ph ph' p' \<longleftrightarrow>
     (\<exists>a c. a \<in> set as \<and> touches (bus_pool b) a c \<and> p' = store (bus_pool b) a c \<and> (a = h \<longrightarrow> stays c)
        \<and> prep_inv h as ph' \<and> (\<forall>e. ph' \<noteq> PnReturn (Some e))
        \<and> unread p' as + prep_rank ph' < unread (bus_pool b) as + prep_rank ph)
     \<or> (\<exists>x y zs e. as = x # y # zs \<and> y \<noteq> h \<and> p' = deleted (bus_pool b) x (y # zs) \<and> ph = PnDelete e
        \<and> ph' = PnReturn (Some e))"

lemma touches_same: "pl_heap p a \<noteq> None \<Longrightarrow> touches p a (conn_at p a) \<and> store p a (conn_at p a) = p"
  by (auto simp: touches_def store_def conn_at_def fun_upd_idem)

lemma prep_effect_same:
  assumes "ring_inv h b as" and "prep_inv h as ph'" and "\<forall>e. ph' \<noteq> PnReturn (Some e)"
    and "prep_rank ph' < prep_rank ph"
  shows "prep_effect h b as ph ph' (bus_pool b)"
proof -
  have h: "h \<in> set as" "stays (conn_at (bus_pool b) h)" using assms(1) by (auto simp: ring_inv_def)
  then have "pl_heap (bus_pool b) h \<noteq> None" using ring_inv_heap [OF assms(1)] by simp
  from touches_same [OF this] h assms(2-4) show ?thesis
    unfolding prep_effect_def by (intro disjI1 exI [of _ h] exI [of _ "conn_at (bus_pool b) h"]) simp
qed

lemma check_step_ok:
  assumes inv: "ring_inv h b as" and ph: "prep_inv h as (PnCheck a st)"
  shows "\<exists>ph' p'. prepareNext_step (bus_buffer b) (PnCheck a st) (bus_pool b) = Some (Inr (ph', p'))
    \<and> prep_effect h b as (PnCheck a st) ph' p'"
proof -
  let ?p = "bus_pool b"
  have a: "a \<in> set as" using ph by simp
  have heap: "pl_heap ?p a = Some (conn_at ?p a)" by (rule ring_inv_heap [OF inv a])
  have ok: "stays (conn_at ?p h)" using inv by (simp add: ring_inv_def)
  show ?thesis
  proof (cases "pc_feedbackChan (conn_at ?p a)")
    case Nil
    have "prep_inv h as (prep_decide a st (pc_failed (conn_at ?p a)))"
      using ph ok by (cases "a = h")
        (auto simp: prep_decide_def Let_def good_status_def stays_def highWaterMark_def)
    moreover have "\<forall>e. prep_decide a st fs \<noteq> PnReturn (Some e)"
        "prep_rank (prep_decide a st fs) < prep_rank (PnCheck a st)" for fs
      by (simp_all add: prep_decide_def Let_def)
    ultimately have "prep_effect h b as (PnCheck a st) (prep_decide a st (pc_failed (conn_at ?p a))) ?p"
      using inv by (intro prep_effect_same) simp_all
    with Nil heap show ?thesis by auto
  next
    case (Cons f fs)
    obtain st' failed where one: "checkStatus_loop [f] st (pc_failed (conn_at ?p a)) = (st', failed)"
      by (cases "checkStatus_loop [f] st (pc_failed (conn_at ?p a))")
    let ?c = "(conn_at ?p a)\<lparr>pc_feedbackChan := fs, pc_failed := failed\<rparr>"
    have h: "good_status st' \<and> failed = []" if "a = h"
      using ph ok one Cons that by (auto simp: good_status_def stays_def)
    have "distinct as" using inv by (auto simp: ring_inv_def bus_ok_def pool_ok_def ring_def)
    then have less: "unread (store ?p a ?c) as < unread ?p as"
      using unread_take [OF Cons, of ?c as] a by simp
    have "stays ?c" if "a = h" using h [OF that] ok Cons that by (auto simp: stays_def)
    moreover have "touches ?p a ?c" using heap by (auto simp: touches_def)
    moreover have "prep_inv h as (PnCheck a st')" using ph h by auto
    ultimately have "prep_effect h b as (PnCheck a st) (PnCheck a st') (store ?p a ?c)"
      unfolding prep_effect_def using a less by (intro disjI1 exI [of _ a] exI [of _ ?c]) simp
    moreover have "prepareNext_step (bus_buffer b) (PnCheck a st) ?p = Some (Inr (PnCheck a st', store ?p a ?c))"
      using heap Cons one by (simp del: checkStatus_loop.simps)
    ultimately show ?thesis by blast
  qed
qed

lemma delete_step_ok:
  assumes inv: "ring_inv h b as" and ph: "prep_inv h as (PnDelete e)"
  shows "\<exists>ph' p'. prepareNext_step (bus_buffer b) (PnDelete e) (bus_pool b) = Some (Inr (ph', p'))
    \<and> prep_effect h b as (PnDelete e) ph' p'"
proof -
  obtain x y zs where as: "as = x # y # zs"
    using inv ph by (cases as; cases "tl as") (auto simp: ring_inv_def succ_of_def)
  have "connectionPool_deleteNext (bus_pool b) = Inr (deleted (bus_pool b) x (y # zs))"
    using inv as by (intro deleteNext_eq) (simp add: ring_inv_def bus_ok_def pool_ok_def)
  moreover have "y \<noteq> h" using ph as by (simp add: succ_of_Cons)
  ultimately show ?thesis using as by (auto simp: prep_effect_def)
qed

lemma replay_step_ok:
  assumes inv: "ring_inv h b as" and ph: "prep_inv h as (PnReplay a st)"
  shows "\<exists>ph' p'. prepareNext_step (bus_buffer b) (PnReplay a st) (bus_pool b) = Some (Inr (ph', p'))
    \<and> prep_effect h b as (PnReplay a st) ph' p'"
proof -
  let ?p = "bus_pool b" and ?log = "buffer_log (bus_buffer b)" and ?y = "succ_of as"
  obtain x xs where as: "as = x # xs" using inv by (cases as) (auto simp: ring_inv_def)
  let ?c = "(conn_at ?p ?y)\<lparr>pc_sends := pc_sends (conn_at ?p ?y) @ map (Pair Spawned) ?log\<rparr>"
  have y: "?y \<in> set as" using succ_of_mem ring_inv_ne [OF inv] by blast
  have "connectionPool_replayNext (bus_buffer b) ?p = Some (Inr (store ?p ?y ?c))"
    using inv as by (intro replayNext_ring [of ?p x xs]) (auto simp: ring_inv_def bus_ok_def pool_ok_def succ_of_Cons)
  moreover have "touches ?p ?y ?c" using ring_inv_heap [OF inv y] by (auto simp: touches_def)
  moreover have "?y = h \<longrightarrow> stays ?c" using inv by (auto simp: ring_inv_def stays_def)
  moreover have "unread (store ?p ?y ?c) as = unread ?p as" by (rule unread_same) auto
  ultimately show ?thesis
    using y ph unfolding prep_effect_def
    by (intro exI [of _ "PnFlush a st"] exI [of _ "store ?p ?y ?c"] conjI disjI1 exI [of _ ?y] exI [of _ ?c]) simp_all
qed

lemma flush_step_ok:
  assumes inv: "ring_inv h b as" and ph: "prep_inv h as (PnFlush a st)"
  shows "\<exists>ph' p'. prepareNext_step (bus_buffer b) (PnFlush a st) (bus_pool b) = Some (Inr (ph', p'))
    \<and> prep_effect h b as (PnFlush a st) ph' p'"
proof (cases "HadSuccess st")
  case False
  have "prep_effect h b as (PnFlush a st) (PnReturn None) (bus_pool b)"
    using inv by (intro prep_effect_same) simp_all
  with False show ?thesis by (simp add: flush_after_success_def)
next
  case True
  let ?p = "bus_pool b"
  let ?c = "podConnection_flushFailed (conn_at ?p a)"
  have a: "a \<in> set as" using ph by simp
  have heap: "pl_heap ?p a = Some (conn_at ?p a)" by (rule ring_inv_heap [OF inv a])
  have "touches ?p a ?c" using heap by (auto simp: touches_def flushFailed_eq)
  moreover have "a = h \<longrightarrow> stays ?c" using inv by (auto simp: ring_inv_def stays_def flushFailed_eq)
  moreover have "unread (store ?p a ?c) as = unread ?p as" by (rule unread_same) (auto simp: flushFailed_eq)
  ultimately have "prep_effect h b as (PnFlush a st) (PnReturn None) (store ?p a ?c)"
    using a unfolding prep_effect_def by (intro disjI1 exI [of _ a] exI [of _ ?c]) simp_all
  then show ?thesis using True heap by (auto simp: flush_after_success_def)
qed

lemma prep_step_ok:
  assumes inv: "ring_inv h b as" and ph: "prep_inv h as ph" and "\<forall>err. ph \<noteq> PnReturn err"
  shows "\<exists>ph' p'. prepareNext_step (bus_buffer b) ph (bus_pool b) = Some (Inr (ph', p')) \<and> prep_effect h b as ph ph' p'"
proof (cases ph)
  case PnPeek
  obtain x xs where as: "as = x # xs" using inv by (cases as) (auto simp: ring_inv_def)
  have "connectionPool_peek (bus_pool b) = Inr (Some (succ_of as))"
    using inv peek_ring [of "bus_pool b" x xs] as
    by (simp add: ring_inv_def bus_ok_def pool_ok_def succ_of_Cons)
  moreover have "succ_of as \<in> set as" using succ_of_mem ring_inv_ne [OF inv] by blast
  then have "prep_effect h b as PnPeek (PnCheck (succ_of as) empty_status) (bus_pool b)"
    using inv by (intro prep_effect_same) (simp_all add: good_status_def empty_status_def)
  ultimately show ?thesis using PnPeek by auto
next
  case (PnReturn err)
  with assms(3) show ?thesis by simp
qed (use check_step_ok [OF inv] delete_step_ok [OF inv] replay_step_ok [OF inv] flush_step_ok [OF inv] ph in blast)+

lemma ring_inv_deleted:
  assumes inv: "ring_inv h b (x # y # zs)" and y: "y \<noteq> h"
  shows "ring_inv h (b\<lparr>bus_pool := deleted (bus_pool b) x (y # zs)\<rparr>) (x # zs)"
proof -
  have "pool_ok (deleted (bus_pool b) x (y # zs)) (x # zs)"
    using inv deleted_ok [of "bus_pool b" x "y # zs"] by (simp add: ring_inv_def bus_ok_def)
  moreover have "stays (conn_at (deleted (bus_pool b) x (y # zs)) h)"
    using inv y by (auto simp: ring_inv_def deleted_def stays_def)
  ultimately show ?thesis using inv y by (auto simp: ring_inv_def bus_ok_def)
qed

lemma ring_inv_next:
  assumes inv: "ring_inv h b (x # xs)"
  shows "connectionPool_next (bus_pool b) =
      Inr (Some (hd (xs @ [x])), (bus_pool b)\<lparr>pl_current := Some (hd (xs @ [x]))\<rparr>)"
    and "ring_inv h (b\<lparr>bus_pool := (bus_pool b)\<lparr>pl_current := Some (hd (xs @ [x]))\<rparr>\<rparr>) (xs @ [x])"
  using inv next_ring [of "bus_pool b" x xs] by (auto simp: ring_inv_def bus_ok_def)

lemma ring_inv_ids:
  "ring_inv h b as \<Longrightarrow> a \<in> set as \<Longrightarrow> a' \<in> set as \<Longrightarrow>
   pc_ID (conn_at (bus_pool b) a) = pc_ID (conn_at (bus_pool b) a') \<longleftrightarrow> a = a'"
  by (rule ids_distinct) (auto simp: ring_inv_def bus_ok_def)

lemma ring_inv_load_id: "ring_inv h b as \<Longrightarrow> a \<in> set as \<Longrightarrow> load_id (bus_pool b) (Some a) = Inr (pc_ID (conn_at (bus_pool b) a))"
  by (rule load_id_ring) (auto simp: ring_inv_def bus_ok_def pool_ok_def)

lemma ring_inv_distinct: "ring_inv h b as \<Longrightarrow> distinct as"
  by (simp add: ring_inv_def bus_ok_def pool_ok_def ring_def)

lemma ring_inv_below: "ring_inv h b as \<Longrightarrow> pl_heap (bus_pool b) a \<noteq> None \<Longrightarrow> a < pl_fresh (bus_pool b)"
  unfolding ring_inv_def bus_ok_def pool_ok_def ids_ok_def by blast

section \<open>Where the traversal is\<close>

text \<open>
  The ring is \<open>x # rem @ vis\<close> from the current connection \<open>x\<close> on: \<open>vis\<close> has had its turn, or was
  connected after the message was taken from the channel; \<open>rem\<close> is still to come.
\<close>

definition trav :: "bus_sys \<Rightarrow> message \<Rightarrow> addr list \<Rightarrow> addr \<Rightarrow> addr list \<Rightarrow> addr list \<Rightarrow> bool" where
  "trav s msg as x rem vis \<longleftrightarrow> as = x # rem @ vis
     \<and> (\<forall>a \<in> set vis. a \<in> set (bs_sent s) \<or> bs_mark s \<le> a)
     \<and> (\<forall>a \<in> set (bs_sent s). got (bus_pool (bs_bus s)) msg a)
     \<and> (pl_fresh (bus_pool (bs_bus s)) = bs_mark s \<longrightarrow>
          distinct (bs_sent s) \<and> set (bs_sent s) \<inter> set rem = {})"

text \<open>The traversal ends at the connection with the ID \<open>startID\<close>: the first of \<open>vis @ [x]\<close>.\<close>

definition ends_at :: "bus_sys \<Rightarrow> int64 \<Rightarrow> addr \<Rightarrow> addr list \<Rightarrow> bool" where
  "ends_at s startID x vis \<longleftrightarrow> startID = pc_ID (conn_at (bus_pool (bs_bus s)) (hd (vis @ [x])))"

text \<open>
  The connection that \<open>traverse\<close> peeked is in the ring behind newly connected ones, \<open>ins\<close>, or it
  has been deleted.
\<close>

definition peeked_in :: "bus_sys \<Rightarrow> addr \<Rightarrow> addr \<Rightarrow> addr list \<Rightarrow> addr list \<Rightarrow> prep_phase \<Rightarrow> bool" where
  "peeked_in s nx x rem vis ph \<longleftrightarrow>
     (\<exists>ins rem2. rem = ins @ rem2 \<and> nx = hd (rem2 @ vis @ [x]) \<and> (\<forall>i \<in> set ins. bs_mark s \<le> i))
     \<and> ((\<exists>e. ph = PnReturn (Some e)) \<longrightarrow> pl_fresh (bus_pool (bs_bus s)) \<noteq> bs_mark s)"

definition peeked_gone :: "bus_sys \<Rightarrow> int64 \<Rightarrow> addr \<Rightarrow> addr list \<Rightarrow> addr \<Rightarrow> addr list \<Rightarrow> prep_phase \<Rightarrow> bool" where
  "peeked_gone s startID nx as x vis ph \<longleftrightarrow>
     nx \<notin> set as \<and> pl_heap (bus_pool (bs_bus s)) nx \<noteq> None \<and> (\<exists>e. ph = PnReturn (Some e))
     \<and> (if startID = pc_ID (conn_at (bus_pool (bs_bus s)) nx)
        then pc_next (conn_at (bus_pool (bs_bus s)) nx) = Some (hd (vis @ [x]))
        else ends_at s startID x vis)"

fun phase_inv :: "addr \<Rightarrow> bus_sys \<Rightarrow> addr list \<Rightarrow> addr list \<Rightarrow> addr list \<Rightarrow> bus_phase \<Rightarrow> bool" where
  "phase_inv h s as rem vis BpReceive \<longleftrightarrow> True"
| "phase_inv h s as rem vis (BpPrepare msg ph) \<longleftrightarrow> prep_inv h as ph \<and> bs_sent s = []"
| "phase_inv h s as rem vis (BpStart msg) \<longleftrightarrow> bs_sent s = []"
| "phase_inv h s as rem vis (BpSend msg startID conn) \<longleftrightarrow>
     (\<exists>x. conn = Some x \<and> trav s msg as x rem vis \<and> ends_at s startID x vis
        \<and> (pl_fresh (bus_pool (bs_bus s)) = bs_mark s \<longrightarrow> x \<notin> set (bs_sent s)))"
| "phase_inv h s as rem vis (BpPeek msg startID) \<longleftrightarrow>
     (\<exists>x. trav s msg as x rem vis \<and> ends_at s startID x vis \<and> x \<in> set (bs_sent s))"
| "phase_inv h s as rem vis (BpCheck msg startID next ph) \<longleftrightarrow>
     (\<exists>x nx. next = Some nx \<and> trav s msg as x rem vis \<and> x \<in> set (bs_sent s) \<and> prep_inv h as ph
        \<and> (ends_at s startID x vis \<and> peeked_in s nx x rem vis ph \<or> peeked_gone s startID nx as x vis ph))"
| "phase_inv h s as rem vis (BpAdvance msg startID) \<longleftrightarrow>
     (\<exists>x. trav s msg as x rem vis \<and> ends_at s startID x vis \<and> x \<in> set (bs_sent s))"
| "phase_inv h s as rem vis (BpPush msg) \<longleftrightarrow>
     (\<forall>a \<in> set as. a < bs_mark s \<longrightarrow> a \<in> set (bs_sent s))
     \<and> (\<forall>a \<in> set (bs_sent s). got (bus_pool (bs_bus s)) msg a)
     \<and> (pl_fresh (bus_pool (bs_bus s)) = bs_mark s \<longrightarrow> distinct (bs_sent s))"
| "phase_inv h s as rem vis (BpCrashed e) \<longleftrightarrow> False"

definition sys_inv :: "addr \<Rightarrow> bus_sys \<Rightarrow> addr list \<Rightarrow> addr list \<Rightarrow> addr list \<Rightarrow> bool" where
  "sys_inv h s as rem vis \<longleftrightarrow> ring_inv h (bs_bus s) as \<and> bs_mark s \<le> pl_fresh (bus_pool (bs_bus s))
     \<and> phase_inv h s as rem vis (bs_phase s)"

text \<open>How many steps the goroutine needs at most to get back to its receive.\<close>

fun phase_fuel :: "nat \<Rightarrow> nat \<Rightarrow> nat \<Rightarrow> bus_phase \<Rightarrow> nat" where
  "phase_fuel d n k BpReceive = 0"
| "phase_fuel d n k (BpPrepare msg ph) = d + 40 * n + 12 + prep_rank ph"
| "phase_fuel d n k (BpStart msg) = d + 40 * n + 12"
| "phase_fuel d n k (BpSend msg startID conn) = d + 20 * n + 20 * k + 10"
| "phase_fuel d n k (BpPeek msg startID) = d + 20 * n + 20 * k + 9"
| "phase_fuel d n k (BpCheck msg startID next ph) = d + 20 * n + 20 * k + prep_rank ph"
| "phase_fuel d n k (BpAdvance msg startID) = d + 20 * n + 20 * k + 1"
| "phase_fuel d n k (BpPush msg) = 1"
| "phase_fuel d n k (BpCrashed e) = 0"

definition fuel :: "bus_sys \<Rightarrow> addr list \<Rightarrow> addr list \<Rightarrow> nat" where
  "fuel s as rem = phase_fuel (unread (bus_pool (bs_bus s)) as) (length as) (length rem) (bs_phase s)"

text \<open>The goroutine makes a step, keeps the invariant, and has come closer to its receive.\<close>

definition progresses :: "addr \<Rightarrow> bus_sys \<Rightarrow> addr list \<Rightarrow> addr list \<Rightarrow> bool" where
  "progresses h s as rem \<longleftrightarrow>
     (\<exists>t as' rem' vis'. bus_step s = Some t \<and> sys_inv h t as' rem' vis' \<and> fuel t as' rem' < fuel s as rem)"

lemma progressesI:
  assumes "bs_phase s \<noteq> BpReceive" and "bus_goroutine (bs_phase s) (bs_bus s) = Some (Inr (ph, b))"
    and "t = s\<lparr>bs_bus := b, bs_phase := ph, bs_sent := sent_log (bs_phase s) (bs_sent s)\<rparr>"
    and "sys_inv h t as' rem' vis'" and "fuel t as' rem' < fuel s as rem"
  shows "progresses h s as rem"
  unfolding progresses_def using assms by (intro exI conjI) (auto simp: bus_step_def)

lemma sent_log_simps [simp]:
  "sent_log BpReceive sent = []" "sent_log (BpPrepare msg ph) sent = sent" "sent_log (BpStart msg) sent = sent"
  "sent_log (BpSend msg startID (Some x)) sent = sent @ [x]" "sent_log (BpPeek msg startID) sent = sent"
  "sent_log (BpCheck msg startID next ph) sent = sent" "sent_log (BpAdvance msg startID) sent = sent"
  "sent_log (BpPush msg) sent = sent"
  by (simp_all add: sent_log_def)

section \<open>Every step of the goroutine\<close>

lemma start_progress:
  assumes inv: "sys_inv h s as rem vis" and ph: "bs_phase s = BpStart msg"
  shows "progresses h s as rem"
proof -
  let ?b = "bs_bus s"
  have ring: "ring_inv h ?b as" using inv by (simp add: sys_inv_def)
  obtain x0 xs where as: "as = x0 # xs" using ring by (cases as) (auto simp: ring_inv_def)
  let ?x = "hd (xs @ [x0])"
  let ?b' = "?b\<lparr>bus_pool := (bus_pool ?b)\<lparr>pl_current := Some ?x\<rparr>\<rparr>"
  note nxt = ring_inv_next [OF ring [unfolded as]]
  have eq: "xs @ [x0] = ?x # tl (xs @ [x0])" by simp
  have "load_id (bus_pool ?b') (Some ?x) = Inr (pc_ID (conn_at (bus_pool ?b') ?x))"
    by (rule ring_inv_load_id [OF nxt(2)]) (rule hd_in_set, simp)
  then have run: "bus_goroutine (bs_phase s) ?b =
      Some (Inr (BpSend msg (pc_ID (conn_at (bus_pool ?b) ?x)) (Some ?x), ?b'))"
    using ph nxt(1) by simp
  have "unread (bus_pool ?b') (xs @ [x0]) = unread (bus_pool ?b) as"
    by (simp add: unread_def as)
  then show ?thesis
    using inv nxt(2) ph eq
    by (intro progressesI [OF _ run refl, where as' = "xs @ [x0]" and rem' = "tl (xs @ [x0])" and vis' = "[]"])
       (auto simp: sys_inv_def trav_def ends_at_def fuel_def as simp del: hd_append)
qed

lemma send_progress:
  assumes inv: "sys_inv h s as rem vis" and ph: "bs_phase s = BpSend msg startID conn"
  shows "progresses h s as rem"
proof -
  let ?b = "bs_bus s" and ?p = "bus_pool (bs_bus s)"
  obtain x where x: "conn = Some x" "trav s msg as x rem vis" "ends_at s startID x vis"
      "pl_fresh ?p = bs_mark s \<longrightarrow> x \<notin> set (bs_sent s)"
    using inv ph by (auto simp: sys_inv_def)
  have ring: "ring_inv h ?b as" and mark: "bs_mark s \<le> pl_fresh ?p" using inv by (simp_all add: sys_inv_def)
  let ?c = "podConnection_send (conn_at ?p x) (Some msg)"
  have mem: "x \<in> set as" using x(2) by (simp add: trav_def)
  have heap: "pl_heap ?p x = Some (conn_at ?p x)" by (rule ring_inv_heap [OF ring mem])
  have t: "touches ?p x ?c" using heap by (intro touch_send) simp
  let ?b' = "?b\<lparr>bus_pool := store ?p x ?c\<rparr>"
  let ?t = "s\<lparr>bs_bus := ?b', bs_phase := BpPeek msg startID, bs_sent := bs_sent s @ [x]\<rparr>"
  have "x = h \<Longrightarrow> stays ?c"
    using ring by (simp add: ring_inv_def stays_def podConnection_send_def)
  then have ring': "ring_inv h ?b' as" by (rule ring_inv_touch [OF ring t])
  have "got (store ?p x ?c) msg x" by (simp add: got_def)
  then have "trav ?t msg as x rem vis"
    using x ring_inv_distinct [OF ring] keeps_got [OF keeps_touch [OF t]]
    by (auto simp: trav_def)
  moreover have "ends_at ?t startID x vis" using x(3) by (simp add: ends_at_def)
  ultimately have "sys_inv h ?t as rem vis" using ring' mark by (auto simp: sys_inv_def intro!: exI [of _ x])
  moreover have "unread (store ?p x ?c) as = unread ?p as" by (rule unread_same) simp
  moreover have "bus_goroutine (bs_phase s) ?b = Some (Inr (BpPeek msg startID, ?b'))"
    using ph x(1) heap by simp
  ultimately show ?thesis
    using ph x(1) by (intro progressesI [where t = ?t]) (auto simp: fuel_def)
qed

lemma peek_progress:
  assumes inv: "sys_inv h s as rem vis" and ph: "bs_phase s = BpPeek msg startID"
  shows "progresses h s as rem"
proof -
  let ?b = "bs_bus s"
  obtain x where x: "trav s msg as x rem vis" "ends_at s startID x vis" "x \<in> set (bs_sent s)"
    using inv ph by (auto simp: sys_inv_def)
  have ring: "ring_inv h ?b as" using inv by (simp add: sys_inv_def)
  let ?nx = "hd (rem @ vis @ [x])"
  let ?t = "s\<lparr>bs_phase := BpCheck msg startID (Some ?nx) PnPeek\<rparr>"
  have as: "as = x # rem @ vis" using x(1) by (simp add: trav_def)
  have "connectionPool_peek (bus_pool ?b) = Inr (Some ?nx)"
    using ring peek_ring [of "bus_pool ?b" x "rem @ vis"] by (simp add: ring_inv_def bus_ok_def pool_ok_def as)
  then have run: "bus_goroutine (bs_phase s) ?b = Some (Inr (BpCheck msg startID (Some ?nx) PnPeek, ?b))"
    using ph by simp
  have "peeked_in ?t ?nx x rem vis PnPeek"
    unfolding peeked_in_def by (intro conjI exI [of _ "[]"] exI [of _ rem]) simp_all
  then have "sys_inv h ?t as rem vis"
    using inv x by (auto simp: sys_inv_def trav_def ends_at_def)
  then show ?thesis
    using ph by (intro progressesI [OF _ run, where t = ?t]) (auto simp: fuel_def)
qed

lemma advance_progress:
  assumes inv: "sys_inv h s as rem vis" and ph: "bs_phase s = BpAdvance msg startID"
  shows "progresses h s as rem"
proof -
  let ?b = "bs_bus s" and ?p = "bus_pool (bs_bus s)"
  obtain x where x: "trav s msg as x rem vis" "ends_at s startID x vis" "x \<in> set (bs_sent s)"
    using inv ph by (auto simp: sys_inv_def)
  have ring: "ring_inv h ?b as" and mark: "bs_mark s \<le> pl_fresh ?p" using inv by (simp_all add: sys_inv_def)
  have as: "as = x # rem @ vis" using x(1) by (simp add: trav_def)
  let ?y = "hd ((rem @ vis) @ [x])"
  let ?b' = "?b\<lparr>bus_pool := ?p\<lparr>pl_current := Some ?y\<rparr>\<rparr>"
  note nxt = ring_inv_next [OF ring [unfolded as]]
  have ymem: "?y \<in> set ((rem @ vis) @ [x])" by (rule hd_in_set) simp
  have "load_id (bus_pool ?b') (Some ?y) = Inr (pc_ID (conn_at (bus_pool ?b') ?y))"
    by (rule ring_inv_load_id [OF nxt(2) ymem])
  then have run: "bus_goroutine (bs_phase s) ?b = Some (Inr
      (if startID = pc_ID (conn_at ?p ?y) then BpPush msg else BpSend msg startID (Some ?y), ?b'))"
    using ph nxt(1) by simp
  have start: "hd (vis @ [x]) \<in> set as" using as by (cases vis) auto
  have id: "startID = pc_ID (conn_at ?p ?y) \<longleftrightarrow> rem = []"
  proof -
    have "startID = pc_ID (conn_at ?p ?y) \<longleftrightarrow> hd (vis @ [x]) = ?y"
      using x(2) ring_inv_ids [OF ring start, of ?y] ymem as by (auto simp: ends_at_def)
    moreover have "hd (vis @ [x]) \<notin> set rem"
      using ring_inv_distinct [OF ring] as by (cases vis) auto
    ultimately show ?thesis by (cases rem) auto
  qed
  have pend: "unread (bus_pool ?b') ((rem @ vis) @ [x]) = unread ?p as"
    by (simp add: unread_def as)
  show ?thesis
  proof (cases rem)
    case Nil
    let ?t = "s\<lparr>bs_bus := ?b', bs_phase := BpPush msg\<rparr>"
    have "sys_inv h ?t (vis @ [x]) [] []"
      using nxt(2) x mark Nil by (auto simp: sys_inv_def trav_def got_def)
    then show ?thesis
      using ph run id Nil as by (intro progressesI [where t = ?t]) (auto simp: fuel_def)
  next
    case (Cons r rs)
    let ?t = "s\<lparr>bs_bus := ?b', bs_phase := BpSend msg startID (Some r)\<rparr>"
    have "ends_at ?t startID r (vis @ [x])"
      using x(2) by (cases vis) (auto simp: ends_at_def)
    moreover have "trav ?t msg (r # rs @ vis @ [x]) r rs (vis @ [x])"
      using x Cons by (auto simp: trav_def got_def)
    moreover have "ring_inv h ?b' (r # rs @ vis @ [x])" using nxt(2) Cons by simp
    moreover have "pl_fresh ?p = bs_mark s \<longrightarrow> r \<notin> set (bs_sent s)"
      using x(1) Cons by (auto simp: trav_def)
    ultimately have "sys_inv h ?t (r # rs @ vis @ [x]) rs (vis @ [x])"
      using mark by (simp add: sys_inv_def)
    then show ?thesis
      using ph run id Cons pend as
      by (intro progressesI [where t = ?t and rem' = rs]) (auto simp: fuel_def)
  qed
qed

lemma push_progress:
  assumes inv: "sys_inv h s as rem vis" and ph: "bs_phase s = BpPush msg"
  shows "progresses h s as rem"
proof -
  let ?b = "bs_bus s"
  obtain buf where buf: "MsgBuffer_Push (bus_buffer ?b) msg = Inr buf" "mb_ok buf"
    using inv Push_ok [of "bus_buffer ?b" msg] by (auto simp: sys_inv_def ring_inv_def bus_ok_def)
  let ?t = "s\<lparr>bs_bus := ?b\<lparr>bus_buffer := buf\<rparr>, bs_phase := BpReceive\<rparr>"
  have "sys_inv h ?t as [] []"
    using inv buf(2) by (simp add: sys_inv_def ring_inv_def bus_ok_def)
  then show ?thesis
    using ph buf(1) by (intro progressesI [where t = ?t]) (auto simp: fuel_def)
qed

lemma deleted_simps:
  "pl_fresh (deleted p x as) = pl_fresh p"
  "pc_ID (conn_at (deleted p x as) a) = pc_ID (conn_at p a)"
  "a \<noteq> x \<Longrightarrow> pc_next (conn_at (deleted p x as) a) = pc_next (conn_at p a)"
  by (auto simp: deleted_def split: list.split)

lemma prepare_progress:
  assumes inv: "sys_inv h s as rem vis" and ph: "bs_phase s = BpPrepare msg ph"
  shows "progresses h s as rem"
proof (cases "\<exists>err. ph = PnReturn err")
  case True
  then obtain err where err: "ph = PnReturn err" by blast
  let ?t = "s\<lparr>bs_phase := (if err = None then BpStart msg else BpPrepare msg PnPeek)\<rparr>"
  have "sys_inv h ?t as rem vis" using inv ph by (simp add: sys_inv_def)
  then show ?thesis
    using ph err by (intro progressesI [where t = ?t]) (auto simp: fuel_def)
next
  case False
  let ?b = "bs_bus s" and ?p = "bus_pool (bs_bus s)"
  have ring: "ring_inv h ?b as" and pre: "prep_inv h as ph" and sent: "bs_sent s = []"
      and mark: "bs_mark s \<le> pl_fresh ?p"
    using inv ph by (simp_all add: sys_inv_def)
  obtain ph' p' where step: "prepareNext_step (bus_buffer ?b) ph ?p = Some (Inr (ph', p'))"
      and eff: "prep_effect h ?b as ph ph' p'"
    using prep_step_ok [OF ring pre] False by blast
  let ?t = "s\<lparr>bs_bus := ?b\<lparr>bus_pool := p'\<rparr>, bs_phase := BpPrepare msg ph'\<rparr>"
  have run: "bus_goroutine (bs_phase s) ?b = Some (Inr (BpPrepare msg ph', ?b\<lparr>bus_pool := p'\<rparr>))"
    using ph step prep_caller_prepare [of msg] False by (simp add: prep_caller_def in_pool_def)
  from eff consider
    (touch) a c where "touches ?p a c" "p' = store ?p a c" "a = h \<longrightarrow> stays c" "prep_inv h as ph'"
      "unread p' as + prep_rank ph' < unread ?p as + prep_rank ph"
    | (delete) x y zs e where "as = x # y # zs" "y \<noteq> h" "p' = deleted ?p x (y # zs)" "ph = PnDelete e"
      "ph' = PnReturn (Some e)"
    unfolding prep_effect_def by blast
  then show ?thesis
  proof cases
    case touch
    then have "sys_inv h ?t as rem vis"
      using ring_inv_touch [OF ring touch(1)] mark sent by (simp add: sys_inv_def)
    then show ?thesis
      using ph touch(5) sent by (intro progressesI [OF _ run, where t = ?t]) (auto simp: fuel_def)
  next
    case delete
    then have "sys_inv h ?t (x # zs) rem vis"
      using ring ring_inv_deleted [of h ?b x y zs] mark sent by (simp add: sys_inv_def)
    moreover have "unread p' (x # zs) \<le> unread ?p as"
      using ring_inv_distinct [OF ring] unread_deleted [of x y zs ?p] delete by simp
    ultimately show ?thesis
      using ph delete sent by (intro progressesI [OF _ run, where t = ?t]) (auto simp: fuel_def)
  qed
qed

text \<open>Inside \<open>prepareNext\<close> during the traversal.\<close>

lemma check_touch_progress:
  assumes inv: "sys_inv h s as rem vis" and ph: "bs_phase s = BpCheck msg startID next ph"
    and run: "bus_goroutine (bs_phase s) (bs_bus s) = Some (Inr (BpCheck msg startID next ph', (bs_bus s)\<lparr>bus_pool := p'\<rparr>))"
    and ret: "\<forall>err. ph \<noteq> PnReturn err"
    and touch: "touches (bus_pool (bs_bus s)) a c" "p' = store (bus_pool (bs_bus s)) a c" "a = h \<longrightarrow> stays c"
      "prep_inv h as ph'" "\<forall>e. ph' \<noteq> PnReturn (Some e)"
      "unread p' as + prep_rank ph' < unread (bus_pool (bs_bus s)) as + prep_rank ph"
  shows "progresses h s as rem"
proof -
  let ?t = "s\<lparr>bs_bus := (bs_bus s)\<lparr>bus_pool := p'\<rparr>, bs_phase := BpCheck msg startID next ph'\<rparr>"
  obtain x nx where x: "next = Some nx" "trav s msg as x rem vis" "x \<in> set (bs_sent s)"
      "ends_at s startID x vis" "peeked_in s nx x rem vis ph"
    using inv ph ret by (auto simp: sys_inv_def peeked_gone_def)
  have ring: "ring_inv h ((bs_bus s)\<lparr>bus_pool := p'\<rparr>) as"
    using inv touch ring_inv_touch [of h "bs_bus s" as a c] by (auto simp: sys_inv_def)
  have keep: "keeps (bus_pool (bs_bus s)) p'" using touch keeps_touch by simp
  have ids: "pc_ID (conn_at p' z) = pc_ID (conn_at (bus_pool (bs_bus s)) z)" for z
    using touch by (auto simp: touches_def)
  have "trav ?t msg as x rem vis" using x(2) keeps_got [OF keep] touch(2) by (auto simp: trav_def)
  moreover have "ends_at ?t startID x vis" using x(4) ids by (simp add: ends_at_def)
  moreover have "peeked_in ?t nx x rem vis ph'"
    using x(5) touch(2,5) by (auto simp: peeked_in_def)
  ultimately have "sys_inv h ?t as rem vis"
    using ring inv x touch by (auto simp: sys_inv_def intro!: exI [of _ x])
  then show ?thesis
    using ph touch(6) by (intro progressesI [OF _ run, where t = ?t]) (auto simp: fuel_def)
qed

lemma ring_next_of:
  assumes "ring p (x # us @ v # ws)"
  shows "pc_next (conn_at p v) = Some (hd (ws @ [x]))"
proof -
  have "chain p ((x # us) @ v # (ws @ [x]))" using assms by (simp add: ring_def)
  then have "chain p (v # (ws @ [x]))" using chain_append [of p "x # us" v "ws @ [x]"] by blast
  then have "links p v (hd (ws @ [x]))" using chain_hd [of "ws @ [x]" p v] by simp
  then show ?thesis by (auto simp: links_def conn_at_def)
qed

lemma check_delete_progress:
  assumes inv: "sys_inv h s as rem vis" and ph: "bs_phase s = BpCheck msg startID next (PnDelete e)"
    and run: "bus_goroutine (bs_phase s) (bs_bus s) =
      Some (Inr (BpCheck msg startID next (PnReturn (Some e)), (bs_bus s)\<lparr>bus_pool := p'\<rparr>))"
    and del: "as = x # y # zs" "y \<noteq> h" "p' = deleted (bus_pool (bs_bus s)) x (y # zs)"
  shows "progresses h s as rem"
proof -
  let ?p = "bus_pool (bs_bus s)"
  let ?t = "s\<lparr>bs_bus := (bs_bus s)\<lparr>bus_pool := p'\<rparr>, bs_phase := BpCheck msg startID next (PnReturn (Some e))\<rparr>"
  obtain nx where T: "next = Some nx" "trav s msg as x rem vis" "x \<in> set (bs_sent s)"
      "ends_at s startID x vis" "peeked_in s nx x rem vis (PnDelete e)"
    using inv ph del(1) by (auto simp: sys_inv_def peeked_gone_def trav_def)
  have ring: "ring_inv h (bs_bus s) as" and mark: "bs_mark s \<le> pl_fresh ?p" using inv by (simp_all add: sys_inv_def)
  have ring': "ring_inv h ((bs_bus s)\<lparr>bus_pool := p'\<rparr>) (x # zs)"
    using ring_inv_deleted [of h "bs_bus s" x y zs] ring del by simp
  have dist: "distinct (x # rem @ vis)" and as: "as = x # rem @ vis"
    using ring_inv_distinct [OF ring] T(2) by (simp_all add: trav_def)
  obtain ins rem2 where ins: "rem = ins @ rem2" "nx = hd (rem2 @ vis @ [x])" "\<forall>i \<in> set ins. bs_mark s \<le> i"
    using T(5) by (auto simp: peeked_in_def)
  have ends: "ends_at ?t startID x vs = ends_at s startID x vs" for vs
    by (simp add: ends_at_def del(3) deleted_simps)
  have sent: "\<forall>a \<in> set (bs_sent s). got p' msg a"
    using T(2) keeps_got [OF keeps_deleted] del(3) by (simp add: trav_def)
  have pend: "unread p' (x # zs) \<le> unread ?p as"
    using ring_inv_distinct [OF ring] unread_deleted [of x y zs ?p] del by simp
  have fin: "progresses h s as rem" if "sys_inv h ?t (x # zs) rem' vis'" "length rem' \<le> length rem" for rem' vis'
    using ph del(1) pend that by (intro progressesI [OF _ run, where t = ?t]) (auto simp: fuel_def)
  have yheap: "pl_heap p' y \<noteq> None"
    using ring_inv_heap [OF ring, of y] del by (auto simp: deleted_def)
  consider (new) i ins' where "ins = i # ins'" | (behind) r rs where "ins = []" "rem2 = r # rs"
    | (start) "ins = []" "rem2 = []"
    by (cases ins; cases rem2) auto
  then show ?thesis
  proof cases
    case new
    then have zs: "zs = (ins' @ rem2) @ vis" "y = i" using as del(1) ins(1) by auto
    have "pl_heap ?p i \<noteq> None" using ring_inv_heap [OF ring, of i] as ins(1) new by auto
    then have "i < pl_fresh ?p" by (rule ring_inv_below [OF ring])
    then have "bs_mark s \<noteq> pl_fresh ?p" using ins(3) new by auto
    then have "peeked_in ?t nx x (ins' @ rem2) vis (PnReturn (Some e))"
      using ins new by (auto simp: peeked_in_def del(3) deleted_simps)
    moreover have "trav ?t msg (x # zs) x (ins' @ rem2) vis"
      using T(2) sent zs ins(1) new del(3) by (auto simp: trav_def deleted_simps)
    ultimately have "sys_inv h ?t (x # zs) (ins' @ rem2) vis"
      using ring' mark T ends del(3) by (auto simp: sys_inv_def deleted_simps intro!: exI [of _ x])
    then show ?thesis by (rule fin) (simp add: ins(1) new)
  next
    case behind
    then have zs: "zs = rs @ vis" "y = r" "nx = y" using as del(1) ins by auto
    have "hd (vis @ [x]) \<noteq> y" "hd (vis @ [x]) \<in> set as"
      using dist ins(1) behind zs as by (cases vis; auto)+
    then have "startID \<noteq> pc_ID (conn_at ?p y)"
      using ring_inv_ids [OF ring, of "hd (vis @ [x])" y] T(4) del(1) by (auto simp: ends_at_def)
    then have "peeked_gone ?t startID nx (x # zs) x vis (PnReturn (Some e))"
      using dist ins(1) behind zs yheap T(4) ends by (auto simp: peeked_gone_def del(3) deleted_simps)
    moreover have "trav ?t msg (x # zs) x rs vis"
      using T(2) sent zs ins(1) behind del(3) by (auto simp: trav_def deleted_simps)
    ultimately have "sys_inv h ?t (x # zs) rs vis"
      using ring' mark T del(3) by (auto simp: sys_inv_def deleted_simps intro!: exI [of _ x])
    then show ?thesis by (rule fin) (simp add: ins(1) behind)
  next
    case start
    then have rem: "rem = []" and vis: "vis = y # zs" and nx: "nx = y" using as del(1) ins by auto
    have "pc_next (conn_at ?p y) = Some (hd (zs @ [x]))"
      using ring del(1) ring_next_of [of ?p x "[]" y zs] by (simp add: ring_inv_def bus_ok_def pool_ok_def)
    then have "pc_next (conn_at p' y) = Some (hd (zs @ [x]))"
      using dist vis by (auto simp: del(3) deleted_simps)
    moreover have "startID = pc_ID (conn_at p' y)" using T(4) vis by (simp add: ends_at_def del(3) deleted_simps)
    ultimately have "peeked_gone ?t startID nx (x # zs) x zs (PnReturn (Some e))"
      using dist vis nx yheap by (auto simp: peeked_gone_def)
    moreover have "trav ?t msg (x # zs) x [] zs"
      using T(2) sent vis del(3) rem by (auto simp: trav_def deleted_simps)
    ultimately have "sys_inv h ?t (x # zs) [] zs"
      using ring' mark T del(3) by (auto simp: sys_inv_def deleted_simps intro!: exI [of _ x])
    then show ?thesis by (rule fin) simp
  qed
qed

text \<open>The decision of \<open>traverse\<close> after \<open>prepareNext\<close> has returned.\<close>

lemma check_return_progress:
  assumes inv: "sys_inv h s as rem vis" and ph: "bs_phase s = BpCheck msg startID next (PnReturn err)"
  shows "progresses h s as rem"
proof -
  let ?b = "bs_bus s" and ?p = "bus_pool (bs_bus s)"
  obtain x nx where T: "next = Some nx" "trav s msg as x rem vis" "x \<in> set (bs_sent s)"
      and where_nx: "ends_at s startID x vis \<and> peeked_in s nx x rem vis (PnReturn err)
        \<or> peeked_gone s startID nx as x vis (PnReturn err)"
    using inv ph by (auto simp: sys_inv_def)
  have ring: "ring_inv h ?b as" and mark: "bs_mark s \<le> pl_fresh ?p" using inv by (simp_all add: sys_inv_def)
  have as: "as = x # rem @ vis" using T(2) by (simp add: trav_def)
  have dist: "distinct (x # rem @ vis)" using ring_inv_distinct [OF ring] as by simp
  have pool: "ring ?p as" using ring by (simp add: ring_inv_def bus_ok_def pool_ok_def)
  have fin: "progresses h s as rem"
    if sid: "traverse_start_id ?p err next startID = Inr sid"
      and rem': "trav s msg as x rem' vis'" "ends_at s sid x vis'"
      and len: "length rem' \<le> (if err = None then length rem else Suc (length rem))" for sid rem' vis'
  proof -
    let ?t = "s\<lparr>bs_phase := BpAdvance msg sid\<rparr>"
    have "bus_goroutine (bs_phase s) ?b = Some (Inr (BpAdvance msg sid, ?b))" using ph sid by simp
    moreover have "sys_inv h ?t as rem' vis'"
      using inv rem' T(3) by (auto simp: sys_inv_def trav_def ends_at_def)
    ultimately show ?thesis
      using ph len by (intro progressesI [where t = ?t]) (auto simp: fuel_def split: if_splits)
  qed
  have start: "hd (vis @ [x]) \<in> set as" using as by (cases vis) auto
  show ?thesis
  proof (cases err)
    case None
    then show ?thesis using where_nx fin [of startID rem vis] T(2)
      by (simp add: traverse_start_id_def peeked_gone_def)
  next
    case (Some e)
    show ?thesis
    proof (cases "peeked_gone s startID nx as x vis (PnReturn err)")
      case True
      let ?z = "hd (vis @ [x])"
      have nx: "pl_heap ?p nx = Some (conn_at ?p nx)" using True by (auto simp: peeked_gone_def conn_at_def)
      have "load_id ?p (Some ?z) = Inr (pc_ID (conn_at ?p ?z))" by (rule ring_inv_load_id [OF ring start])
      then have "traverse_start_id ?p err next startID =
          Inr (if startID = pc_ID (conn_at ?p nx) then pc_ID (conn_at ?p ?z) else startID)"
        using True Some T(1) nx
        by (simp add: traverse_start_id_def load_id_def load_next_def peeked_gone_def split: if_splits)
      then show ?thesis
        using True T(2) by (intro fin [of _ rem vis]) (auto simp: peeked_gone_def ends_at_def split: if_splits)
    next
      case False
      then have ends: "ends_at s startID x vis" and pin: "peeked_in s nx x rem vis (PnReturn err)"
        using where_nx by auto
      have late: "pl_fresh ?p \<noteq> bs_mark s" using pin Some by (simp add: peeked_in_def)
      obtain ins rem2 where ins: "rem = ins @ rem2" "nx = hd (rem2 @ vis @ [x])" "\<forall>i \<in> set ins. bs_mark s \<le> i"
        using pin by (auto simp: peeked_in_def)
      have nx: "nx \<in> set as" unfolding as ins(1,2) by (cases rem2; cases vis) auto
      have lid: "load_id ?p (Some nx) = Inr (pc_ID (conn_at ?p nx))" by (rule ring_inv_load_id [OF ring nx])
      show ?thesis
      proof (cases "nx = hd (vis @ [x])")
        case False
        then have "startID \<noteq> pc_ID (conn_at ?p nx)"
          using ends ring_inv_ids [OF ring start nx] by (simp add: ends_at_def)
        then have "traverse_start_id ?p err next startID = Inr startID"
          using Some T(1) lid by (simp add: traverse_start_id_def)
        then show ?thesis using T(2) ends by (intro fin) auto
      next
        case True
        have heap: "pl_heap ?p nx = Some (conn_at ?p nx)" by (rule ring_inv_heap [OF ring nx])
        have sid: "traverse_start_id ?p err next startID = Inr (pc_ID (conn_at ?p z))"
          if "pc_next (conn_at ?p nx) = Some z" "z \<in> set as" for z
          using ends True Some T(1) lid heap that ring_inv_load_id [OF ring that(2)]
          by (simp add: traverse_start_id_def ends_at_def load_next_def)
        show ?thesis
        proof (cases vis)
          case (Cons v vs)
          then have "pc_next (conn_at ?p nx) = Some (hd (vs @ [x]))"
            using pool as True ring_next_of [of ?p x rem v vs] by simp
          moreover have "hd (vs @ [x]) \<in> set as" using as Cons by (cases vs) auto
          ultimately have "traverse_start_id ?p err next startID = Inr (pc_ID (conn_at ?p (hd (vs @ [x]))))"
            by (rule sid)
          moreover have "trav s msg as x (rem @ [v]) vs" using T(2) Cons late by (auto simp: trav_def)
          ultimately show ?thesis using Some by (intro fin [where rem' = "rem @ [v]" and vis' = vs]) (auto simp: ends_at_def)
        next
          case Nil
          then have x: "nx = x" "rem2 = []" using True ins dist by (cases rem2; auto)+
          have "pc_next (conn_at ?p nx) = Some (hd (rem @ [x]))"
            using pool as Nil x ring_next(2) [of ?p x rem] by simp
          moreover have "hd (rem @ [x]) \<in> set as" using as by (cases rem) auto
          ultimately have "traverse_start_id ?p err next startID = Inr (pc_ID (conn_at ?p (hd (rem @ [x]))))"
            by (rule sid)
          moreover have "trav s msg as x [] rem" using T(2) Nil late ins x by (auto simp: trav_def)
          ultimately show ?thesis by (intro fin [where rem' = "[]" and vis' = rem]) (auto simp: ends_at_def)
        qed
      qed
    qed
  qed
qed

lemma check_progress:
  assumes inv: "sys_inv h s as rem vis" and ph: "bs_phase s = BpCheck msg startID next ph"
  shows "progresses h s as rem"
proof (cases "\<exists>err. ph = PnReturn err")
  case True
  then show ?thesis using check_return_progress [OF inv] ph by blast
next
  case False
  let ?b = "bs_bus s"
  have "ring_inv h ?b as" "prep_inv h as ph" using inv ph by (auto simp: sys_inv_def)
  then obtain ph' p' where step: "prepareNext_step (bus_buffer ?b) ph (bus_pool ?b) = Some (Inr (ph', p'))"
      and eff: "prep_effect h ?b as ph ph' p'"
    using prep_step_ok [of h ?b as ph] False by blast
  have run: "bus_goroutine (bs_phase s) ?b = Some (Inr (BpCheck msg startID next ph', ?b\<lparr>bus_pool := p'\<rparr>))"
    using ph step prep_caller_check [of msg startID "next"] False by (simp add: prep_caller_def in_pool_def)
  from eff consider
    (touch) a c where "touches (bus_pool ?b) a c" "p' = store (bus_pool ?b) a c" "a = h \<longrightarrow> stays c" "prep_inv h as ph'"
      "\<forall>e. ph' \<noteq> PnReturn (Some e)" "unread p' as + prep_rank ph' < unread (bus_pool ?b) as + prep_rank ph"
    | (delete) x y zs e where "as = x # y # zs" "y \<noteq> h" "p' = deleted (bus_pool ?b) x (y # zs)" "ph = PnDelete e"
      "ph' = PnReturn (Some e)"
    unfolding prep_effect_def by blast
  then show ?thesis
  proof cases
    case touch
    from check_touch_progress [OF inv ph run] touch False show ?thesis by blast
  next
    case delete
    with check_delete_progress [OF inv, of msg startID "next" e p' x y zs] ph run show ?thesis by simp
  qed
qed

text \<open>The whole goroutine: whatever the others have done, it makes a step towards its receive.\<close>

lemma goroutine_progress:
  assumes "sys_inv h s as rem vis" and "bs_phase s \<noteq> BpReceive"
  shows "progresses h s as rem"
proof (cases "bs_phase s")
  case (BpPrepare msg ph)
  then show ?thesis by (rule prepare_progress [OF assms(1)])
next
  case (BpStart msg)
  then show ?thesis by (rule start_progress [OF assms(1)])
next
  case (BpSend msg startID conn)
  then show ?thesis by (rule send_progress [OF assms(1)])
next
  case (BpPeek msg startID)
  then show ?thesis by (rule peek_progress [OF assms(1)])
next
  case (BpCheck msg startID nxt ph)
  then show ?thesis by (rule check_progress [OF assms(1)])
next
  case (BpAdvance msg startID)
  then show ?thesis by (rule advance_progress [OF assms(1)])
next
  case (BpPush msg)
  then show ?thesis by (rule push_progress [OF assms(1)])
qed (use assms in \<open>simp_all add: sys_inv_def\<close>)

section \<open>Every step of the others\<close>

lemma phase_inv_cong:
  assumes "bus_pool (bs_bus t) = bus_pool (bs_bus s)" and "bs_sent t = bs_sent s" and "bs_mark t = bs_mark s"
  shows "phase_inv h t as rem vis ph = phase_inv h s as rem vis ph"
  using assms by (cases ph) (simp_all add: trav_def ends_at_def peeked_in_def peeked_gone_def)

lemma receive_ok:
  assumes inv: "sys_inv h s as rem vis" and ph: "bs_phase s = BpReceive" and step: "bus_step s = Some t"
  shows "sys_inv h t as [] []"
proof -
  obtain msg rest where "bus_busChan (bs_bus s) = msg # rest"
    using ph step by (auto simp: bus_step_def split: list.splits)
  with ph step have "t = s\<lparr>bs_bus := (bs_bus s)\<lparr>bus_busChan := rest\<rparr>, bs_phase := BpPrepare msg PnPeek,
      bs_sent := [], bs_mark := pl_fresh (bus_pool (bs_bus s))\<rparr>"
    by (simp add: bus_step_def)
  with inv show ?thesis by (simp add: sys_inv_def ring_inv_def bus_ok_def)
qed

lemma submit_ok:
  assumes "sys_inv h s as rem vis"
  shows "sys_inv h (s\<lparr>bs_bus := (bs_bus s)\<lparr>bus_busChan := chan\<rparr>\<rparr>) as rem vis"
  using assms phase_inv_cong [of "s\<lparr>bs_bus := (bs_bus s)\<lparr>bus_busChan := chan\<rparr>\<rparr>" s h as rem vis "bs_phase s"]
  by (simp add: sys_inv_def ring_inv_def bus_ok_def)

lemma report_ok:
  assumes inv: "sys_inv h s as rem vis" and t: "touches (bus_pool (bs_bus s)) a c" and h: "a = h \<Longrightarrow> stays c"
  shows "sys_inv h (s\<lparr>bs_bus := (bs_bus s)\<lparr>bus_pool := store (bus_pool (bs_bus s)) a c\<rparr>\<rparr>) as rem vis"
proof -
  let ?p = "bus_pool (bs_bus s)"
  let ?t = "s\<lparr>bs_bus := (bs_bus s)\<lparr>bus_pool := store ?p a c\<rparr>\<rparr>"
  have same: "pc_ID (conn_at (store ?p a c) z) = pc_ID (conn_at ?p z)"
      "pc_next (conn_at (store ?p a c) z) = pc_next (conn_at ?p z)"
      "pl_heap ?p z \<noteq> None \<Longrightarrow> pl_heap (store ?p a c) z \<noteq> None" for z
    using t by (auto simp: touches_def)
  note got = keeps_got [OF keeps_touch [OF t]]
  have trav: "trav s msg as x rem vis \<Longrightarrow> trav ?t msg as x rem vis" for msg x
    using got by (auto simp: trav_def)
  have ends: "ends_at ?t startID x vis = ends_at s startID x vis" for startID x
    using same(1) by (simp add: ends_at_def)
  have pin: "peeked_in ?t nx x rem vis ph = peeked_in s nx x rem vis ph" for nx x ph
    by (simp add: peeked_in_def)
  have gone: "peeked_gone s startID nx as x vis ph \<Longrightarrow> peeked_gone ?t startID nx as x vis ph" for startID nx x ph
    using same ends [of startID x] by (simp add: peeked_gone_def del: store_simps conn_at_simps)
  have "phase_inv h s as rem vis ph \<Longrightarrow> phase_inv h ?t as rem vis ph" for ph
  proof (cases ph)
    case (BpCheck msg startID nxt pph)
    assume "phase_inv h s as rem vis ph"
    with BpCheck obtain x nx where "nxt = Some nx \<and> trav s msg as x rem vis \<and> x \<in> set (bs_sent s)
        \<and> prep_inv h as pph
        \<and> (ends_at s startID x vis \<and> peeked_in s nx x rem vis pph \<or> peeked_gone s startID nx as x vis pph)"
      by auto
    then have "nxt = Some nx \<and> trav ?t msg as x rem vis \<and> x \<in> set (bs_sent ?t) \<and> prep_inv h as pph
        \<and> (ends_at ?t startID x vis \<and> peeked_in ?t nx x rem vis pph \<or> peeked_gone ?t startID nx as x vis pph)"
      using trav [of msg x] gone [of startID nx x pph] by (auto simp: ends pin)
    with BpCheck show ?thesis by auto
  qed (use got in \<open>auto simp: ends dest: trav\<close>)
  then show ?thesis
    using inv ring_inv_touch [of h "bs_bus s" as a c] t h by (simp add: sys_inv_def)
qed

lemma prep_inv_insert:
  "prep_inv h (x # xs) ph \<Longrightarrow> n \<noteq> h \<Longrightarrow> prep_inv h (x # n # xs) ph"
  by (cases ph) (auto simp: succ_of_Cons)

lemma unat_not_max: "(w :: int64) \<noteq> - 1 \<Longrightarrow> unat w + 1 < 2 ^ 64"
proof -
  assume "w \<noteq> - 1"
  then have "1 + w \<noteq> 0" by (metis add.inverse_unique)
  then have "unat (1 + w) = Suc (unat w)" by (rule unatSuc)
  moreover have "unat (1 + w) < 2 ^ 64" by (rule order.strict_trans2 [OF unsigned_less]) simp
  ultimately show ?thesis by simp
qed

lemma connect_ok:
  assumes inv: "sys_inv h s as rem vis" and bound: "unat (pl_maxID (bus_pool (bs_bus s))) + 1 < 2 ^ 64"
  shows "\<exists>b rem' as'. messageBus_addPod (bs_bus s) chans = Inr b \<and> sys_inv h (s\<lparr>bs_bus := b\<rparr>) as' rem' vis"
proof -
  let ?b = "bs_bus s" and ?p = "bus_pool (bs_bus s)" and ?n = "pl_fresh (bus_pool (bs_bus s))"
  have ring: "ring_inv h ?b as" and mark: "bs_mark s \<le> ?n" using inv by (simp_all add: sys_inv_def)
  obtain x xs where as: "as = x # xs" using ring by (cases as) (auto simp: ring_inv_def)
  have ok: "pool_ok ?p as" using ring by (simp add: ring_inv_def bus_ok_def)
  obtain p' where ins: "connectionPool_insert ?p chans = Inr p'" and ok': "pool_ok p' (spec_insert ?n as)"
    using insert_ok [OF ok bound] by blast
  have below: "\<forall>a. pl_heap ?p a \<noteq> None \<longrightarrow> a < ?n" using ring_inv_below [OF ring] by blast
  have heap: "a \<in> set as \<Longrightarrow> pl_heap ?p a \<noteq> None" for a using ring_inv_heap [OF ring] by simp
  have old: "a \<in> set as \<Longrightarrow> a \<noteq> ?n" for a using below heap by blast
  have fresh: "pl_fresh p' = Suc ?n" by (rule insert_fresh [OF ins])
  have keep: "keeps ?p p'" by (rule keeps_insert [OF ins below])
  have h: "h \<in> set as" "stays (conn_at ?p h)" using ring by (simp_all add: ring_inv_def)
  have "same_conn (conn_at p' h) (conn_at ?p h)" by (rule insert_keeps(2) [OF ins old [OF h(1)]])
  then have "stays (conn_at p' h)" using h(2) same_conn_fields(4,5) by (simp add: stays_def)
  then have ring': "ring_inv h (?b\<lparr>bus_pool := p'\<rparr>) (x # ?n # xs)"
    using ok' ring as by (auto simp: ring_inv_def bus_ok_def spec_insert_def)
  let ?t = "s\<lparr>bs_bus := ?b\<lparr>bus_pool := p'\<rparr>\<rparr>"
  have prep: "prep_inv h as ph \<Longrightarrow> prep_inv h (x # ?n # xs) ph" for ph
    using prep_inv_insert [of h x xs ph ?n] as old [OF h(1)] by simp
  have trav: "trav ?t msg (x # ?n # xs) y (?n # rem) vis" if "trav s msg as y rem vis" for msg y
    using that keeps_got [OF keep] mark fresh as by (auto simp: trav_def)
  have ids: "pc_ID (conn_at p' a) = pc_ID (conn_at ?p a)" if "pl_heap ?p a \<noteq> None" for a
    using keep that by (simp add: keeps_def)
  have ends: "ends_at ?t startID y vis \<longleftrightarrow> ends_at s startID y vis" if "trav s msg as y rem vis" for startID msg y
  proof -
    have "hd (vis @ [y]) \<in> set as" using that by (cases vis) (auto simp: trav_def)
    then show ?thesis using ids heap by (simp add: ends_at_def)
  qed
  have pin: "peeked_in ?t nx y (?n # rem) vis ph" if peeked: "peeked_in s nx y rem vis ph" for nx y ph
  proof -
    obtain ins rem2 where "rem = ins @ rem2" "nx = hd (rem2 @ vis @ [y])" "\<forall>i \<in> set ins. bs_mark s \<le> i"
      using peeked by (auto simp: peeked_in_def)
    then have "?n # rem = (?n # ins) @ rem2 \<and> nx = hd (rem2 @ vis @ [y]) \<and> (\<forall>i \<in> set (?n # ins). bs_mark s \<le> i)"
      using mark by simp
    then have "\<exists>ins rem2. ?n # rem = ins @ rem2 \<and> nx = hd (rem2 @ vis @ [y]) \<and> (\<forall>i \<in> set ins. bs_mark s \<le> i)"
      by blast
    then show ?thesis using mark fresh by (auto simp: peeked_in_def)
  qed
  have gone: "peeked_gone ?t startID nx (x # ?n # xs) y vis ph"
    if "peeked_gone s startID nx as y vis ph" "trav s msg as y rem vis" for startID nx y ph msg
  proof -
    have nx: "nx \<notin> set as" "pl_heap ?p nx \<noteq> None" using that(1) by (auto simp: peeked_gone_def)
    then have "nx \<noteq> ?n" using below by blast
    moreover have "pl_current ?p \<noteq> Some nx"
      using ok nx(1) as by (auto simp: pool_ok_def ring_def)
    ultimately have "conn_at p' nx = conn_at ?p nx" "pl_heap p' nx \<noteq> None"
      using insert_keeps(3,1) [OF ins] nx(2) by auto
    then show ?thesis
      using that(1) ends [OF that(2)] \<open>nx \<noteq> ?n\<close> as by (simp add: peeked_gone_def)
  qed
  have "\<exists>rem'. phase_inv h ?t (x # ?n # xs) rem' vis (bs_phase s)"
    using inv unfolding sys_inv_def
  proof (cases "bs_phase s")
    case (BpSend msg startID conn)
    then show ?thesis using inv trav ends fresh mark by (intro exI [of _ "?n # rem"]) (auto simp: sys_inv_def)
  next
    case (BpPeek msg startID)
    then show ?thesis using inv trav ends by (intro exI [of _ "?n # rem"]) (fastforce simp: sys_inv_def)
  next
    case (BpAdvance msg startID)
    then show ?thesis using inv trav ends by (intro exI [of _ "?n # rem"]) (fastforce simp: sys_inv_def)
  next
    case (BpCheck msg startID "next" ph)
    then obtain y nx where c: "next = Some nx" "trav s msg as y rem vis" "y \<in> set (bs_sent s)" "prep_inv h as ph"
        "ends_at s startID y vis \<and> peeked_in s nx y rem vis ph \<or> peeked_gone s startID nx as y vis ph"
      using inv by (auto simp: sys_inv_def)
    then have "ends_at ?t startID y vis \<and> peeked_in ?t nx y (?n # rem) vis ph
        \<or> peeked_gone ?t startID nx (x # ?n # xs) y vis ph"
      using ends [OF c(2)] pin gone [OF _ c(2)] by blast
    then show ?thesis
      using BpCheck c trav prep by (intro exI [of _ "?n # rem"]) auto
  next
    case (BpPush msg)
    then show ?thesis using inv keeps_got [OF keep] as fresh mark by (auto simp: sys_inv_def)
  qed (use inv prep in \<open>auto simp: sys_inv_def\<close>)
  then obtain rem' where "sys_inv h ?t (x # ?n # xs) rem' vis"
    using ring' mark fresh by (auto simp: sys_inv_def)
  moreover have "messageBus_addPod ?b chans = Inr (?b\<lparr>bus_pool := p'\<rparr>)"
    by (simp add: messageBus_addPod_def ins)
  ultimately show ?thesis by blast
qed

section \<open>All interleavings\<close>

definition inter_init :: "addr \<Rightarrow> bus_sys \<Rightarrow> bool" where
  "inter_init h s \<longleftrightarrow> bs_phase s = BpReceive \<and> bs_mark s = 0 \<and> (\<exists>as. ring_inv h (bs_bus s) as)"

definition inter_inv :: "addr \<Rightarrow> bus_sys \<Rightarrow> bool" where
  "inter_inv h s \<longleftrightarrow> (\<exists>as rem vis. sys_inv h s as rem vis)"

lemma inter_inv_init: "inter_init h s \<Longrightarrow> inter_inv h s"
  by (auto simp: inter_init_def inter_inv_def sys_inv_def)

lemma inter_inv_step:
  assumes "inter_inv h s" and "inter_step {h} s t"
  shows "inter_inv h t"
proof -
  obtain as rem vis where inv: "sys_inv h s as rem vis" using assms(1) by (auto simp: inter_inv_def)
  obtain x where x: "allowed {h} x" "bus_act x s = Some t" using assms(2) by (auto elim: inter_stepE)
  show ?thesis
  proof (cases x)
    case Goroutine
    then have step: "bus_step s = Some t" using x(2) by simp
    show ?thesis
    proof (cases "bs_phase s = BpReceive")
      case True
      with receive_ok [OF inv True step] show ?thesis by (auto simp: inter_inv_def)
    next
      case False
      with goroutine_progress [OF inv False] step show ?thesis by (auto simp: progresses_def inter_inv_def)
    qed
  next
    case Connect
    then have "pl_maxID (bus_pool (bs_bus s)) \<noteq> - 1"
      using x(2) by (auto split: if_splits)
    from connect_ok [OF inv unat_not_max [OF this], of "([], [])"] x(2) Connect show ?thesis
      by (auto simp: inter_inv_def split: if_splits)
  next
    case (Report a f)
    then obtain c where c: "pl_heap (bus_pool (bs_bus s)) a = Some c"
        and t: "t = s\<lparr>bs_bus := (bs_bus s)\<lparr>bus_pool := store (bus_pool (bs_bus s)) a
                  (c\<lparr>pc_feedbackChan := pc_feedbackChan c @ [f]\<rparr>)\<rparr>\<rparr>"
      using x(2) by (auto split: if_splits option.splits)
    have "a = h \<Longrightarrow> stays (c\<lparr>pc_feedbackChan := pc_feedbackChan c @ [f]\<rparr>)"
      using inv c x(1) Report by (auto simp: sys_inv_def ring_inv_def stays_def conn_at_def)
    moreover have "touches (bus_pool (bs_bus s)) a (c\<lparr>pc_feedbackChan := pc_feedbackChan c @ [f]\<rparr>)"
      using c by (auto simp: touches_def conn_at_def)
    ultimately have "sys_inv h t as rem vis" unfolding t by (intro report_ok [OF inv])
    then show ?thesis by (auto simp: inter_inv_def)
  next
    case (Submit msg)
    then show ?thesis using submit_ok [OF inv] x(2) by (auto simp: inter_inv_def split: if_splits)
  qed
qed

interpretation interbus: invariant_system "inter_init h" "inter_step {h}" "inter_inv h" for h
  by unfold_locales (fact inter_inv_init, fact inter_inv_step)

lemma prep_rank_bound: "prep_rank ph \<le> 22"
  by (cases ph) auto

lemma trav_length: "trav s msg as x rem vis \<Longrightarrow> length rem < length as"
  by (simp add: trav_def)

lemma fuel_bound:
  assumes "sys_inv h s as rem vis"
  shows "fuel s as rem \<le> unread (bus_pool (bs_bus s)) as + 40 * length as + 34"
proof (cases "bs_phase s")
  case (BpPrepare msg ph)
  then show ?thesis using prep_rank_bound [of ph] by (simp add: fuel_def)
next
  case (BpCheck msg startID nxt ph)
  then show ?thesis using assms prep_rank_bound [of ph] by (auto simp: sys_inv_def fuel_def dest!: trav_length)
qed (use assms in \<open>auto simp: sys_inv_def fuel_def dest!: trav_length\<close>)

lemma returns_to_receive:
  assumes "sys_inv h s as rem vis"
  shows "\<exists>n t. n \<le> fuel s as rem \<and> bus_steps n s = Some t \<and> bs_phase t = BpReceive"
  using assms
proof (induction "fuel s as rem" arbitrary: s as rem vis rule: less_induct)
  case less
  show ?case
  proof (cases "bs_phase s = BpReceive")
    case True
    then show ?thesis by (intro exI [of _ 0]) simp
  next
    case False
    then obtain u as' rem' vis' where u: "bus_step s = Some u" "sys_inv h u as' rem' vis'" "fuel u as' rem' < fuel s as rem"
      using goroutine_progress [OF less.prems] by (auto simp: progresses_def)
    then obtain n t where "n \<le> fuel u as' rem'" "bus_steps n u = Some t" "bs_phase t = BpReceive"
      using less.hyps by blast
    with u show ?thesis by (intro exI [of _ "Suc n"]) auto
  qed
qed

text \<open>A bus whose only pod, at the address 0, stays.\<close>

definition start_sys :: bus_sys where
  "start_sys = \<lparr>bs_bus = newMessageBus\<lparr>bus_pool :=
       \<lparr>pl_heap = [0 \<mapsto> (newPodConnection 1 ([], []))\<lparr>pc_next := Some 0\<rparr>], pl_current = Some 0, pl_maxID = 1, pl_fresh = 1\<rparr>\<rparr>,
     bs_phase = BpReceive, bs_sent = [], bs_mark = 0\<rparr>"

lemma start_sys_bus: "messageBus_addPod newMessageBus ([], []) = Inr (bs_bus start_sys)"
  by (simp add: messageBus_addPod_def newMessageBus_def start_sys_def connectionPool_insert_def newConnectionPool_def
      Let_def store_def)

lemma start_sys_init: "inter_init 0 start_sys"
proof -
  obtain b where "messageBus_addPod newMessageBus ([], []) = Inr b" "bus_ok b [0]"
      "conn_at (bus_pool b) 0 = (newPodConnection 1 ([], []))\<lparr>pc_next := Some 0\<rparr>"
    using one_pod_bus by blast
  then have "ring_inv 0 (bs_bus start_sys) [0]"
    using start_sys_bus by (simp add: ring_inv_def stays_def newPodConnection_def)
  then show ?thesis by (auto simp: inter_init_def start_sys_def)
qed

lemma inter_reach:
  assumes "\<forall>x \<in> set xs. allowed {0} x" and "interleave xs start_sys = Some s"
  shows "reach (inter_init 0) (inter_step {0}) s"
  using interleave_steps [OF assms] start_sys_init by (blast intro: reach_steps reach_init)

text \<open>
  A pod is connected and handled first; while the message is with the hub's pod the first pod asks to be
  disconnected, and a second pod is connected just before \<open>deleteNext\<close>.
\<close>

definition before_delete :: "message \<Rightarrow> bus_action list" where
  "before_delete msg = [Connect, Submit msg] @ replicate 15 Goroutine @ [Report 1 FbDisconnect] @ replicate 3 Goroutine"

definition race_schedule :: "message \<Rightarrow> bus_action list" where
  "race_schedule msg = before_delete msg @ [Connect] @ replicate 10 Goroutine"

definition undisturbed_schedule :: "message \<Rightarrow> bus_action list" where
  "undisturbed_schedule msg = [Connect, Submit msg] @ replicate 20 Goroutine"

lemma schedules_allowed:
  "x \<in> set (before_delete msg) \<or> x \<in> set (race_schedule msg) \<or> x \<in> set (undisturbed_schedule msg) \<Longrightarrow> allowed {0} x"
  by (auto simp: before_delete_def race_schedule_def undisturbed_schedule_def)

lemma before_delete_run:
  "\<exists>s. interleave (before_delete (NewMsg ''u'' 0 ''t'' [])) start_sys = Some s
    \<and> bs_phase s = BpCheck (NewMsg ''u'' 0 ''t'' []) 2 (Some 1) (PnDelete errWantsDisconnect)
    \<and> pl_current (bus_pool (bs_bus s)) = Some 0 \<and> pl_fresh (bus_pool (bs_bus s)) = 2 \<and> pl_maxID (bus_pool (bs_bus s)) = 2
    \<and> pc_next (conn_at (bus_pool (bs_bus s)) 0) = Some 1 \<and> pc_next (conn_at (bus_pool (bs_bus s)) 1) = Some 0
    \<and> pc_feedbackChan (conn_at (bus_pool (bs_bus s)) 1) = [] \<and> pc_connected (conn_at (bus_pool (bs_bus s)) 1)"
proof -
  have "case interleave (before_delete (NewMsg ''u'' 0 ''t'' [])) start_sys of None \<Rightarrow> False | Some s \<Rightarrow>
      bs_phase s = BpCheck (NewMsg ''u'' 0 ''t'' []) 2 (Some 1) (PnDelete errWantsDisconnect)
    \<and> pl_current (bus_pool (bs_bus s)) = Some 0 \<and> pl_fresh (bus_pool (bs_bus s)) = 2 \<and> pl_maxID (bus_pool (bs_bus s)) = 2
    \<and> pc_next (conn_at (bus_pool (bs_bus s)) 0) = Some 1 \<and> pc_next (conn_at (bus_pool (bs_bus s)) 1) = Some 0
    \<and> pc_feedbackChan (conn_at (bus_pool (bs_bus s)) 1) = [] \<and> pc_connected (conn_at (bus_pool (bs_bus s)) 1)"
    by code_simp
  then show ?thesis by (auto split: option.splits)
qed

lemma race_run:
  "\<exists>t. interleave (race_schedule (NewMsg ''u'' 0 ''t'' [])) start_sys = Some t
    \<and> bs_phase t = BpPush (NewMsg ''u'' 0 ''t'' []) \<and> bs_sent t = [1, 0, 1]
    \<and> pc_sends (conn_at (bus_pool (bs_bus t)) 1) = replicate 2 (Spawned, Some (NewMsg ''u'' 0 ''t'' []))
    \<and> pc_connected (conn_at (bus_pool (bs_bus t)) 1) \<and> pc_feedbackChan (conn_at (bus_pool (bs_bus t)) 1) = []
    \<and> pc_closed (conn_at (bus_pool (bs_bus t)) 2)"
proof -
  have "case interleave (race_schedule (NewMsg ''u'' 0 ''t'' [])) start_sys of None \<Rightarrow> False | Some t \<Rightarrow>
      bs_phase t = BpPush (NewMsg ''u'' 0 ''t'' []) \<and> bs_sent t = [1, 0, 1]
    \<and> pc_sends (conn_at (bus_pool (bs_bus t)) 1) = replicate 2 (Spawned, Some (NewMsg ''u'' 0 ''t'' []))
    \<and> pc_connected (conn_at (bus_pool (bs_bus t)) 1) \<and> pc_feedbackChan (conn_at (bus_pool (bs_bus t)) 1) = []
    \<and> pc_closed (conn_at (bus_pool (bs_bus t)) 2)"
    by code_simp
  then show ?thesis by (auto split: option.splits)
qed

lemma undisturbed_run:
  "\<exists>t. interleave (undisturbed_schedule (NewMsg ''u'' 0 ''t'' [])) start_sys = Some t
    \<and> bs_phase t = BpPush (NewMsg ''u'' 0 ''t'' []) \<and> bs_sent t = [1, 0] \<and> bs_mark t = 2
    \<and> pl_fresh (bus_pool (bs_bus t)) = 2"
proof -
  have "case interleave (undisturbed_schedule (NewMsg ''u'' 0 ''t'' [])) start_sys of None \<Rightarrow> False | Some t \<Rightarrow>
      bs_phase t = BpPush (NewMsg ''u'' 0 ''t'' []) \<and> bs_sent t = [1, 0] \<and> bs_mark t = 2
    \<and> pl_fresh (bus_pool (bs_bus t)) = 2"
    by code_simp
  then show ?thesis by (auto split: option.splits)
qed

text \<open>
  Safety: as long as one pod of the ring never reports a failure or asks to be disconnected, the
  bus never panics, and the ring stays well formed with that pod in it.
\<close>

lemma survives:
  assumes "reach (inter_init h) (inter_step {h}) s"
  shows "(\<forall>e. bs_phase s \<noteq> BpCrashed e)
    \<and> (\<exists>as. ring (bus_pool (bs_bus s)) as \<and> h \<in> set as
          \<and> inj_on (\<lambda>a. pc_ID (conn_at (bus_pool (bs_bus s)) a)) (set as))"
proof -
  obtain as rem vis where "sys_inv h s as rem vis"
    using interbus.inv_reach [OF assms] by (auto simp: inter_inv_def)
  then show ?thesis
    by (auto simp: sys_inv_def ring_inv_def bus_ok_def pool_ok_def ids_ok_def)
qed

section \<open>Properties\<close>

text \<open>Property C1. When the traversal is over, in whatever way pods were connected, removed and reported
  feedback during it, every connection of the ring that was there when the message was taken from
  the bus channel has been sent the message; and if no pod was connected meanwhile, no
  connection was sent it twice.\<close>

theorem interleaved_delivery:
  assumes "reach (inter_init h) (inter_step {h}) s" and "bs_phase s = BpPush msg"
  shows "\<exists>as. ring (bus_pool (bs_bus s)) as
    \<and> (\<forall>a \<in> set as. a < bs_mark s \<longrightarrow>
          a \<in> set (bs_sent s) \<and> (Spawned, Some msg) \<in> set (pc_sends (conn_at (bus_pool (bs_bus s)) a)))
    \<and> (pl_fresh (bus_pool (bs_bus s)) = bs_mark s \<longrightarrow> distinct (bs_sent s))"
proof -
  obtain as rem vis where "sys_inv h s as rem vis"
    using interbus.inv_reach [OF assms(1)] by (auto simp: inter_inv_def)
  then show ?thesis
    using assms(2) by (intro exI [of _ as]) (auto simp: sys_inv_def ring_inv_def bus_ok_def pool_ok_def got_def)
qed

theorem interleaved_delivery_witness:
  "\<exists>t as. interleave (undisturbed_schedule (NewMsg ''u'' 0 ''t'' [])) start_sys = Some t
    \<and> ring (bus_pool (bs_bus t)) as \<and> (\<forall>a \<in> set as. a < 2 \<longrightarrow> a \<in> {1, 0}) \<and> bs_sent t = [1, 0]"
proof -
  obtain t where t: "interleave (undisturbed_schedule (NewMsg ''u'' 0 ''t'' [])) start_sys = Some t"
      "bs_phase t = BpPush (NewMsg ''u'' 0 ''t'' [])" "bs_sent t = [1, 0]" "bs_mark t = 2"
    using undisturbed_run by blast
  have "reach (inter_init 0) (inter_step {0}) t"
    using schedules_allowed by (intro inter_reach [OF _ t(1)]) blast
  from interleaved_delivery [OF this t(2)] t show ?thesis by auto
qed

text \<open>Property C10. The state of the bus is well formed in every interleaving: the connections form one cycle of pointers
  through the current one, all of them allocated, connected and with an open channel; their IDs are
  pairwise different and at most the largest one given out; and the indices of the replay buffer lie within it,
  which holds at most its limit, with every message filed under its own UUID.\<close>

theorem bus_state_well_formed:
  assumes "reach (inter_init h) (inter_step {h}) s"
  shows "\<exists>as. pl_current (bus_pool (bs_bus s)) = Some (hd as) \<and> chain (bus_pool (bs_bus s)) (as @ [hd as]) \<and> distinct as
    \<and> (\<forall>a \<in> set as. pl_heap (bus_pool (bs_bus s)) a \<noteq> None \<and> live (conn_at (bus_pool (bs_bus s)) a)
         \<and> unat (pc_ID (conn_at (bus_pool (bs_bus s)) a)) \<le> unat (pl_maxID (bus_pool (bs_bus s))))
    \<and> inj_on (\<lambda>a. pc_ID (conn_at (bus_pool (bs_bus s)) a)) (set as)
    \<and> int (length (mb_order (bus_buffer (bs_bus s)))) \<le> mb_limit (bus_buffer (bs_bus s))
    \<and> (mb_order (bus_buffer (bs_bus s)) \<noteq> [] \<longrightarrow>
         mb_startIndex (bus_buffer (bs_bus s)) < length (mb_order (bus_buffer (bs_bus s)))
       \<and> mb_nextIndex (bus_buffer (bs_bus s)) < length (mb_order (bus_buffer (bs_bus s))))
    \<and> (\<forall>u m. mb_msgs (bus_buffer (bs_bus s)) u = Some m \<longrightarrow> msg_UUID m = u)"
proof -
  obtain as rem vis where inv: "sys_inv h s as rem vis"
    using interbus.inv_reach [OF assms] by (auto simp: inter_inv_def)
  then have ring: "ring (bus_pool (bs_bus s)) as" "ids_ok (bus_pool (bs_bus s)) as" "as \<noteq> []"
      and mb: "mb_ok (bus_buffer (bs_bus s))"
    by (auto simp: sys_inv_def ring_inv_def bus_ok_def pool_ok_def)
  show ?thesis
    using ring mb by (intro exI [of _ as]) (cases as; auto simp: ring_def ids_ok_def mb_ok_def)
qed

theorem bus_state_well_formed_witness:
  "\<exists>s as. interleave (race_schedule (NewMsg ''u'' 0 ''t'' [])) start_sys = Some s
    \<and> pl_current (bus_pool (bs_bus s)) = Some (hd as) \<and> chain (bus_pool (bs_bus s)) (as @ [hd as]) \<and> distinct as"
proof -
  obtain s where s: "interleave (race_schedule (NewMsg ''u'' 0 ''t'' [])) start_sys = Some s" using race_run by blast
  have "reach (inter_init 0) (inter_step {0}) s"
    using schedules_allowed by (intro inter_reach [OF _ s]) blast
  from bus_state_well_formed [OF this] s show ?thesis by blast
qed

text \<open>Property C13. A pod that is connected after the bus has decided to remove another and before it
  removes it is removed in its place: \<open>deleteNext\<close> reads again which connection is next. The new
  connection is closed before its pod gets any message, and the other one stays in the ring, with
  the request that condemned it already taken from its channel.\<close>

theorem connect_is_removed_instead:
  assumes "pool_ok (bus_pool (bs_bus s)) (x # b # bs)" and "pl_maxID (bus_pool (bs_bus s)) \<noteq> - 1"
    and "bs_phase s = BpCheck msg startID next (PnDelete e) \<or> bs_phase s = BpPrepare msg (PnDelete e)"
  shows "\<exists>t. interleave [Connect, Goroutine] s = Some t \<and> ring (bus_pool (bs_bus t)) (x # b # bs)
    \<and> pc_closed (conn_at (bus_pool (bs_bus t)) (pl_fresh (bus_pool (bs_bus s))))
    \<and> pc_sends (conn_at (bus_pool (bs_bus t)) (pl_fresh (bus_pool (bs_bus s)))) = []
    \<and> pc_connected (conn_at (bus_pool (bs_bus t)) b)
    \<and> pc_feedbackChan (conn_at (bus_pool (bs_bus t)) b) = pc_feedbackChan (conn_at (bus_pool (bs_bus s)) b)"
proof -
  let ?p = "bus_pool (bs_bus s)" and ?n = "pl_fresh (bus_pool (bs_bus s))"
  obtain p' k where ins: "connectionPool_insert ?p ([], []) = Inr p'" and ok: "pool_ok p' (x # ?n # b # bs)"
      and new: "conn_at p' ?n = (newPodConnection (pl_maxID ?p + 1) ([], []))\<lparr>pc_next := k\<rparr>"
    using insert_ok [OF assms(1) unat_not_max [OF assms(2)], of "([], [])"] by (auto simp: spec_insert_def)
  let ?p2 = "deleted p' x (?n # b # bs)"
  have del: "connectionPool_deleteNext p' = Inr ?p2" using ok by (intro deleteNext_eq) (simp add: pool_ok_def)
  have ok2: "pool_ok ?p2 (x # b # bs)" using deleted_ok [OF ok] by simp
  have dist: "distinct (x # ?n # b # bs)" using ok by (simp add: pool_ok_def ring_def)
  have "pc_feedbackChan (conn_at p' b) = pc_feedbackChan (conn_at ?p b)"
    using insert_keeps(2) [OF ins, of b] same_conn_fields(4) dist by auto
  then have b: "pc_feedbackChan (conn_at ?p2 b) = pc_feedbackChan (conn_at ?p b)" "pc_connected (conn_at ?p2 b)"
    using dist ok2 by (auto simp: deleted_def pool_ok_def ring_def live_def)
  have n: "pc_closed (conn_at ?p2 ?n)" "pc_sends (conn_at ?p2 ?n) = []"
    using dist new by (auto simp: deleted_def newPodConnection_def)
  obtain ph where "bus_act Connect s = Some (s\<lparr>bs_bus := (bs_bus s)\<lparr>bus_pool := p'\<rparr>\<rparr>)"
      "bus_act Goroutine (s\<lparr>bs_bus := (bs_bus s)\<lparr>bus_pool := p'\<rparr>\<rparr>) =
        Some (s\<lparr>bs_bus := (bs_bus s)\<lparr>bus_pool := ?p2\<rparr>, bs_phase := ph\<rparr>)"
    using assms(2,3) ins del by (auto simp: messageBus_addPod_def bus_step_def in_pool_def)
  then show ?thesis using b n ok2 by (auto simp: pool_ok_def)
qed

theorem connect_is_removed_instead_witness:
  "\<exists>s t. reach (inter_init 0) (inter_step {0}) s \<and> interleave [Connect, Goroutine] s = Some t
    \<and> pc_closed (conn_at (bus_pool (bs_bus t)) 2) \<and> pc_connected (conn_at (bus_pool (bs_bus t)) 1)
    \<and> pc_feedbackChan (conn_at (bus_pool (bs_bus t)) 1) = []"
proof -
  obtain s where s: "interleave (before_delete (NewMsg ''u'' 0 ''t'' [])) start_sys = Some s"
      "bs_phase s = BpCheck (NewMsg ''u'' 0 ''t'' []) 2 (Some 1) (PnDelete errWantsDisconnect)"
      "pl_current (bus_pool (bs_bus s)) = Some 0" "pl_fresh (bus_pool (bs_bus s)) = 2" "pl_maxID (bus_pool (bs_bus s)) = 2"
      "pc_next (conn_at (bus_pool (bs_bus s)) 0) = Some 1" "pc_next (conn_at (bus_pool (bs_bus s)) 1) = Some 0"
      "pc_feedbackChan (conn_at (bus_pool (bs_bus s)) 1) = []" "pc_connected (conn_at (bus_pool (bs_bus s)) 1)"
    using before_delete_run by blast
  have r: "reach (inter_init 0) (inter_step {0}) s"
    using schedules_allowed by (intro inter_reach [OF _ s(1)]) blast
  obtain as where ok: "pool_ok (bus_pool (bs_bus s)) as" "0 \<in> set as"
    using interbus.inv_reach [OF r] by (auto simp: inter_inv_def sys_inv_def ring_inv_def bus_ok_def)
  then obtain xs where as: "as = 0 # xs" using s(3) by (cases as) (auto simp: pool_ok_def ring_def)
  have "hd (xs @ [0]) = 1" using ring_next(2) [of "bus_pool (bs_bus s)" 0 xs] ok s(6) as by (simp add: pool_ok_def)
  then obtain ys where xs: "xs = 1 # ys" by (cases xs) auto
  have "hd (ys @ [0]) = 0" using ring_next_of [of "bus_pool (bs_bus s)" 0 "[]" 1 ys] ok s(7) as xs by (simp add: pool_ok_def)
  then have "ys = []" using ok(1) as xs by (cases ys) (auto simp: pool_ok_def ring_def)
  then have "pool_ok (bus_pool (bs_bus s)) (0 # 1 # [])" using ok(1) as xs by simp
  moreover have "pl_maxID (bus_pool (bs_bus s)) \<noteq> - 1" using s(5) by simp
  ultimately obtain t where "interleave [Connect, Goroutine] s = Some t"
      "pc_closed (conn_at (bus_pool (bs_bus t)) 2)" "pc_connected (conn_at (bus_pool (bs_bus t)) 1)"
      "pc_feedbackChan (conn_at (bus_pool (bs_bus t)) 1) = []"
    using connect_is_removed_instead [of s 0 1 "[]"] s(2,4,8) by auto
  with r show ?thesis by blast
qed


end
