(* ===== verification/Bus_Senders.thy ===== *)
theory Bus_Senders
  imports Bus_Interleaved "HOL-Library.Multiset"
begin

text \<open>
  The bus goroutine together with the goroutines that \<open>podConnection.send\<close> starts and the receive loops of the pods. A
  goroutine takes the read lock of its connection and holds it until its message is in the channel of 128 entries;
  \<open>disconnect\<close> takes the write lock, so the bus goroutine, which holds the lock of the pool meanwhile, waits for the goroutines
  that hold the read lock, and those for the pod. The steps of the bus are those of \<open>Bus_Interleaved\<close>, of which this system is a
  composition with the senders and pods. Proved are that the wait always ends and the bus comes back to its receive, and that every
  message reaches the receive loop of the pods.
\<close>

section \<open>The composed system\<close>

text \<open>
  Goroutine \<open>k\<close> of a connection has been started by the entry \<open>k\<close> of its \<open>pc_sends\<close>, which is the log of all of them here:
  it is before the read lock; it holds the read lock and writes; it has ended.
\<close>

datatype sender_phase = SpSpawned | SpWriting | SpEnded

text \<open>
  Beside the bus: the phases of the goroutines, the contents of the message channels, the connection whose write lock the bus
  has asked for (with the lock of the pool held); and, as history, what the receive loop of each pod has taken.
\<close>

record send_sys =
  ss_bus :: bus_sys
  ss_phase :: "addr \<Rightarrow> nat \<Rightarrow> sender_phase"
  ss_chan :: "addr \<Rightarrow> msg_ref list"
  ss_lock :: "addr option"
  ss_taken :: "addr \<Rightarrow> msg_ref list"

abbreviation pool_of :: "bus_sys \<Rightarrow> pool" where
  "pool_of b \<equiv> bus_pool (bs_bus b)"

abbreviation heap_of :: "send_sys \<Rightarrow> addr \<Rightarrow> podConnection option" where
  "heap_of s \<equiv> pl_heap (pool_of (ss_bus s))"

definition sends_at :: "bus_sys \<Rightarrow> addr \<Rightarrow> (send_phase \<times> msg_ref) list" where
  "sends_at b a = (case pl_heap (pool_of b) a of None \<Rightarrow> [] | Some c \<Rightarrow> pc_sends c)"

text \<open>The bus goroutine is at \<open>deleteNext\<close>.\<close>

fun deleting :: "bus_phase \<Rightarrow> bool" where
  "deleting (BpPrepare msg (PnDelete e)) = True"
| "deleting (BpCheck msg startID next (PnDelete e)) = True"
| "deleting ph = False"

text \<open>
  A step of the bus goroutine. \<open>deleteNext\<close> takes the lock of the pool and asks for the write lock of the connection behind the
  current one; it goes on when no goroutine holds the read lock.
\<close>

definition bus_turn :: "send_sys \<Rightarrow> send_sys option" where
  "bus_turn s =
     (let go = map_option (\<lambda>b. s\<lparr>ss_bus := b, ss_lock := None\<rparr>) (bus_act Goroutine (ss_bus s))
      in if deleting (bs_phase (ss_bus s)) then
           (case ss_lock s of
              None \<Rightarrow>
                (case connectionPool_peek (pool_of (ss_bus s)) of
                   Inr (Some a) \<Rightarrow> Some (s\<lparr>ss_lock := Some a\<rparr>)
                 | _ \<Rightarrow> go)
            | Some a \<Rightarrow>
                if \<exists>k < length (sends_at (ss_bus s) a). ss_phase s a k = SpWriting then None else go)
         else go)"

datatype sender_act =
    Bus bus_action
  | StartSend addr nat
  | WriteSend addr nat
  | TakeMsg addr

text \<open>
  \<open>Connect\<close> needs the lock of the pool. A goroutine that starts gets the read lock unless the bus has asked for
  the write lock, and gives up if the connection is dead; its write blocks on a full channel, and panics on a closed one.
\<close>

fun send_act :: "sender_act \<Rightarrow> send_sys \<Rightarrow> send_sys option" where
  "send_act (Bus x) s =
     (if x = Goroutine then bus_turn s
      else if x = Connect \<and> ss_lock s \<noteq> None then None
      else map_option (\<lambda>b. s\<lparr>ss_bus := b\<rparr>) (bus_act x (ss_bus s)))"
| "send_act (StartSend a k) s =
     (if crashed (bs_phase (ss_bus s)) then None
      else (case heap_of s a of
              None \<Rightarrow> None
            | Some c \<Rightarrow>
                if k < length (pc_sends c) \<and> ss_phase s a k = SpSpawned \<and> ss_lock s \<noteq> Some a then
                  Some (s\<lparr>ss_phase := (ss_phase s)(a := (ss_phase s a)(k := if pc_connected c then SpWriting else SpEnded))\<rparr>)
                else None))"
| "send_act (WriteSend a k) s =
     (if crashed (bs_phase (ss_bus s)) then None
      else (case heap_of s a of
              None \<Rightarrow> None
            | Some c \<Rightarrow>
                if k < length (pc_sends c) \<and> ss_phase s a k = SpWriting then
                  (if pc_closed c then Some (s\<lparr>ss_bus := (ss_bus s)\<lparr>bs_phase := BpCrashed SendOnClosedChannel\<rparr>\<rparr>)
                   else if length (ss_chan s a) < defaultPodChanSize then
                     Some (s\<lparr>ss_phase := (ss_phase s)(a := (ss_phase s a)(k := SpEnded)),
                             ss_chan := (ss_chan s)(a := ss_chan s a @ [snd (pc_sends c ! k)])\<rparr>)
                   else None)
                else None))"
| "send_act (TakeMsg a) s =
     (if crashed (bs_phase (ss_bus s)) then None
      else (case ss_chan s a of
              [] \<Rightarrow> None
            | msg # rest \<Rightarrow>
                Some (s\<lparr>ss_chan := (ss_chan s)(a := rest), ss_taken := (ss_taken s)(a := ss_taken s a @ [msg])\<rparr>)))"

fun keeps_promise :: "addr set \<Rightarrow> sender_act \<Rightarrow> bool" where
  "keeps_promise loyal (Bus x) = allowed loyal x"
| "keeps_promise loyal y = True"

inductive send_step :: "addr set \<Rightarrow> send_sys \<Rightarrow> send_sys \<Rightarrow> bool" for loyal :: "addr set" where
  act: "keeps_promise loyal x \<Longrightarrow> send_act x s = Some t \<Longrightarrow> send_step loyal s t"

inductive_cases send_stepE: "send_step loyal s t"

definition send_init :: "addr \<Rightarrow> send_sys \<Rightarrow> bool" where
  "send_init h s \<longleftrightarrow> inter_init h (ss_bus s) \<and> ss_lock s = None
     \<and> (\<forall>a. ss_chan s a = [] \<and> ss_taken s a = [] \<and> (\<forall>k. ss_phase s a k = SpSpawned))
     \<and> (\<forall>a c. heap_of s a = Some c \<longrightarrow> pc_connected c \<noteq> pc_closed c)"

fun send_run :: "sender_act list \<Rightarrow> send_sys \<Rightarrow> send_sys option" where
  "send_run [] s = Some s"
| "send_run (x # xs) s = (case send_act x s of None \<Rightarrow> None | Some t \<Rightarrow> send_run xs t)"

lemma send_run_steps:
  "\<forall>x \<in> set xs. keeps_promise loyal x \<Longrightarrow> send_run xs s = Some t \<Longrightarrow> (send_step loyal)\<^sup>*\<^sup>* s t"
proof (induction xs arbitrary: s)
  case (Cons x xs)
  then obtain u where "send_act x s = Some u" "send_run xs u = Some t"
    by (auto split: option.splits)
  with Cons show ?case by (auto intro: converse_rtranclp_into_rtranclp send_step.act)
qed simp

section \<open>What a step of the bus does to the connections\<close>

text \<open>
  No connection disappears and no send is taken back; only the connection \<open>d\<close> is disconnected and closed; new connections
  are open and have been sent nothing.
\<close>

definition conn_keeps :: "bool \<Rightarrow> podConnection \<Rightarrow> podConnection \<Rightarrow> bool" where
  "conn_keeps dis c c' \<longleftrightarrow> (\<exists>ys. pc_sends c' = pc_sends c @ ys)
     \<and> (if dis then \<not> pc_connected c' \<and> pc_closed c' else pc_connected c' = pc_connected c \<and> pc_closed c' = pc_closed c)"

definition grows :: "addr option \<Rightarrow> pool \<Rightarrow> pool \<Rightarrow> bool" where
  "grows d p p' \<longleftrightarrow>
     (\<forall>a c. pl_heap p a = Some c \<longrightarrow> (\<exists>c'. pl_heap p' a = Some c' \<and> conn_keeps (d = Some a) c c'))
     \<and> (\<forall>a c. pl_heap p a = None \<and> pl_heap p' a = Some c \<longrightarrow> pc_connected c \<and> \<not> pc_closed c \<and> pc_sends c = [])"

lemma conn_keeps_refl [simp]: "conn_keeps False c c"
  by (simp add: conn_keeps_def)

lemma grows_same: "pl_heap p' = pl_heap p \<Longrightarrow> grows None p p'"
  by (auto simp: grows_def)

lemma grows_store: "pl_heap p a = Some c \<Longrightarrow> conn_keeps False c c' \<Longrightarrow> grows None p (store p a c')"
  by (auto simp: grows_def store_def)

lemma conn_keeps_simps [simp]:
  "conn_keeps False c (c\<lparr>pc_feedbackChan := fs, pc_failed := ms\<rparr>)"
  "conn_keeps False c (c\<lparr>pc_feedbackChan := fs\<rparr>)"
  "conn_keeps False c (c\<lparr>pc_next := n\<rparr>)"
  "conn_keeps False c (podConnection_send c m)"
  "conn_keeps False c (podConnection_flushFailed c)"
  by (auto simp: conn_keeps_def podConnection_send_def flushFailed_eq)

lemma conn_keeps_trans: "conn_keeps False c d \<Longrightarrow> conn_keeps False d e \<Longrightarrow> conn_keeps False c e"
  by (auto simp: conn_keeps_def)

lemma grows_next: "connectionPool_next p = Inr (x, p') \<Longrightarrow> grows None p p'"
  by (rule grows_same) (auto simp: connectionPool_next_def split: sum.splits)

lemma grows_flush: "flush_after_success status a p = Some (Inr (err, p')) \<Longrightarrow> grows None p p'"
  by (auto simp: flush_after_success_def load_def go_deref_def split: if_splits sum.splits option.splits
      intro: grows_same grows_store)

lemma grows_current [simp]: "grows d p (p'\<lparr>pl_current := x\<rparr>) = grows d p p'"
  by (simp add: grows_def)

lemma grows_disconnect:
  "pl_heap p a = Some c \<Longrightarrow> podConnection_disconnect c = Inr c' \<Longrightarrow> grows (Some a) p (store p a c')"
  by (auto simp: grows_def store_def conn_keeps_def podConnection_disconnect_def Let_def split: if_splits)

lemma grows_link:
  "grows d p p1 \<Longrightarrow> pl_heap p1 b = Some c \<Longrightarrow> grows d p (store p1 b (c\<lparr>pc_next := n\<rparr>))"
  unfolding grows_def
proof (intro conjI allI impI)
  assume g: "(\<forall>a c. pl_heap p a = Some c \<longrightarrow> (\<exists>c'. pl_heap p1 a = Some c' \<and> conn_keeps (d = Some a) c c')) \<and>
    (\<forall>a c. pl_heap p a = None \<and> pl_heap p1 a = Some c \<longrightarrow> pc_connected c \<and> \<not> pc_closed c \<and> pc_sends c = [])"
    and b: "pl_heap p1 b = Some c"
  have keep: "conn_keeps x e f \<Longrightarrow> conn_keeps x e (f\<lparr>pc_next := n\<rparr>)" for x e f by (simp add: conn_keeps_def)
  show "\<exists>e'. pl_heap (store p1 b (c\<lparr>pc_next := n\<rparr>)) a = Some e' \<and> conn_keeps (d = Some a) e e'"
    if "pl_heap p a = Some e" for a e
  proof -
    from g that obtain e' where "pl_heap p1 a = Some e'" "conn_keeps (d = Some a) e e'" by blast
    then show ?thesis using b keep by (cases "a = b") (auto simp: store_def)
  qed
  show "pc_connected e" "\<not> pc_closed e" "pc_sends e = []"
    if "pl_heap p a = None \<and> pl_heap (store p1 b (c\<lparr>pc_next := n\<rparr>)) a = Some e" for a e
    using g b that by (cases "a = b"; auto simp: store_def)+
qed

lemma grows_delete:
  assumes del: "connectionPool_deleteNext p = Inr p'" and "connectionPool_peek p = Inr (Some a)"
  shows "grows (Some a) p p'"
proof -
  from assms(2) obtain cur where cur: "pl_current p = Some cur" "load_next p cur = Inr (Some a)"
    by (auto simp: connectionPool_peek_def go_deref_def split: option.splits)
  obtain c c' where c: "pl_heap p a = Some c" "podConnection_disconnect c = Inr c'"
    using del cur by (auto simp: connectionPool_deleteNext_def go_deref_def load_def split: sum.splits option.splits)
  note g = grows_disconnect [OF c]
  show ?thesis
    using del cur c g grows_link [OF g, of cur]
    by (auto simp: connectionPool_deleteNext_def go_deref_def load_def Let_def split: if_splits sum.splits option.splits)
qed

lemma grows_replay:
  assumes "connectionPool_replayNext buf p = Some (Inr p')" and "mb_ok buf"
  shows "grows None p p'"
proof -
  have "conn_keeps False c (foldl podConnection_send c refs)" for c refs
    by (simp add: foldl_send_refs conn_keeps_def)
  then show ?thesis
    using assms by (auto simp: connectionPool_replayNext_def load_def go_deref_def Iter_foldl
        split: sum.splits option.splits intro: grows_store)
qed

lemma conn_keeps_checked: "pc_feedbackChan c = f # rest \<Longrightarrow> conn_keeps False c (c\<lparr>pc_feedbackChan := rest, pc_failed := ms\<rparr>)"
  by simp

lemma grows_prepare:
  assumes "prepareNext_step buf ph p = Some (Inr (ph', p'))" and "mb_ok buf" and "\<forall>e. ph \<noteq> PnDelete e"
  shows "grows None p p'"
proof (cases ph)
  case PnPeek
  then show ?thesis using assms(1) by (auto split: sum.splits intro: grows_same)
next
  case (PnCheck a st)
  then show ?thesis
    using assms(1) by (auto simp: load_def go_deref_def split: sum.splits list.splits option.splits prod.splits
        intro: grows_same intro!: grows_store [where c' = "_\<lparr>pc_feedbackChan := _, pc_failed := _\<rparr>"] simp del: checkStatus_loop.simps)
next
  case (PnReplay a st)
  then show ?thesis using assms(1,2) by (auto split: sum.splits option.splits intro: grows_replay)
next
  case (PnFlush a st)
  then show ?thesis using assms(1) by (auto split: sum.splits option.splits intro: grows_flush)
qed (use assms in auto)

lemma prepareNext_delete:
  "prepareNext_step buf (PnDelete e) p = Some (Inr (ph', p')) \<Longrightarrow> connectionPool_deleteNext p = Inr p'"
  by (simp split: sum.splits)

lemma deleteNext_peeks: "connectionPool_deleteNext p = Inr p' \<Longrightarrow> \<exists>a. connectionPool_peek p = Inr (Some a)"
  by (auto simp: connectionPool_deleteNext_def connectionPool_peek_def go_deref_def split: sum.splits option.splits)

lemma in_pool_result: "in_pool b f r = Some (Inr (ph, b')) \<Longrightarrow> \<exists>x. r = Some (Inr (x, bus_pool b'))"
  by (auto simp: in_pool_def split: option.splits sum.splits)

text \<open>What \<open>deleteNext\<close> removes is what \<open>peek\<close> shows.\<close>

definition turn_grows :: "bus_phase \<Rightarrow> pool \<Rightarrow> pool \<Rightarrow> bool" where
  "turn_grows ph p p' \<longleftrightarrow> grows None p p'
     \<or> deleting ph \<and> (\<exists>a. connectionPool_peek p = Inr (Some a) \<and> grows (Some a) p p')"

lemma goroutine_prepare_grows:
  assumes "in_pool b f (prepareNext_step (bus_buffer b) ph (bus_pool b)) = Some (Inr (ph', b'))"
    and "mb_ok (bus_buffer b)" and "\<And>e. ph = PnDelete e \<Longrightarrow> deleting here"
  shows "turn_grows here (bus_pool b) (bus_pool b')"
proof -
  obtain x where x: "prepareNext_step (bus_buffer b) ph (bus_pool b) = Some (Inr (x, bus_pool b'))"
    using in_pool_result [OF assms(1)] by blast
  show ?thesis
  proof (cases "\<exists>e. ph = PnDelete e")
    case True
    then obtain e where e: "ph = PnDelete e" by blast
    have del: "connectionPool_deleteNext (bus_pool b) = Inr (bus_pool b')"
      using x unfolding e by (rule prepareNext_delete)
    from deleteNext_peeks [OF this] obtain a where "connectionPool_peek (bus_pool b) = Inr (Some a)" by blast
    with grows_delete [OF del this] assms(3) [OF e] show ?thesis by (auto simp: turn_grows_def)
  next
    case False
    with grows_prepare [OF x assms(2)] show ?thesis by (auto simp: turn_grows_def)
  qed
qed

lemma goroutine_grows:
  assumes "bus_goroutine ph b = Some (Inr (ph', b'))" and mb: "mb_ok (bus_buffer b)"
  shows "turn_grows ph (bus_pool b) (bus_pool b')"
proof (cases ph)
  case (BpPrepare msg pn)
  show ?thesis
  proof (cases "\<exists>err. pn = PnReturn err")
    case True
    then show ?thesis using assms BpPrepare by (auto simp: turn_grows_def intro: grows_same)
  next
    case False
    then have "bus_goroutine ph b = in_pool b (BpPrepare msg) (prepareNext_step (bus_buffer b) pn (bus_pool b))"
      using prep_caller_prepare [of msg] BpPrepare by (simp add: prep_caller_def)
    with assms(1) BpPrepare show ?thesis
      by (intro goroutine_prepare_grows [OF _ mb, where f = "BpPrepare msg" and ph = pn and ph' = ph']) auto
  qed
next
  case (BpCheck msg startID nxt pn)
  show ?thesis
  proof (cases "\<exists>err. pn = PnReturn err")
    case True
    then show ?thesis using assms BpCheck by (auto simp: turn_grows_def split: sum.splits intro: grows_same)
  next
    case False
    then have "bus_goroutine ph b =
        in_pool b (BpCheck msg startID nxt) (prepareNext_step (bus_buffer b) pn (bus_pool b))"
      using prep_caller_check [of msg startID nxt] BpCheck by (simp add: prep_caller_def)
    with assms(1) BpCheck show ?thesis
      by (intro goroutine_prepare_grows [OF _ mb, where f = "BpCheck msg startID nxt" and ph = pn and ph' = ph']) auto
  qed
next
  case (BpSend msg startID conn)
  then show ?thesis
    using assms by (auto simp: turn_grows_def load_def go_deref_def split: sum.splits option.splits intro!: grows_store)
next
  case (BpStart msg)
  then obtain x where "connectionPool_next (bus_pool b) = Inr (x, bus_pool b')"
    using assms(1) by (auto split: sum.splits)
  then show ?thesis by (simp add: turn_grows_def grows_next)
next
  case (BpAdvance msg startID)
  then obtain x where "connectionPool_next (bus_pool b) = Inr (x, bus_pool b')"
    using assms(1) by (auto split: sum.splits)
  then show ?thesis by (simp add: turn_grows_def grows_next)
qed (use assms in \<open>auto simp: turn_grows_def split: sum.splits list.splits if_splits intro: grows_same\<close>)

lemma connect_grows:
  assumes "connectionPool_insert p ([], []) = Inr p'" and "\<forall>a. pl_heap p a \<noteq> None \<longrightarrow> a < pl_fresh p"
  shows "grows None p p'"
proof -
  have "pl_heap p (pl_fresh p) = None" using assms(2) by blast
  then show ?thesis
    using assms(1)
    by (auto simp: connectionPool_insert_def insertAfter_def Let_def load_def go_deref_def grows_def store_def
        newPodConnection_def conn_keeps_def split: option.splits sum.splits if_splits)
qed

lemma inter_inv_ok:
  assumes "inter_inv h b"
  shows "mb_ok (bus_buffer (bs_bus b))" and "\<forall>a. pl_heap (pool_of b) a \<noteq> None \<longrightarrow> a < pl_fresh (pool_of b)"
  using assms ring_inv_below by (auto simp: inter_inv_def sys_inv_def ring_inv_def bus_ok_def pool_ok_def ids_ok_def)

lemma act_grows:
  assumes "bus_act x b = Some b'" and inv: "inter_inv h b" and "x \<noteq> Goroutine"
  shows "grows None (pool_of b) (pool_of b')"
proof (cases x)
  case Connect
  show ?thesis
  proof (cases "connectionPool_insert (pool_of b) ([], [])")
    case (Inr p')
    from connect_grows [OF this inter_inv_ok(2) [OF inv]] Inr Connect assms(1) show ?thesis
      by (auto simp: messageBus_addPod_def split: if_splits)
  qed (use Connect assms(1) in \<open>auto simp: messageBus_addPod_def split: if_splits intro: grows_same\<close>)
next
  case (Report a f)
  then show ?thesis using assms(1) by (auto split: if_splits option.splits intro!: grows_store)
qed (use assms in \<open>auto split: if_splits intro: grows_same\<close>)

lemma goroutine_act_grows:
  assumes "bus_act Goroutine b = Some b'" and inv: "inter_inv h b"
  shows "turn_grows (bs_phase b) (pool_of b) (pool_of b')"
proof -
  from assms(1) have "bus_step b = Some b'" by simp
  then consider (panic) "pool_of b' = pool_of b"
    | (go) ph c where "bus_goroutine (bs_phase b) (bs_bus b) = Some (Inr (ph, c))" "bs_bus b' = c"
    by (auto simp: bus_step_def split: option.splits sum.splits)
  then show ?thesis
    by cases (auto simp: turn_grows_def grows_same
        dest: goroutine_grows [OF _ inter_inv_ok(1) [OF inv], unfolded turn_grows_def])
qed

section \<open>The invariant\<close>

text \<open>The messages of the goroutines of a connection that have ended.\<close>

definition done_sends :: "send_sys \<Rightarrow> addr \<Rightarrow> nat set" where
  "done_sends s a = {k. k < length (sends_at (ss_bus s) a) \<and> ss_phase s a k = SpEnded}"

definition arrived :: "send_sys \<Rightarrow> addr \<Rightarrow> msg_ref multiset" where
  "arrived s a = image_mset (\<lambda>k. snd (sends_at (ss_bus s) a ! k)) (mset_set (done_sends s a))"

definition lock_ok :: "send_sys \<Rightarrow> bool" where
  "lock_ok s \<longleftrightarrow> (\<forall>a. ss_lock s = Some a \<longrightarrow>
     deleting (bs_phase (ss_bus s)) \<and> connectionPool_peek (pool_of (ss_bus s)) = Inr (Some a))"

definition writers_ok :: "send_sys \<Rightarrow> bool" where
  "writers_ok s \<longleftrightarrow> (\<forall>a k. ss_phase s a k = SpWriting \<longrightarrow> (\<exists>c. heap_of s a = Some c \<and> pc_connected c))
     \<and> (\<forall>a k. length (sends_at (ss_bus s) a) \<le> k \<longrightarrow> ss_phase s a k = SpSpawned)
     \<and> (\<forall>a c. heap_of s a = Some c \<longrightarrow> pc_connected c \<noteq> pc_closed c)"

definition messages_ok :: "send_sys \<Rightarrow> bool" where
  "messages_ok s \<longleftrightarrow> (\<forall>a. heap_of s a = None \<longrightarrow> ss_chan s a = [] \<and> ss_taken s a = [])
     \<and> (\<forall>a c. heap_of s a = Some c \<and> pc_connected c \<longrightarrow> mset (ss_taken s a @ ss_chan s a) = arrived s a)"

definition send_inv :: "addr \<Rightarrow> send_sys \<Rightarrow> bool" where
  "send_inv h s \<longleftrightarrow> inter_inv h (ss_bus s) \<and> writers_ok s \<and> messages_ok s \<and> lock_ok s"

lemma send_inv_init: "send_init h s \<Longrightarrow> send_inv h s"
  by (auto simp: send_init_def send_inv_def inter_inv_init writers_ok_def messages_ok_def lock_ok_def arrived_def done_sends_def)

lemma sends_grow:
  assumes "grows d (pool_of b) (pool_of b')"
  shows "\<exists>ys. sends_at b' a = sends_at b a @ ys"
proof (cases "pl_heap (pool_of b) a")
  case None
  then show ?thesis by (simp add: sends_at_def)
next
  case (Some c)
  then obtain c' where "pl_heap (pool_of b') a = Some c'" "conn_keeps (d = Some a) c c'"
    using assms unfolding grows_def by blast
  then show ?thesis using Some by (auto simp: sends_at_def conn_keeps_def)
qed

lemma bus_moves:
  assumes inv: "send_inv h s" and b: "inter_inv h b'" and g: "grows d (pool_of (ss_bus s)) (pool_of b')"
    and quiet: "\<And>a k. d = Some a \<Longrightarrow> ss_phase s a k \<noteq> SpWriting"
    and lock: "lock_ok (s\<lparr>ss_bus := b', ss_lock := l\<rparr>)"
  shows "send_inv h (s\<lparr>ss_bus := b', ss_lock := l\<rparr>)"
proof -
  let ?t = "s\<lparr>ss_bus := b', ss_lock := l\<rparr>" and ?p = "pool_of (ss_bus s)" and ?p' = "pool_of b'"
  have old: "writers_ok s" "messages_ok s" using inv by (simp_all add: send_inv_def)
  have kept: "\<exists>c'. pl_heap ?p' a = Some c' \<and> conn_keeps (d = Some a) c c'" if "pl_heap ?p a = Some c" for a c
    using g that by (simp add: grows_def)
  have new: "pc_connected c \<and> \<not> pc_closed c \<and> pc_sends c = []" if "pl_heap ?p a = None" "pl_heap ?p' a = Some c" for a c
    using g that by (simp add: grows_def)
  have late: "ss_phase s a k = SpSpawned" if "length (sends_at (ss_bus s) a) \<le> k" for a k
    using old(1) that by (simp add: writers_ok_def)
  have "writers_ok ?t"
    unfolding writers_ok_def
  proof (intro conjI allI impI)
    show "\<exists>c. heap_of ?t a = Some c \<and> pc_connected c" if w: "ss_phase ?t a k = SpWriting" for a k
    proof -
      obtain c where c: "pl_heap ?p a = Some c" "pc_connected c" using old(1) w by (auto simp: writers_ok_def)
      moreover have "d \<noteq> Some a" using quiet w by auto
      ultimately show ?thesis using kept [OF c(1)] by (auto simp: conn_keeps_def)
    qed
    show "ss_phase ?t a k = SpSpawned" if "length (sends_at (ss_bus ?t) a) \<le> k" for a k
      using sends_grow [OF g, of a] that late by auto
    show "pc_connected c \<noteq> pc_closed c" if c: "heap_of ?t a = Some c" for a c
      using c kept [of a] new [of a] old(1)
      by (cases "pl_heap ?p a") (auto simp: writers_ok_def conn_keeps_def split: if_splits)
  qed
  moreover have same: "arrived ?t a = arrived s a" for a
  proof -
    obtain ys where ys: "sends_at b' a = sends_at (ss_bus s) a @ ys" using sends_grow [OF g] by blast
    have "done_sends ?t a = done_sends s a"
    proof (intro set_eqI)
      show "k \<in> done_sends ?t a \<longleftrightarrow> k \<in> done_sends s a" for k
        using late [of a k] by (cases "k < length (sends_at (ss_bus s) a)") (simp_all add: done_sends_def ys)
    qed
    then show ?thesis
      unfolding arrived_def by (simp only:) (rule image_mset_cong, simp add: done_sends_def ys nth_append)
  qed
  have "messages_ok ?t"
    unfolding messages_ok_def same
  proof (intro conjI allI impI)
    show "ss_chan ?t a = []" "ss_taken ?t a = []" if "heap_of ?t a = None" for a
      using that kept [of a] old(2) by (cases "pl_heap ?p a"; auto simp: messages_ok_def)+
    show "mset (ss_taken ?t a @ ss_chan ?t a) = arrived s a" if c: "heap_of ?t a = Some c \<and> pc_connected c" for a c
    proof (cases "pl_heap ?p a")
      case None
      then show ?thesis using old(2) by (simp add: messages_ok_def arrived_def done_sends_def sends_at_def)
    next
      case (Some e)
      then have "pc_connected e" using kept [OF Some] c by (auto simp: conn_keeps_def split: if_splits)
      with Some old(2) show ?thesis by (simp add: messages_ok_def)
    qed
  qed
  ultimately show ?thesis using b lock by (simp add: send_inv_def)
qed

lemma lock_free [simp]: "lock_ok (s\<lparr>ss_bus := b, ss_lock := None\<rparr>)"
  by (simp add: lock_ok_def)

lemma inter_goroutine: "inter_inv h b \<Longrightarrow> bus_act Goroutine b = Some b' \<Longrightarrow> inter_inv h b'"
  by (rule inter_inv_step, assumption, rule inter_step.act [where x = Goroutine]) simp_all

lemma turn_ok:
  assumes inv: "send_inv h s" and turn: "bus_turn s = Some t"
  shows "send_inv h t"
proof -
  let ?b = "ss_bus s"
  have i: "inter_inv h ?b" and w: "writers_ok s" and l: "lock_ok s" using inv by (simp_all add: send_inv_def)
  have go: "send_inv h (s\<lparr>ss_bus := b', ss_lock := None\<rparr>)"
    if b': "bus_act Goroutine ?b = Some b'" and quiet: "\<And>a k. connectionPool_peek (pool_of ?b) = Inr (Some a) \<Longrightarrow>
      deleting (bs_phase ?b) \<Longrightarrow> ss_phase s a k \<noteq> SpWriting" for b'
  proof -
    obtain d where "grows d (pool_of ?b) (pool_of b')"
        and "d = None \<or> deleting (bs_phase ?b) \<and> connectionPool_peek (pool_of ?b) = Inr d"
      using goroutine_act_grows [OF b' i] by (auto simp: turn_grows_def)
    then show ?thesis using quiet inter_goroutine [OF i b'] by (intro bus_moves [OF inv, of _ d]) auto
  qed
  show ?thesis
  proof (cases "deleting (bs_phase ?b)")
    case False
    then obtain b' where b': "bus_act Goroutine ?b = Some b'" "t = s\<lparr>ss_bus := b', ss_lock := None\<rparr>"
      using turn by (auto simp: bus_turn_def Let_def)
    show ?thesis unfolding b'(2) by (rule go [OF b'(1)]) (use False in simp)
  next
    case del: True
    show ?thesis
    proof (cases "ss_lock s")
      case None
      show ?thesis
      proof (cases "\<exists>a. connectionPool_peek (pool_of ?b) = Inr (Some a)")
        case True
        then obtain a where a: "connectionPool_peek (pool_of ?b) = Inr (Some a)" by blast
        then have "t = s\<lparr>ss_lock := Some a\<rparr>" using turn del None by (simp add: bus_turn_def Let_def)
        then show ?thesis using inv a del
          by (simp add: send_inv_def writers_ok_def messages_ok_def lock_ok_def arrived_def done_sends_def)
      next
        case False
        then obtain b' where b': "bus_act Goroutine ?b = Some b'" "t = s\<lparr>ss_bus := b', ss_lock := None\<rparr>"
          using turn del None by (auto simp: bus_turn_def Let_def split: sum.splits option.splits)
        show ?thesis unfolding b'(2) by (rule go [OF b'(1)]) (use False in blast)
      qed
    next
      case (Some a)
      then have peek: "connectionPool_peek (pool_of ?b) = Inr (Some a)" using l by (simp add: lock_ok_def)
      obtain b' where b': "bus_act Goroutine ?b = Some b'" "t = s\<lparr>ss_bus := b', ss_lock := None\<rparr>"
          and no: "\<forall>k<length (sends_at ?b a). ss_phase s a k \<noteq> SpWriting"
        using turn del Some by (auto simp: bus_turn_def Let_def split: if_splits)
      have "ss_phase s a k \<noteq> SpWriting" for k
        using no w by (cases "k < length (sends_at ?b a)") (auto simp: writers_ok_def)
      then show ?thesis unfolding b'(2) by (intro go [OF b'(1)]) (use peek in simp)
    qed
  qed
qed

lemma others_keep_peek:
  assumes "bus_act x b = Some b'" and "x \<noteq> Goroutine" and "x \<noteq> Connect"
  shows "bs_phase b' = bs_phase b \<and> connectionPool_peek (pool_of b') = connectionPool_peek (pool_of b)"
proof (cases x)
  case (Report a f)
  then show ?thesis
    using assms(1)
    by (auto simp: connectionPool_peek_def load_next_def load_def go_deref_def store_def split: if_splits option.splits)
qed (use assms in \<open>auto split: if_splits\<close>)

lemma others_ok:
  assumes inv: "send_inv h s" and x: "allowed {h} x" "x \<noteq> Goroutine" "x = Connect \<Longrightarrow> ss_lock s = None"
    and b': "bus_act x (ss_bus s) = Some b'"
  shows "send_inv h (s\<lparr>ss_bus := b'\<rparr>)"
proof -
  have i: "inter_inv h (ss_bus s)" and l: "lock_ok s" using inv by (simp_all add: send_inv_def)
  have "inter_inv h b'" by (rule inter_inv_step [OF i inter_step.act [OF x(1) b']])
  moreover have "grows None (pool_of (ss_bus s)) (pool_of b')" by (rule act_grows [OF b' i x(2)])
  moreover have "lock_ok (s\<lparr>ss_bus := b', ss_lock := ss_lock s\<rparr>)"
    using l x(3) others_keep_peek [OF b' x(2)] by (cases "x = Connect") (auto simp: lock_ok_def)
  ultimately have "send_inv h (s\<lparr>ss_bus := b', ss_lock := ss_lock s\<rparr>)"
    by (intro bus_moves [OF inv, of _ None]) auto
  then show ?thesis by simp
qed

lemma done_sends_finite [simp]: "finite (done_sends s a)"
  by (simp add: done_sends_def)

lemma start_ok:
  assumes inv: "send_inv h s" and c: "heap_of s a = Some c" "k < length (pc_sends c)" "ss_phase s a k = SpSpawned"
  shows "send_inv h (s\<lparr>ss_phase := (ss_phase s)(a := (ss_phase s a)(k := if pc_connected c then SpWriting else SpEnded))\<rparr>)"
    (is "send_inv h ?t")
proof -
  have w: "writers_ok s" and m: "messages_ok s" using inv by (simp_all add: send_inv_def)
  have "writers_ok ?t" using w c by (auto simp: writers_ok_def sends_at_def)
  moreover have keep: "arrived ?t b = arrived s b" if "heap_of s b = Some e" "pc_connected e" for b e
  proof -
    have "done_sends ?t b = done_sends s b" using that c(1,3) by (auto simp: done_sends_def)
    then show ?thesis by (simp add: arrived_def)
  qed
  have "messages_ok ?t"
    unfolding messages_ok_def
  proof (intro conjI allI impI)
    show "ss_chan ?t b = []" "ss_taken ?t b = []" if "heap_of ?t b = None" for b
      using that m by (simp_all add: messages_ok_def)
    show "mset (ss_taken ?t b @ ss_chan ?t b) = arrived ?t b" if "heap_of ?t b = Some e \<and> pc_connected e" for b e
      using that m keep [of b e] by (simp add: messages_ok_def)
  qed
  ultimately show ?thesis using inv by (simp add: send_inv_def lock_ok_def)
qed

lemma write_ok:
  assumes inv: "send_inv h s" and c: "heap_of s a = Some c" "k < length (pc_sends c)" "ss_phase s a k = SpWriting"
  shows "send_inv h (s\<lparr>ss_phase := (ss_phase s)(a := (ss_phase s a)(k := SpEnded)),
      ss_chan := (ss_chan s)(a := ss_chan s a @ [snd (pc_sends c ! k)])\<rparr>)" (is "send_inv h ?t")
proof -
  have w: "writers_ok s" and m: "messages_ok s" using inv by (simp_all add: send_inv_def)
  have "writers_ok ?t" using w c by (auto simp: writers_ok_def sends_at_def)
  moreover have other: "arrived ?t b = arrived s b" if "b \<noteq> a" for b
    using that by (simp add: arrived_def done_sends_def)
  moreover have "arrived ?t a = add_mset (snd (pc_sends c ! k)) (arrived s a)"
  proof -
    have "done_sends ?t a = insert k (done_sends s a)" "k \<notin> done_sends s a" using c by (auto simp: done_sends_def sends_at_def)
    then show ?thesis using c(1) by (simp add: arrived_def sends_at_def)
  qed
  ultimately have "messages_ok ?t" using m c(1) by (auto simp: messages_ok_def)
  with \<open>writers_ok ?t\<close> show ?thesis using inv by (simp add: send_inv_def lock_ok_def)
qed

lemma take_ok:
  assumes inv: "send_inv h s" and "ss_chan s a = msg # rest"
  shows "send_inv h (s\<lparr>ss_chan := (ss_chan s)(a := rest), ss_taken := (ss_taken s)(a := ss_taken s a @ [msg])\<rparr>)"
    (is "send_inv h ?t")
proof -
  have m: "messages_ok s" using inv by (simp add: send_inv_def)
  have "arrived ?t b = arrived s b" for b by (simp add: arrived_def done_sends_def)
  moreover have "heap_of s a \<noteq> None" using m assms(2) by (auto simp: messages_ok_def)
  ultimately have "messages_ok ?t" using m assms(2) by (auto simp: messages_ok_def)
  then show ?thesis using inv by (simp add: send_inv_def lock_ok_def writers_ok_def)
qed

lemma send_inv_step:
  assumes inv: "send_inv h s" and "send_step {h} s t"
  shows "send_inv h t"
proof -
  obtain x where x: "keeps_promise {h} x" "send_act x s = Some t" using assms(2) by (auto elim: send_stepE)
  show ?thesis
  proof (cases x)
    case (Bus y)
    show ?thesis
    proof (cases "y = Goroutine")
      case True
      then show ?thesis using turn_ok [OF inv] x(2) Bus by simp
    next
      case False
      then show ?thesis using others_ok [OF inv, of y] x Bus by (auto split: if_splits)
    qed
  next
    case (StartSend a k)
    then show ?thesis using start_ok [OF inv, of a _ k] x(2) by (auto split: if_splits option.splits)
  next
    case (WriteSend a k)
    then obtain c where c: "heap_of s a = Some c" "k < length (pc_sends c)" "ss_phase s a k = SpWriting"
      using x(2) by (auto split: if_splits option.splits)
    then have "\<not> pc_closed c" using inv by (auto simp: send_inv_def writers_ok_def)
    then show ?thesis using write_ok [OF inv c] x(2) c WriteSend by (auto split: if_splits)
  next
    case (TakeMsg a)
    then show ?thesis using take_ok [OF inv, of a] x(2) by (auto split: if_splits list.splits)
  qed
qed

interpretation sendbus: invariant_system "send_init h" "send_step {h}" "send_inv h" for h
  by unfold_locales (fact send_inv_init, fact send_inv_step)

section \<open>Nothing waits for ever\<close>

text \<open>
  What the goroutines and receive loops do on their own: the bus goroutine until it is back at its receive, the senders and the
  loops of the pods.
\<close>

definition onward :: "sender_act \<Rightarrow> send_sys \<Rightarrow> send_sys \<Rightarrow> bool" where
  "onward x s t \<longleftrightarrow> send_act x s = Some t
     \<and> (case x of Bus y \<Rightarrow> y = Goroutine \<and> bs_phase (ss_bus s) \<noteq> BpReceive | _ \<Rightarrow> True)"

fun onward_run :: "sender_act list \<Rightarrow> send_sys \<Rightarrow> send_sys \<Rightarrow> bool" where
  "onward_run [] s t \<longleftrightarrow> t = s"
| "onward_run (x # xs) s t \<longleftrightarrow> (\<exists>u. onward x s u \<and> onward_run xs u t)"

text \<open>The steps that the messages on their way to a connection still need.\<close>

fun sender_rank :: "sender_phase \<Rightarrow> nat" where
  "sender_rank SpSpawned = 3"
| "sender_rank SpWriting = 2"
| "sender_rank SpEnded = 0"

definition way_to :: "send_sys \<Rightarrow> addr \<Rightarrow> nat" where
  "way_to s a = (\<Sum>k < length (sends_at (ss_bus s) a). sender_rank (ss_phase s a k)) + length (ss_chan s a)"

text \<open>The steps the bus goroutine may still need, counted from the best account of where its traversal is.\<close>

definition budgets :: "addr \<Rightarrow> send_sys \<Rightarrow> nat set" where
  "budgets h s = {2 * fuel (ss_bus s) as rem - (if ss_lock s = None then 0 else 1) | as rem vis. sys_inv h (ss_bus s) as rem vis}"

definition budget :: "addr \<Rightarrow> send_sys \<Rightarrow> nat" where
  "budget h s = (LEAST n. n \<in> budgets h s)"

lemma budget_least:
  assumes "send_inv h s"
  obtains as rem vis where "sys_inv h (ss_bus s) as rem vis"
    and "budget h s = 2 * fuel (ss_bus s) as rem - (if ss_lock s = None then 0 else 1)"
proof -
  have "\<exists>n. n \<in> budgets h s" using assms by (auto simp: send_inv_def inter_inv_def budgets_def)
  then have "budget h s \<in> budgets h s" unfolding budget_def by (rule LeastI_ex)
  then show ?thesis using that by (auto simp: budgets_def)
qed

lemma budget_below:
  "sys_inv h (ss_bus s) as rem vis \<Longrightarrow> budget h s \<le> 2 * fuel (ss_bus s) as rem - (if ss_lock s = None then 0 else 1)"
  unfolding budget_def by (rule Least_le) (auto simp: budgets_def)

lemma turn_budget:
  assumes inv: "send_inv h s" and ph: "bs_phase (ss_bus s) \<noteq> BpReceive" and turn: "bus_turn s = Some t"
  shows "budget h t < budget h s"
proof -
  obtain as rem vis where sys: "sys_inv h (ss_bus s) as rem vis"
      and budget: "budget h s = 2 * fuel (ss_bus s) as rem - (if ss_lock s = None then 0 else 1)"
    using budget_least [OF inv] .
  obtain b as' rem' vis' where b: "bus_step (ss_bus s) = Some b" "sys_inv h b as' rem' vis'"
      "fuel b as' rem' < fuel (ss_bus s) as rem"
    using goroutine_progress [OF sys ph] by (auto simp: progresses_def)
  have go: "?thesis" if "t = s\<lparr>ss_bus := b, ss_lock := None\<rparr>"
    using budget_below [of h t as' rem' vis'] b(2,3) budget that by auto
  show ?thesis
  proof (cases "t = s\<lparr>ss_bus := b, ss_lock := None\<rparr>")
    case False
    then obtain a where "t = s\<lparr>ss_lock := Some a\<rparr>" "ss_lock s = None"
      using turn b(1) by (auto simp: bus_turn_def Let_def split: if_splits option.splits sum.splits)
    then show ?thesis using budget_below [of h t as rem vis] sys budget b(3) by simp
  qed (rule go)
qed

text \<open>The other steps leave the bus alone and shorten the way of a message.\<close>

fun concerns :: "addr \<Rightarrow> sender_act \<Rightarrow> bool" where
  "concerns a (Bus x) = False"
| "concerns a (StartSend b k) = (b = a)"
| "concerns a (WriteSend b k) = (b = a)"
| "concerns a (TakeMsg b) = (b = a)"

lemma sum_shrinks:
  fixes f g :: "nat \<Rightarrow> nat"
  shows "k < n \<Longrightarrow> f k + d \<le> g k \<Longrightarrow> (\<And>i. i \<noteq> k \<Longrightarrow> f i = g i) \<Longrightarrow> (\<Sum>i<n. f i) + d \<le> (\<Sum>i<n. g i)"
proof -
  assume k: "k < n" and le: "f k + d \<le> g k" and same: "\<And>i. i \<noteq> k \<Longrightarrow> f i = g i"
  have "(\<Sum>i<n. f i) = f k + (\<Sum>i\<in>{..<n} - {k}. f i)" using k by (intro sum.remove) auto
  moreover have "(\<Sum>i<n. g i) = g k + (\<Sum>i\<in>{..<n} - {k}. g i)" using k by (intro sum.remove) auto
  moreover have "(\<Sum>i\<in>{..<n} - {k}. f i) = (\<Sum>i\<in>{..<n} - {k}. g i)" using same by (intro sum.cong) auto
  ultimately show ?thesis using le by simp
qed

lemma phase_shrinks:
  assumes "k < length (sends_at (ss_bus s) a)" and "sender_rank ph + d \<le> sender_rank (ss_phase s a k)"
  shows "(\<Sum>i < length (sends_at (ss_bus s) a). sender_rank (((ss_phase s a)(k := ph)) i)) + d
    \<le> (\<Sum>i < length (sends_at (ss_bus s) a). sender_rank (ss_phase s a i))"
  using assms by (intro sum_shrinks [of k]) auto

lemma concerning_step:
  assumes inv: "send_inv h s" and step: "onward x s t" and "concerns a x"
  shows "ss_bus t = ss_bus s \<and> ss_lock t = ss_lock s \<and> way_to t a < way_to s a
    \<and> (\<forall>b. b \<noteq> a \<longrightarrow> way_to t b = way_to s b) \<and> heap_of s a \<noteq> None"
proof (cases x)
  case (StartSend b k)
  then obtain c where c: "heap_of s a = Some c" "k < length (sends_at (ss_bus s) a)" "ss_phase s a k = SpSpawned"
      "t = s\<lparr>ss_phase := (ss_phase s)(a := (ss_phase s a)(k := if pc_connected c then SpWriting else SpEnded))\<rparr>"
    using assms by (auto simp: onward_def sends_at_def split: if_splits option.splits)
  moreover obtain ph where "ph = (if pc_connected c then SpWriting else SpEnded)" by blast
  moreover have "sender_rank ph + 1 \<le> sender_rank (ss_phase s a k)" using calculation by simp
  ultimately show ?thesis using phase_shrinks [of k s a ph 1] by (simp add: way_to_def)
next
  case (WriteSend b k)
  then obtain c where c: "heap_of s a = Some c" "k < length (sends_at (ss_bus s) a)" "ss_phase s a k = SpWriting"
      "pc_closed c \<or> t = s\<lparr>ss_phase := (ss_phase s)(a := (ss_phase s a)(k := SpEnded)),
                           ss_chan := (ss_chan s)(a := ss_chan s a @ [snd (pc_sends c ! k)])\<rparr>"
    using assms by (auto simp: onward_def sends_at_def split: if_splits option.splits)
  moreover have "\<not> pc_closed c" using inv c by (auto simp: send_inv_def writers_ok_def)
  ultimately show ?thesis using phase_shrinks [of k s a SpEnded 2] by (auto simp: way_to_def)
next
  case (TakeMsg b)
  moreover have "heap_of s a \<noteq> None" if "ss_chan s a \<noteq> []"
    using inv that by (auto simp: send_inv_def messages_ok_def)
  ultimately show ?thesis
    using assms by (auto simp: onward_def way_to_def split: if_splits list.splits)
qed (use assms in simp)

lemma onward_cases:
  assumes "onward x s t"
  obtains (bus) "x = Bus Goroutine" "bs_phase (ss_bus s) \<noteq> BpReceive" "bus_turn s = Some t" | (other) a where "concerns a x"
  using assms by (cases x) (auto simp: onward_def)

lemma onward_step: "onward x s t \<Longrightarrow> send_step {h} s t"
  by (rule send_step.act [of _ x]) (auto simp: onward_def split: sender_act.splits)

lemma onward_run_inv: "onward_run xs s t \<Longrightarrow> send_inv h s \<Longrightarrow> send_inv h t"
proof (induction xs arbitrary: s)
  case (Cons x xs)
  then obtain u where "onward x s u" "onward_run xs u t" by auto
  with Cons.IH [of u] send_inv_step [OF Cons.prems(2) onward_step] show ?case by blast
qed simp

lemma budget_same:
  "ss_bus t = ss_bus s \<Longrightarrow> ss_lock t = ss_lock s \<Longrightarrow> budget h t = budget h s"
  by (simp add: budget_def budgets_def)

lemma bus_turns_bounded:
  "onward_run xs s t \<Longrightarrow> send_inv h s \<Longrightarrow> count_list xs (Bus Goroutine) + budget h t \<le> budget h s"
proof (induction xs arbitrary: s)
  case (Cons x xs)
  then obtain u where u: "onward x s u" "onward_run xs u t" by auto
  have inv: "send_inv h u" by (rule send_inv_step [OF Cons.prems(2) onward_step [OF u(1)]])
  note IH = Cons.IH [OF u(2) inv]
  from u(1) show ?case
  proof (cases rule: onward_cases)
    case bus
    then show ?thesis using turn_budget [OF Cons.prems(2) bus(2,3)] IH by simp
  next
    case (other a)
    then have "x \<noteq> Bus Goroutine" by auto
    then show ?thesis using concerning_step [OF Cons.prems(2) u(1) other] budget_same [of u s] IH by simp
  qed
qed simp

definition all_ways :: "send_sys \<Rightarrow> nat" where
  "all_ways s = (\<Sum>a < pl_fresh (pool_of (ss_bus s)). way_to s a)"

lemma concerning_all:
  assumes inv: "send_inv h s" and "onward x s t" and "concerns a x"
  shows "all_ways t < all_ways s"
proof -
  note c = concerning_step [OF assms]
  then have "a < pl_fresh (pool_of (ss_bus s))" using inv inter_inv_ok(2) by (auto simp: send_inv_def)
  then have "(\<Sum>b < pl_fresh (pool_of (ss_bus s)). way_to t b) + 1 \<le> (\<Sum>b < pl_fresh (pool_of (ss_bus s)). way_to s b)"
    using c by (intro sum_shrinks [of a]) auto
  then show ?thesis using c by (simp add: all_ways_def)
qed

lemma onward_decreases:
  assumes inv: "send_inv h s" and step: "onward x s t"
  shows "((budget h t, all_ways t), (budget h s, all_ways s)) \<in> less_than <*lex*> less_than"
  using step
proof (cases rule: onward_cases)
  case bus
  then show ?thesis using turn_budget [OF inv bus(2,3)] by simp
next
  case (other a)
  then show ?thesis using concerning_all [OF inv step other] concerning_step [OF inv step other] budget_same [of t s] by simp
qed

lemma no_endless_run:
  assumes inv: "send_inv h (f 0)"
  shows "\<exists>i. \<forall>x. \<not> onward x (f i) (f (Suc i))"
proof (rule ccontr)
  assume "\<not> ?thesis"
  then have step: "\<exists>x. onward x (f i) (f (Suc i))" for i by blast
  have "send_inv h (f i)" for i
  proof (induction i)
    case (Suc i)
    then show ?case using step [of i] send_inv_step onward_step by blast
  qed (rule inv)
  then have "((budget h (f (Suc i)), all_ways (f (Suc i))), (budget h (f i), all_ways (f i))) \<in> less_than <*lex*> less_than" for i
    using onward_decreases step by blast
  moreover have "wf (less_than <*lex*> less_than)" by (rule wf_lex_prod) simp_all
  ultimately show False
    using wf_no_infinite_down_chainE [of "less_than <*lex*> less_than" "\<lambda>i. (budget h (f i), all_ways (f i))"] by blast
qed

lemma not_crashed: "inter_inv h b \<Longrightarrow> \<not> crashed (bs_phase b)"
  by (auto simp: inter_inv_def sys_inv_def elim: crashed.elims)

text \<open>A connection on which nothing can move, although the bus does not want its lock, has all its messages taken.\<close>

lemma settled:
  assumes inv: "send_inv h s" and c: "heap_of s a = Some c" "pc_connected c" and "ss_lock s \<noteq> Some a"
    and still: "\<And>x u. concerns a x \<Longrightarrow> \<not> onward x s u"
  shows "mset (ss_taken s a) = mset (map snd (pc_sends c))"
proof -
  have live: "\<not> crashed (bs_phase (ss_bus s))" using inv not_crashed by (auto simp: send_inv_def)
  have open_chan: "\<not> pc_closed c" using inv c by (auto simp: send_inv_def writers_ok_def)
  have chan: "ss_chan s a = []"
    using still [of "TakeMsg a"] live by (cases "ss_chan s a") (auto simp: onward_def)
  have "ss_phase s a k = SpEnded" if k: "k < length (pc_sends c)" for k
    using still [of "StartSend a k"] still [of "WriteSend a k"] live open_chan chan c assms(4) k
    by (cases "ss_phase s a k") (auto simp: onward_def defaultPodChanSize_def)
  then have "done_sends s a = {..<length (pc_sends c)}" using c(1) by (auto simp: done_sends_def sends_at_def)
  then have "arrived s a = mset (map (\<lambda>k. snd (pc_sends c ! k)) [0..<length (pc_sends c)])"
    using c(1) by (simp add: arrived_def sends_at_def flip: atLeast0LessThan)
  moreover have "map (\<lambda>k. snd (pc_sends c ! k)) [0..<length (pc_sends c)] = map snd (pc_sends c)"
    by (rule nth_equalityI) simp_all
  moreover have "mset (ss_taken s a @ ss_chan s a) = arrived s a"
    using inv c unfolding send_inv_def messages_ok_def by blast
  ultimately show ?thesis using chan by simp
qed

text \<open>The bus goroutine waits only for goroutines that hold the read lock, and those for the pod.\<close>

lemma waits_for_writer:
  assumes inv: "send_inv h s" and ph: "bs_phase (ss_bus s) \<noteq> BpReceive"
  shows "\<exists>x t. onward x s t"
proof -
  have live: "\<not> crashed (bs_phase (ss_bus s))" using inv not_crashed by (auto simp: send_inv_def)
  obtain as rem vis where sys: "sys_inv h (ss_bus s) as rem vis" using inv by (auto simp: send_inv_def inter_inv_def)
  obtain b where b: "bus_act Goroutine (ss_bus s) = Some b"
    using goroutine_progress [OF sys ph] by (auto simp: progresses_def)
  show ?thesis
  proof (cases "bus_turn s")
    case (Some t)
    then have "onward (Bus Goroutine) s t" using ph by (simp add: onward_def)
    then show ?thesis by blast
  next
    case None
    then obtain a k where k: "k < length (sends_at (ss_bus s) a)" "ss_phase s a k = SpWriting"
      using b by (auto simp: bus_turn_def Let_def split: if_splits option.splits sum.splits)
    then obtain c where c: "heap_of s a = Some c" "\<not> pc_closed c"
      using inv unfolding send_inv_def writers_ok_def by blast
    show ?thesis
    proof (cases "ss_chan s a")
      case Nil
      then have "\<exists>t. onward (WriteSend a k) s t"
        using live c k by (simp add: onward_def sends_at_def defaultPodChanSize_def)
      then show ?thesis by blast
    next
      case (Cons msg rest)
      then have "\<exists>t. onward (TakeMsg a) s t" using live by (simp add: onward_def)
      then show ?thesis by blast
    qed
  qed
qed

text \<open>Whatever happens, what has been sent stays sent.\<close>

lemma sends_stay:
  assumes inv: "send_inv h s" and step: "send_step {h} s t"
  shows "\<exists>ys. sends_at (ss_bus t) a = sends_at (ss_bus s) a @ ys"
proof -
  have i: "inter_inv h (ss_bus s)" using inv by (simp add: send_inv_def)
  obtain x where x: "send_act x s = Some t" using step by (auto elim: send_stepE)
  have refl: ?thesis if "sends_at (ss_bus t) = sends_at (ss_bus s)" using that by simp
  show ?thesis
  proof (cases x)
    case (Bus y)
    then consider (same) "ss_bus t = ss_bus s" | (act) "bus_act y (ss_bus s) = Some (ss_bus t)"
      using x by (auto simp: bus_turn_def Let_def split: if_splits option.splits sum.splits)
    then show ?thesis
    proof cases
      case act
      have "\<exists>d. grows d (pool_of (ss_bus s)) (pool_of (ss_bus t))"
        using act goroutine_act_grows [of "ss_bus s" "ss_bus t", OF _ i] act_grows [OF act i]
        by (cases "y = Goroutine") (auto simp: turn_grows_def)
      then show ?thesis using sends_grow by blast
    qed (simp add: refl)
  qed (use x in \<open>auto simp: sends_at_def split: if_splits option.splits list.splits\<close>)
qed

lemma sends_stay_steps:
  assumes "(send_step {h})\<^sup>*\<^sup>* s t" and "send_inv h s"
  shows "send_inv h t \<and> set (sends_at (ss_bus s) a) \<subseteq> set (sends_at (ss_bus t) a)"
  using assms
proof (induction rule: rtranclp_induct)
  case (step t u)
  then have t: "send_inv h t" "set (sends_at (ss_bus s) a) \<subseteq> set (sends_at (ss_bus t) a)" by simp_all
  obtain ys where "sends_at (ss_bus u) a = sends_at (ss_bus t) a @ ys" using sends_stay [OF t(1) step(2)] by blast
  then show ?case using t send_inv_step [OF t(1) step(2)] by auto
qed simp

lemma concerning_run_bounded:
  "onward_run xs s t \<Longrightarrow> send_inv h s \<Longrightarrow> \<forall>x \<in> set xs. concerns a x \<Longrightarrow> length xs + way_to t a \<le> way_to s a"
proof (induction xs arbitrary: s)
  case (Cons x xs)
  then obtain u where u: "onward x s u" "onward_run xs u t" by auto
  have "way_to u a < way_to s a" using concerning_step [OF Cons.prems(2) u(1), of a] Cons.prems(3) by simp
  moreover have "length xs + way_to t a \<le> way_to u a"
    using Cons.IH [OF u(2) send_inv_step [OF Cons.prems(2) onward_step [OF u(1)]]] Cons.prems(3) by simp
  ultimately show ?case by simp
qed simp

section \<open>Properties\<close>

text \<open>Property C11. The bus always comes back for the next message, although it waits at \<open>disconnect\<close>, with the lock of the
  pool, for the goroutines that hold the read lock of the connection while they write to its channel: from every state that an
  interleaving of the bus, the connects, the feedback, the senders and the pods reaches, once no more connects and feedback come,
  the bus goroutine makes at most 80 steps per connection of the ring, two per feedback message not yet read, and 68 more;
  no run of it, the senders and the receive loops of the pods goes on for ever;
  and a run can only end with the bus at its receive. One pod of the ring, as the hub's, reports no
  failure and stays connected.\<close>

theorem message_handling_ends:
  assumes "reach (send_init h) (send_step {h}) s"
  shows "(\<exists>as. ring (pool_of (ss_bus s)) as \<and> (\<forall>xs t. onward_run xs s t \<longrightarrow>
            count_list xs (Bus Goroutine) \<le> 2 * (unread (pool_of (ss_bus s)) as + 40 * length as + 34)))
    \<and> \<not> (\<exists>f. f 0 = s \<and> (\<forall>i. \<exists>x. onward x (f i) (f (Suc i))))
    \<and> (\<forall>xs t. onward_run xs s t \<and> (\<forall>x u. \<not> onward x t u) \<longrightarrow> bs_phase (ss_bus t) = BpReceive)"
proof (intro conjI)
  have inv: "send_inv h s" using sendbus.inv_reach [OF assms] .
  then obtain as rem vis where sys: "sys_inv h (ss_bus s) as rem vis" by (auto simp: send_inv_def inter_inv_def)
  have "ring (pool_of (ss_bus s)) as" using sys by (simp add: sys_inv_def ring_inv_def bus_ok_def pool_ok_def)
  moreover have "budget h s \<le> 2 * (unread (pool_of (ss_bus s)) as + 40 * length as + 34)"
    using budget_below [OF sys] fuel_bound [OF sys] by (simp split: if_splits)
  then have "count_list xs (Bus Goroutine) \<le> 2 * (unread (pool_of (ss_bus s)) as + 40 * length as + 34)"
    if "onward_run xs s t" for xs t
    using bus_turns_bounded [OF that inv] by simp
  ultimately show "\<exists>as. ring (pool_of (ss_bus s)) as \<and> (\<forall>xs t. onward_run xs s t \<longrightarrow>
      count_list xs (Bus Goroutine) \<le> 2 * (unread (pool_of (ss_bus s)) as + 40 * length as + 34))" by blast
  show "\<not> (\<exists>f. f 0 = s \<and> (\<forall>i. \<exists>x. onward x (f i) (f (Suc i))))" using no_endless_run inv by blast
  show "\<forall>xs t. onward_run xs s t \<and> (\<forall>x u. \<not> onward x t u) \<longrightarrow> bs_phase (ss_bus t) = BpReceive"
    using onward_run_inv [OF _ inv] waits_for_writer by blast
qed

text \<open>The bus of the hub's pod alone, before anything is sent.\<close>

definition start_senders :: send_sys where
  "start_senders = \<lparr>ss_bus = start_sys, ss_phase = (\<lambda>a k. SpSpawned), ss_chan = (\<lambda>a. []), ss_lock = None, ss_taken = (\<lambda>a. [])\<rparr>"

lemma start_senders_init: "send_init 0 start_senders"
  using start_sys_init
  by (auto simp: send_init_def start_senders_def start_sys_def newPodConnection_def split: if_splits)

lemma send_reach:
  assumes "\<forall>x \<in> set xs. keeps_promise {0} x" and "send_run xs start_senders = Some s"
  shows "reach (send_init 0) (send_step {0}) s"
  using send_run_steps [OF assms] start_senders_init by (blast intro: reach_steps reach_init)

text \<open>The pod of the connection 1 asks to be disconnected while its message is being written.\<close>

definition waiting_schedule :: "message \<Rightarrow> sender_act list" where
  "waiting_schedule msg = map Bus (before_delete msg) @ [StartSend 1 0, Bus Goroutine]"

definition delivering_schedule :: "message \<Rightarrow> sender_act list" where
  "delivering_schedule msg = map Bus (undisturbed_schedule msg)"

lemma waiting_run:
  "\<exists>s. send_run (waiting_schedule (NewMsg ''u'' 0 ''t'' [])) start_senders = Some s
    \<and> ss_lock s = Some 1 \<and> ss_phase s 1 0 = SpWriting \<and> send_act (Bus Goroutine) s = None"
proof -
  have "case send_run (waiting_schedule (NewMsg ''u'' 0 ''t'' [])) start_senders of None \<Rightarrow> False | Some s \<Rightarrow>
      ss_lock s = Some 1 \<and> ss_phase s 1 0 = SpWriting \<and> Option.is_none (send_act (Bus Goroutine) s)"
    by code_simp
  then show ?thesis by (auto simp: Option.is_none_def split: option.splits)
qed

theorem message_handling_ends_witness:
  "\<exists>s. send_run (waiting_schedule (NewMsg ''u'' 0 ''t'' [])) start_senders = Some s
    \<and> ss_lock s = Some 1 \<and> send_act (Bus Goroutine) s = None
    \<and> (\<forall>xs t. onward_run xs s t \<and> (\<forall>x u. \<not> onward x t u) \<longrightarrow> bs_phase (ss_bus t) = BpReceive)"
proof -
  obtain s where s: "send_run (waiting_schedule (NewMsg ''u'' 0 ''t'' [])) start_senders = Some s"
      "ss_lock s = Some 1" "send_act (Bus Goroutine) s = None"
    using waiting_run by blast
  have "reach (send_init 0) (send_step {0}) s"
    using schedules_allowed by (intro send_reach [OF _ s(1)]) (auto simp: waiting_schedule_def)
  from message_handling_ends [OF this] s show ?thesis by blast
qed

text \<open>Property C2. Every message reaches the receive loops of the pods, in every interleaving. When the bus has handled a message, then
  for every connection of its ring that was there when it took the message from the bus channel: the goroutines of the connection
  and the loop of its pod, on their own, come to an end after at most three steps per
  message; and whenever, after any further steps of everyone, nothing more can move on
  the connection, while it is still connected and not about to be removed, the pod's loop has taken the message, and has taken exactly the
  messages ever sent to the connection, each as often as it was sent. (Each message it takes starts a call of the pod's function,
  which is not part of this.)\<close>

theorem messages_reach_pods:
  assumes "reach (send_init h) (send_step {h}) s" and "bs_phase (ss_bus s) = BpPush msg"
  shows "\<exists>as. ring (pool_of (ss_bus s)) as \<and> (\<forall>a \<in> set as. a < bs_mark (ss_bus s) \<longrightarrow>
       (\<forall>xs t. onward_run xs s t \<and> (\<forall>x \<in> set xs. concerns a x) \<longrightarrow> length xs \<le> way_to s a)
     \<and> (\<forall>t. (send_step {h})\<^sup>*\<^sup>* s t \<and> pc_connected (conn_at (pool_of (ss_bus t)) a) \<and> ss_lock t \<noteq> Some a
          \<and> (\<forall>x u. concerns a x \<longrightarrow> \<not> onward x t u) \<longrightarrow>
            Some msg \<in> set (ss_taken t a)
          \<and> mset (ss_taken t a) = mset (map snd (pc_sends (conn_at (pool_of (ss_bus t)) a)))))"
proof -
  have inv: "send_inv h s" using sendbus.inv_reach [OF assms(1)] .
  then obtain as rem vis where sys: "sys_inv h (ss_bus s) as rem vis" by (auto simp: send_inv_def inter_inv_def)
  show ?thesis
  proof (intro exI [of _ as] conjI ballI allI impI)
    show "ring (pool_of (ss_bus s)) as" using sys by (simp add: sys_inv_def ring_inv_def bus_ok_def pool_ok_def)
  next
    fix a xs t
    assume "onward_run xs s t \<and> (\<forall>x \<in> set xs. concerns a x)"
    then show "length xs \<le> way_to s a" using concerning_run_bounded [of xs s t h a] inv by simp
  next
    fix a t
    assume a: "a \<in> set as" "a < bs_mark (ss_bus s)"
      and t: "(send_step {h})\<^sup>*\<^sup>* s t \<and> pc_connected (conn_at (pool_of (ss_bus t)) a) \<and> ss_lock t \<noteq> Some a
        \<and> (\<forall>x u. concerns a x \<longrightarrow> \<not> onward x t u)"
    have "got (pool_of (ss_bus s)) msg a" using sys assms(2) a by (auto simp: sys_inv_def)
    then have sent: "(Spawned, Some msg) \<in> set (sends_at (ss_bus s) a)"
      by (auto simp: got_def sends_at_def conn_at_def)
    from t have inv': "send_inv h t" and sent': "(Spawned, Some msg) \<in> set (sends_at (ss_bus t) a)"
      using sends_stay_steps [OF _ inv, of t a] sent by auto
    then obtain c where c: "heap_of t a = Some c" "(Spawned, Some msg) \<in> set (pc_sends c)"
      by (cases "heap_of t a") (simp_all add: sends_at_def)
    then have conn: "conn_at (pool_of (ss_bus t)) a = c" by (simp add: conn_at_def)
    have all: "mset (ss_taken t a) = mset (map snd (pc_sends c))"
      using t conn by (intro settled [OF inv' c(1)]) auto
    show "mset (ss_taken t a) = mset (map snd (pc_sends (conn_at (pool_of (ss_bus t)) a)))" using all conn by simp
    have "Some msg \<in> set (map snd (pc_sends c))" using c(2) by force
    then show "Some msg \<in> set (ss_taken t a)" using mset_eq_setD [OF all] by simp
  qed
qed

lemma delivered_run:
  "\<exists>s t. send_run (delivering_schedule (NewMsg ''u'' 0 ''t'' [])) start_senders = Some s
    \<and> bs_phase (ss_bus s) = BpPush (NewMsg ''u'' 0 ''t'' []) \<and> bs_mark (ss_bus s) = 2
    \<and> pc_next (conn_at (pool_of (ss_bus s)) 1) = Some 0 \<and> pl_current (pool_of (ss_bus s)) = Some 1
    \<and> send_run [StartSend 1 0, WriteSend 1 0, TakeMsg 1] s = Some t
    \<and> pc_connected (conn_at (pool_of (ss_bus t)) 1) \<and> ss_lock t = None \<and> ss_phase t 1 0 = SpEnded \<and> ss_chan t 1 = []
    \<and> sends_at (ss_bus t) 1 = [(Spawned, Some (NewMsg ''u'' 0 ''t'' []))]"
proof -
  have "case send_run (delivering_schedule (NewMsg ''u'' 0 ''t'' [])) start_senders of None \<Rightarrow> False | Some s \<Rightarrow>
      bs_phase (ss_bus s) = BpPush (NewMsg ''u'' 0 ''t'' []) \<and> bs_mark (ss_bus s) = 2
    \<and> pc_next (conn_at (pool_of (ss_bus s)) 1) = Some 0 \<and> pl_current (pool_of (ss_bus s)) = Some 1
    \<and> (case send_run [StartSend 1 0, WriteSend 1 0, TakeMsg 1] s of None \<Rightarrow> False | Some t \<Rightarrow>
        pc_connected (conn_at (pool_of (ss_bus t)) 1) \<and> Option.is_none (ss_lock t) \<and> ss_phase t 1 0 = SpEnded
      \<and> List.null (ss_chan t 1) \<and> sends_at (ss_bus t) 1 = [(Spawned, Some (NewMsg ''u'' 0 ''t'' []))])"
    by code_simp
  then show ?thesis by (auto simp: Option.is_none_def simp del: send_run.simps split: option.splits)
qed

theorem messages_reach_pods_witness:
  "\<exists>s t. send_run (delivering_schedule (NewMsg ''u'' 0 ''t'' [])) start_senders = Some s
    \<and> send_run [StartSend 1 0, WriteSend 1 0, TakeMsg 1] s = Some t \<and> mset (ss_taken t 1) = {#Some (NewMsg ''u'' 0 ''t'' [])#}"
proof -
  obtain s t where s: "send_run (delivering_schedule (NewMsg ''u'' 0 ''t'' [])) start_senders = Some s"
      "bs_phase (ss_bus s) = BpPush (NewMsg ''u'' 0 ''t'' [])" "bs_mark (ss_bus s) = 2"
      "pl_current (pool_of (ss_bus s)) = Some 1"
    and t: "send_run [StartSend 1 0, WriteSend 1 0, TakeMsg 1] s = Some t"
      "pc_connected (conn_at (pool_of (ss_bus t)) 1)" "ss_lock t = None" "ss_phase t 1 0 = SpEnded" "ss_chan t 1 = []"
      "sends_at (ss_bus t) 1 = [(Spawned, Some (NewMsg ''u'' 0 ''t'' []))]"
    using delivered_run by blast
  have r: "reach (send_init 0) (send_step {0}) s"
    using schedules_allowed by (intro send_reach [OF _ s(1)]) (auto simp: delivering_schedule_def)
  have "(send_step {0})\<^sup>*\<^sup>* s t" by (rule send_run_steps [OF _ t(1)]) simp
  moreover obtain c where c: "heap_of t 1 = Some c" "pc_sends c = [(Spawned, Some (NewMsg ''u'' 0 ''t'' []))]"
    using t(6) by (auto simp: sends_at_def split: option.splits)
  moreover have "\<forall>x u. concerns 1 x \<longrightarrow> \<not> onward x t u"
  proof (intro allI impI)
    show "\<not> onward x t u" if "concerns 1 x" for x u
      using that t(4,5) c by (cases x) (auto simp: onward_def)
  qed
  moreover obtain as where "ring (pool_of (ss_bus s)) as" "1 \<in> set as" "\<forall>a \<in> set as. a < 2 \<longrightarrow>
      (\<forall>t. (send_step {0})\<^sup>*\<^sup>* s t \<and> pc_connected (conn_at (pool_of (ss_bus t)) a) \<and> ss_lock t \<noteq> Some a
          \<and> (\<forall>x u. concerns a x \<longrightarrow> \<not> onward x t u) \<longrightarrow>
            mset (ss_taken t a) = mset (map snd (pc_sends (conn_at (pool_of (ss_bus t)) a))))"
  proof -
    obtain as where as: "ring (pool_of (ss_bus s)) as" "\<forall>a \<in> set as. a < 2 \<longrightarrow>
      (\<forall>t. (send_step {0})\<^sup>*\<^sup>* s t \<and> pc_connected (conn_at (pool_of (ss_bus t)) a) \<and> ss_lock t \<noteq> Some a
          \<and> (\<forall>x u. concerns a x \<longrightarrow> \<not> onward x t u) \<longrightarrow>
            mset (ss_taken t a) = mset (map snd (pc_sends (conn_at (pool_of (ss_bus t)) a))))"
      using messages_reach_pods [OF r s(2)] s(3) by auto
    moreover have "1 \<in> set as" using as(1) s(4) by (cases as) (auto simp: ring_def)
    ultimately show ?thesis using that by blast
  qed
  ultimately have "mset (ss_taken t 1) = mset (map snd (pc_sends (conn_at (pool_of (ss_bus t)) 1)))"
    using t(2,3) by simp
  then show ?thesis using s(1) t(1) c by (auto simp: conn_at_def)
qed

end
