(* ===== verification/Pod.thy ===== *)
theory Pod
  imports Message_Bus Message_Filter
begin

text \<open>
  The pods of \<open>grav/pod.go\<close>, with the receipts of \<open>grav/receipt.go\<close> and the timeouts of
  \<open>grav/timeout.go\<close>. The first part has the operations of a pod, each run without
  interruption: a pod record, the feedback channel it shares with its connection, and the bus
  channel it sends to. An operation that blocks on a full channel is \<open>None\<close>. The theory
  \<open>Pod_Wait\<close> has the goroutines of \<open>WaitUntil\<close> step by step.
\<close>

section \<open>State\<close>

text \<open>
  A function a pod may hold: one that its owner set, or the wrapper that \<open>WaitUntil\<close> makes
  around the owner's function. Either returns an error or nil (\<open>None\<close>) for a message.
\<close>

type_synonym msgFunc = "message \<Rightarrow> error option"

datatype on_func = Plain msgFunc | Waiter msgFunc

record 'f pod_rec =
  pod_onFunc :: "'f option"
  pod_messageChan :: "msg_ref list"
  pod_feedbackChan :: "feedback list"
  pod_filter :: messageFilter
  pod_WantsReplay :: bool
  pod_replayOnce :: bool
  pod_dead :: bool

text \<open>The type parameter is what the pod's function is: here it is one that makes no calls itself.\<close>

type_synonym pod = "on_func pod_rec"

record msgReceipt =
  rc_UUID :: uuid

definition newPod :: "bool \<Rightarrow> 'f pod_rec" where
  "newPod wantsReplay =
     \<lparr>pod_onFunc = None, pod_messageChan = [], pod_feedbackChan = [], pod_filter = newMessageFilter,
      pod_WantsReplay = wantsReplay, pod_replayOnce = False, pod_dead = False\<rparr>"

definition pod_busChans :: "'f pod_rec \<Rightarrow> msg_ref list \<times> feedback list" where
  "pod_busChans p = (pod_messageChan p, pod_feedbackChan p)"

text \<open>\<open>p.feedbackChan <- f\<close>, on a channel of 128 entries.\<close>

definition feedback_write :: "'f pod_rec \<Rightarrow> feedback \<Rightarrow> 'f pod_rec option" where
  "feedback_write p f =
     (if length (pod_feedbackChan p) < defaultPodChanSize
      then Some (p\<lparr>pod_feedbackChan := pod_feedbackChan p @ [f]\<rparr>) else None)"

section \<open>Operations\<close>

definition pod_Send :: "'f pod_rec \<Rightarrow> message list \<Rightarrow> msg_ref \<Rightarrow> (msgReceipt option \<times> 'f pod_rec \<times> message list) run" where
  "pod_Send p busChan msg =
     (if pod_dead p then Some (Inr (None, p, busChan))
      else (case go_deref msg of
              Inl e \<Rightarrow> Some (Inl e)
            | Inr m \<Rightarrow>
                (let p1 = p\<lparr>pod_filter := FilterUUID (pod_filter p) (msg_UUID m) False\<rparr>
                 in if length busChan < defaultBusChanSize
                    then Some (Inr (Some \<lparr>rc_UUID = msg_UUID m\<rparr>, p1, busChan @ [m]))
                    else None)))"

text \<open>\<open>ReplyTo\<close> writes into the message it is given: its new value is the first result.\<close>

definition pod_ReplyTo ::
  "'f pod_rec \<Rightarrow> message list \<Rightarrow> msg_ref \<Rightarrow> msg_ref \<Rightarrow> (msg_ref \<times> msgReceipt option \<times> 'f pod_rec \<times> message list) run" where
  "pod_ReplyTo p busChan inReplyTo msg =
     (case go_deref inReplyTo of
        Inl e \<Rightarrow> Some (Inl e)
      | Inr q \<Rightarrow>
          (case go_deref msg of
             Inl e \<Rightarrow> Some (Inl e)
           | Inr m \<Rightarrow>
               (let msg' = Some (msg_SetReplyTo m (msg_UUID q))
                in case pod_Send p busChan msg' of
                     None \<Rightarrow> None
                   | Some (Inl e) \<Rightarrow> Some (Inl e)
                   | Some (Inr r) \<Rightarrow> Some (Inr (msg', r)))))"

definition setOnFunc :: "'f pod_rec \<Rightarrow> 'f option \<Rightarrow> 'f pod_rec option" where
  "setOnFunc p on =
     (let p1 = p\<lparr>pod_filter := newMessageFilter, pod_onFunc := on\<rparr>
      in if on \<noteq> None \<and> \<not> pod_replayOnce p1 then
           (let p2 = p1\<lparr>pod_replayOnce := True\<rparr>
            in if pod_WantsReplay p2 then feedback_write p2 FbReplay else Some p2)
         else Some p1)"

definition pod_On :: "pod \<Rightarrow> msgFunc option \<Rightarrow> pod option" where
  "pod_On p onFunc = setOnFunc p (map_option Plain onFunc)"

definition pod_OnType :: "pod \<Rightarrow> string \<Rightarrow> msgFunc option \<Rightarrow> pod option" where
  "pod_OnType p msgType onFunc =
     (case setOnFunc p (map_option Plain onFunc) of
        None \<Rightarrow> None
      | Some p1 \<Rightarrow> Some (p1\<lparr>pod_filter := (FilterType (pod_filter p1) msgType True)\<lparr>TypeInclusive := False\<rparr>\<rparr>))"

definition pod_Disconnect :: "'f pod_rec \<Rightarrow> 'f pod_rec option" where
  "pod_Disconnect p = feedback_write (p\<lparr>pod_dead := True\<rparr>) FbDisconnect"

text \<open>
  The goroutine that \<open>start\<close> spawns for a message. \<open>HStart\<close>: it waits for the read lock.
  \<open>HErr\<close>: it runs the wrapper of \<open>WaitUntil\<close> and sends the function's result on \<open>errChan\<close>.
  \<open>HFeedback\<close>: it is about to write feedback. It holds the read lock in the last two.
\<close>

datatype handler =
    HStart msg_ref
  | HErr message "error option"
  | HFeedback feedback
  | HDone

text \<open>What the goroutine does once it has the read lock, up to its next blocking operation.\<close>

definition handler_enter :: "pod \<Rightarrow> msg_ref \<Rightarrow> panic + handler" where
  "handler_enter p ref =
     (case pod_onFunc p of
        None \<Rightarrow> Inr HDone
      | Some on \<Rightarrow>
          (case messageFilter_allow (pod_filter p) ref of
             Inl e \<Rightarrow> Inl e
           | Inr allowed \<Rightarrow>
               (if \<not> allowed then Inr HDone
                else (case go_deref ref of
                        Inl e \<Rightarrow> Inl e
                      | Inr m \<Rightarrow>
                          Inr (case on of
                                 Plain f \<Rightarrow> (if f m \<noteq> None then HFeedback (FbFailed m) else HFeedback FbSuccess)
                               | Waiter f \<Rightarrow>
                                   (if f m = Some ErrMsgNotWanted then HFeedback FbSuccess
                                    else HErr m (f m)))))))"

text \<open>The whole goroutine, for a pod that is not waiting.\<close>

definition pod_handle :: "pod \<Rightarrow> msg_ref \<Rightarrow> pod run" where
  "pod_handle p ref =
     (case handler_enter p ref of
        Inl e \<Rightarrow> Some (Inl e)
      | Inr (HFeedback f) \<Rightarrow> map_option Inr (feedback_write p f)
      | Inr HDone \<Rightarrow> Some (Inr p)
      | Inr _ \<Rightarrow> None)"

section \<open>Receipts and timeouts\<close>

text \<open>The function \<open>waitOnReply\<close> gives to \<open>WaitUntil\<close>, and what it does when that is back.\<close>

definition reply_wanted :: "uuid \<Rightarrow> msgFunc" where
  "reply_wanted ticketUUID msg = (if msg_ReplyTo msg \<noteq> ticketUUID then Some ErrMsgNotWanted else None)"

definition waitOnReply_finish :: "error option \<Rightarrow> msg_ref \<Rightarrow> (msg_ref \<Rightarrow> error option) \<Rightarrow> error option" where
  "waitOnReply_finish err reply onFunc = (case err of Some e \<Rightarrow> Some e | None \<Rightarrow> onFunc reply)"

text \<open>
  \<open>m.WaitUntil\<close>: an error at once on a nil receipt, otherwise the pod set up to wait; the
  result is \<open>None\<close> if the request for a replay blocks.
\<close>

definition MsgReceipt_WaitUntil :: "msgReceipt option \<Rightarrow> pod \<Rightarrow> error + pod option" where
  "MsgReceipt_WaitUntil m p =
     (case m of
        None \<Rightarrow> Inl ErrNoReceipt
      | Some r \<Rightarrow> Inr (setOnFunc p (Some (Waiter (reply_wanted (rc_UUID r))))))"

definition MsgReceipt_WaitOn :: "msgReceipt option \<Rightarrow> pod \<Rightarrow> error + pod option" where
  "MsgReceipt_WaitOn m p = MsgReceipt_WaitUntil m p"

text \<open>\<open>OnReply\<close> returns nil at once and waits in a goroutine.\<close>

definition MsgReceipt_OnReply :: "msgReceipt option \<Rightarrow> error option" where
  "MsgReceipt_OnReply m = (case m of None \<Rightarrow> Some ErrNoReceipt | Some _ \<Rightarrow> None)"

text \<open>
  \<open>Timeout(seconds)\<close>: the duration in nanoseconds after which its channel fires, \<open>None\<close> for
  never. A duration is a 64-bit integer; \<open>time.After\<close> fires at once on a negative one.
\<close>

definition Timeout :: "int64 \<Rightarrow> int64 option" where
  "Timeout seconds = (if sint seconds > 0 then Some (1000000000 * seconds) else None)"

definition TO :: "int64 \<Rightarrow> int64 option" where
  "TO seconds = Timeout seconds"

section \<open>The owner, the bus and the pod in turn\<close>

datatype pod_op =
    POn "msgFunc option"
  | POnType string "msgFunc option"
  | PSend message
  | PDisconnect
  | PReceive message
  | PDrain

text \<open>State: the pod, the bus channel, and all feedback that the bus has read.\<close>

fun pod_op_step :: "pod_op \<Rightarrow> pod \<times> message list \<times> feedback list \<Rightarrow> (pod \<times> message list \<times> feedback list) option" where
  "pod_op_step (POn f) (p, bc, fb) = map_option (\<lambda>p'. (p', bc, fb)) (pod_On p f)"
| "pod_op_step (POnType ty f) (p, bc, fb) = map_option (\<lambda>p'. (p', bc, fb)) (pod_OnType p ty f)"
| "pod_op_step (PSend m) (p, bc, fb) =
     (case pod_Send p bc (Some m) of Some (Inr (_, p', bc')) \<Rightarrow> Some (p', bc', fb) | _ \<Rightarrow> None)"
| "pod_op_step PDisconnect (p, bc, fb) = map_option (\<lambda>p'. (p', bc, fb)) (pod_Disconnect p)"
| "pod_op_step (PReceive m) (p, bc, fb) =
     (case pod_handle p (Some m) of Some (Inr p') \<Rightarrow> Some (p', bc, fb) | _ \<Rightarrow> None)"
| "pod_op_step PDrain (p, bc, fb) = Some (p\<lparr>pod_feedbackChan := []\<rparr>, bc, fb @ pod_feedbackChan p)"

text \<open>Whether an operation sets a function, and so asks for the replay if none was asked for.\<close>

fun sets_func :: "pod_op \<Rightarrow> bool" where
  "sets_func (POn (Some _)) = True"
| "sets_func (POnType _ (Some _)) = True"
| "sets_func _ = False"

lemma feedback_write_Some:
  "feedback_write p f = Some p' \<longleftrightarrow>
     length (pod_feedbackChan p) < defaultPodChanSize \<and> p' = p\<lparr>pod_feedbackChan := pod_feedbackChan p @ [f]\<rparr>"
  by (auto simp: feedback_write_def)

text \<open>\<open>setOnFunc\<close> in one equation.\<close>

lemma setOnFunc_eq:
  "setOnFunc p on =
     (if on \<noteq> None \<and> \<not> pod_replayOnce p \<and> pod_WantsReplay p
      then feedback_write (p\<lparr>pod_filter := newMessageFilter, pod_onFunc := on, pod_replayOnce := True\<rparr>) FbReplay
      else Some (p\<lparr>pod_filter := newMessageFilter, pod_onFunc := on,
                   pod_replayOnce := pod_replayOnce p \<or> on \<noteq> None\<rparr>))"
  by (cases p) (auto simp: setOnFunc_def Let_def)

text \<open>All feedback written so far, and the state of the replay request.\<close>

definition all_feedback :: "pod \<times> message list \<times> feedback list \<Rightarrow> feedback list" where
  "all_feedback s = snd (snd s) @ pod_feedbackChan (fst s)"

definition replays :: "pod \<times> message list \<times> feedback list \<Rightarrow> nat" where
  "replays s = count_list (all_feedback s) FbReplay"

definition pod_hist :: "pod \<times> message list \<times> feedback list \<Rightarrow> bool" where
  "pod_hist s \<longleftrightarrow> replays s = (if pod_replayOnce (fst s) \<and> pod_WantsReplay (fst s) then 1 else 0)"

fun_cases pod_op_POn: "pod_op_step (POn f) s = Some s'"
fun_cases pod_op_POnType: "pod_op_step (POnType ty f) s = Some s'"
fun_cases pod_op_PSend: "pod_op_step (PSend m) s = Some s'"
fun_cases pod_op_PDisconnect: "pod_op_step PDisconnect s = Some s'"
fun_cases pod_op_PReceive: "pod_op_step (PReceive m) s = Some s'"
fun_cases pod_op_PDrain: "pod_op_step PDrain s = Some s'"

lemma pod_handle_Some:
  "pod_handle p ref = Some (Inr p') \<Longrightarrow> p' = p \<or>
     (\<exists>f. f \<noteq> FbReplay \<and> f \<noteq> FbDisconnect \<and> feedback_write p f = Some p')"
  by (auto simp: pod_handle_def handler_enter_def split: sum.splits option.splits if_splits on_func.splits)

lemma Send_Some:
  "pod_Send p bc ref = Some (Inr (r, p', bc')) \<Longrightarrow>
     (pod_dead p \<and> r = None \<and> p' = p \<and> bc' = bc)
   \<or> (\<not> pod_dead p \<and> (\<exists>m. ref = Some m \<and> r = Some \<lparr>rc_UUID = msg_UUID m\<rparr> \<and> bc' = bc @ [m]
        \<and> p' = p\<lparr>pod_filter := FilterUUID (pod_filter p) (msg_UUID m) False\<rparr>))"
  by (auto simp: pod_Send_def Let_def go_deref_def split: if_splits option.splits)

text \<open>What any operation does to the replay request, the dead flag and the bus channel.\<close>

lemma setOnFunc_hist:
  assumes "setOnFunc p on = Some p'"
  shows "pod_hist (p, bc, fb) \<Longrightarrow> pod_hist (p', bc, fb)"
    and "pod_replayOnce p' = (pod_replayOnce p \<or> on \<noteq> None)" and "pod_WantsReplay p' = pod_WantsReplay p"
    and "pod_dead p' = pod_dead p" and "pod_onFunc p' = on" and "pod_filter p' = newMessageFilter"
    and "pod_messageChan p' = pod_messageChan p"
  using assms
  by (auto simp: setOnFunc_eq feedback_write_Some pod_hist_def replays_def all_feedback_def split: if_splits)

lemma OnType_Some:
  assumes "pod_OnType p ty f = Some p'"
  obtains q where "setOnFunc p (map_option Plain f) = Some q"
    and "p' = q\<lparr>pod_filter := (FilterType newMessageFilter ty True)\<lparr>TypeInclusive := False\<rparr>\<rparr>"
  using assms setOnFunc_hist(6) [of p "map_option Plain f"]
  by (fastforce simp: pod_OnType_def split: option.splits)

lemma pod_hist_filter [simp]: "pod_hist (p\<lparr>pod_filter := x\<rparr>, bc, fb) = pod_hist (p, bc, fb)"
  by (simp add: pod_hist_def replays_def all_feedback_def)

lemma pod_op_effect:
  assumes "pod_op_step x (p, bc, fb) = Some (p', bc', fb')"
  shows "pod_WantsReplay p' = pod_WantsReplay p
    \<and> pod_replayOnce p' = (pod_replayOnce p \<or> sets_func x)
    \<and> pod_dead p' = (pod_dead p \<or> x = PDisconnect)
    \<and> (pod_dead p \<longrightarrow> bc' = bc)
    \<and> (pod_hist (p, bc, fb) \<longrightarrow> pod_hist (p', bc', fb'))"
proof (cases x)
  case (POn f)
  with assms have "setOnFunc p (map_option Plain f) = Some p'" "bc' = bc" "fb' = fb"
    by (auto simp: pod_On_def)
  with POn show ?thesis using setOnFunc_hist [of p _ p'] by (cases f) auto
next
  case (POnType ty f)
  with assms have "pod_OnType p ty f = Some p'" "bc' = bc" "fb' = fb" by auto
  moreover from this obtain q where "setOnFunc p (map_option Plain f) = Some q"
      "p' = q\<lparr>pod_filter := (FilterType newMessageFilter ty True)\<lparr>TypeInclusive := False\<rparr>\<rparr>"
    by (elim OnType_Some)
  ultimately show ?thesis using POnType setOnFunc_hist [of p _ q] by (cases f) auto
next
  case (PSend m)
  with assms obtain r where "pod_Send p bc (Some m) = Some (Inr (r, p', bc'))" "fb' = fb"
    by (auto split: option.splits sum.splits)
  with PSend Send_Some [of p bc "Some m" r p' bc'] show ?thesis
    by (auto simp: pod_hist_def replays_def all_feedback_def)
next
  case PDisconnect
  with assms show ?thesis
    by (auto simp: pod_Disconnect_def feedback_write_Some pod_hist_def replays_def all_feedback_def)
next
  case (PReceive m)
  with assms have "pod_handle p (Some m) = Some (Inr p')" "bc' = bc" "fb' = fb"
    by (auto split: option.splits sum.splits)
  with PReceive show ?thesis
    by (auto dest!: pod_handle_Some simp: feedback_write_Some pod_hist_def replays_def all_feedback_def)
next
  case PDrain
  with assms show ?thesis by (auto simp: pod_hist_def replays_def all_feedback_def)
qed

text \<open>A sequence of operations; \<open>None\<close> if one of them blocks.\<close>

lemma pod_run_effect:
  assumes "run_spec pod_op_step xs (p, bc, fb) = Some (p', bc', fb')"
  shows "pod_WantsReplay p' = pod_WantsReplay p
    \<and> pod_replayOnce p' = (pod_replayOnce p \<or> (\<exists>x \<in> set xs. sets_func x))
    \<and> pod_dead p' = (pod_dead p \<or> PDisconnect \<in> set xs)
    \<and> (pod_dead p \<longrightarrow> bc' = bc)
    \<and> (pod_hist (p, bc, fb) \<longrightarrow> pod_hist (p', bc', fb'))"
  using assms
proof (induction xs arbitrary: p bc fb)
  case Nil
  then show ?case by simp
next
  case (Cons x xs)
  then obtain p1 bc1 fb1 where s1: "pod_op_step x (p, bc, fb) = Some (p1, bc1, fb1)"
      "run_spec pod_op_step xs (p1, bc1, fb1) = Some (p', bc', fb')"
    by (auto split: option.splits)
  from pod_op_effect [OF s1(1)] Cons.IH [OF s1(2)] show ?case by auto
qed

section \<open>Properties\<close>

text \<open>A pod asks the bus for a replay exactly once if it wants one and its owner ever
  sets a function, and never otherwise, however often the function is replaced or removed and
  whatever else the pod does.\<close>

theorem replay_requested_once:
  assumes "run_spec pod_op_step ops (newPod wants, bc, []) = Some s"
  shows "replays s = (if wants \<and> (\<exists>x \<in> set ops. sets_func x) then 1 else 0)"
proof -
  obtain p' bc' fb' where s: "s = (p', bc', fb')" by (cases s)
  have "pod_hist (newPod wants, bc, [])"
    by (simp add: pod_hist_def replays_def all_feedback_def newPod_def)
  with pod_run_effect [OF assms [unfolded s]] show ?thesis
    by (auto simp: s pod_hist_def newPod_def)
qed

theorem replay_requested_once_witness:
  "\<exists>s. run_spec pod_op_step
        [PSend (NewMsg ''u'' 0 ''t'' []), POn (Some (\<lambda>_. None)), PDrain, POn None, POn (Some (\<lambda>_. None))]
        (newPod True, [], []) = Some s
     \<and> replays s = 1"
proof -
  let ?ops = "[PSend (NewMsg ''u'' 0 ''t'' []), POn (Some (\<lambda>_. None)), PDrain, POn None, POn (Some (\<lambda>_. None))]"
  have "\<exists>s. run_spec pod_op_step ?ops (newPod True, [], []) = Some s"
    by (simp add: pod_On_def setOnFunc_eq feedback_write_def newPod_def pod_Send_def defaultPodChanSize_def
        defaultBusChanSize_def)
  with replay_requested_once [of ?ops True "[]"] show ?thesis by auto
qed

text \<open>A pod that has disconnected sends nothing more: whatever its owner and the bus do
  afterwards, \<open>Send\<close> returns the nil receipt and leaves the bus channel alone, and waiting for a
  reply on that receipt fails at once.\<close>

theorem disconnected_pod_is_silent:
  assumes "pod_Disconnect p = Some p1" and "run_spec pod_op_step ops (p1, bc, fb) = Some (p2, bc2, fb2)"
  shows "bc2 = bc \<and> pod_Send p2 bc2 msg = Some (Inr (None, p2, bc2))
    \<and> MsgReceipt_WaitUntil None p2 = Inl ErrNoReceipt \<and> MsgReceipt_OnReply None = Some ErrNoReceipt"
proof -
  have "pod_dead p1" using assms(1) by (auto simp: pod_Disconnect_def feedback_write_Some)
  with pod_run_effect [OF assms(2)] show ?thesis
    by (simp add: pod_Send_def MsgReceipt_WaitUntil_def MsgReceipt_OnReply_def)
qed

theorem disconnected_pod_is_silent_witness:
  "\<exists>p1 p2. pod_Disconnect (newPod False) = Some p1
    \<and> run_spec pod_op_step [PSend (NewMsg ''u'' 0 ''t'' []), PDrain] (p1, [], []) = Some (p2, [], [FbDisconnect])
    \<and> pod_Send p2 [] None = Some (Inr (None, p2, []))"
proof -
  let ?ops = "[PSend (NewMsg ''u'' 0 ''t'' []), PDrain]"
  let ?p1 = "(newPod False)\<lparr>pod_dead := True, pod_feedbackChan := [FbDisconnect]\<rparr>"
  have d: "pod_Disconnect (newPod False) = Some ?p1"
    by (simp add: pod_Disconnect_def feedback_write_def newPod_def defaultPodChanSize_def)
  have r: "run_spec pod_op_step ?ops (?p1, [], []) = Some (?p1\<lparr>pod_feedbackChan := []\<rparr>, [], [FbDisconnect])"
    by (simp add: pod_Send_def)
  from disconnected_pod_is_silent [OF d r, of None] d r show ?thesis by blast
qed

text \<open>What one received message leads to, on every branch: no function, or a filter
  that denies the message, leaves the pod alone and reports nothing; otherwise the feedback is
  a success, or the message itself if the function failed. A nil message crashes the pod.\<close>

theorem handler_outcome:
  "pod_handle p (Some m) =
     (case pod_onFunc p of
        None \<Rightarrow> Some (Inr p)
      | Some (Waiter f) \<Rightarrow>
          (if \<not> (decided (TypeMap (pod_filter p)) (TypeInclusive (pod_filter p)) (msg_Type m)
               \<and> decided (UUIDMap (pod_filter p)) (UUIDInclusive (pod_filter p)) (msg_UUID m)) then Some (Inr p)
           else if f m = Some ErrMsgNotWanted then map_option Inr (feedback_write p FbSuccess) else None)
      | Some (Plain f) \<Rightarrow>
          (if \<not> (decided (TypeMap (pod_filter p)) (TypeInclusive (pod_filter p)) (msg_Type m)
               \<and> decided (UUIDMap (pod_filter p)) (UUIDInclusive (pod_filter p)) (msg_UUID m)) then Some (Inr p)
           else map_option Inr (feedback_write p (if f m = None then FbSuccess else FbFailed m))))
   \<and> pod_handle p None = (if pod_onFunc p = None then Some (Inr p) else Some (Inl NilDereference))"
  by (auto simp: pod_handle_def handler_enter_def allow_iff split: option.splits on_func.splits)

text \<open>After \<open>OnType\<close> the function gets exactly the messages of its type: the feedback
  for them is what the function returns, and every other message is ignored without feedback.\<close>

theorem OnType_receives_only_its_type:
  assumes "pod_OnType p ty (Some f) = Some p'" and "length (pod_feedbackChan p') < defaultPodChanSize"
  shows "pod_handle p' (Some m) =
    (if msg_Type m = ty
     then Some (Inr (p'\<lparr>pod_feedbackChan := pod_feedbackChan p' @ [if f m = None then FbSuccess else FbFailed m]\<rparr>))
     else Some (Inr p'))"
proof -
  obtain q where q: "setOnFunc p (Some (Plain f)) = Some q"
      "p' = q\<lparr>pod_filter := (FilterType newMessageFilter ty True)\<lparr>TypeInclusive := False\<rparr>\<rparr>"
    using assms(1) by (auto elim: OnType_Some)
  with setOnFunc_hist(5) [OF q(1)] assms(2) show ?thesis
    by (auto simp: pod_handle_def handler_enter_def allow_iff FilterType_def newMessageFilter_def feedback_write_def)
qed

theorem OnType_receives_only_its_type_witness:
  "\<exists>p'. pod_OnType (newPod False) ''a'' (Some (\<lambda>_. Some (ErrorText ''no''))) = Some p'
    \<and> pod_handle p' (Some (NewMsg ''u'' 0 ''b'' [])) = Some (Inr p')
    \<and> pod_handle p' (Some (NewMsg ''u'' 0 ''a'' [])) =
        Some (Inr (p'\<lparr>pod_feedbackChan := [FbFailed (NewMsg ''u'' 0 ''a'' [])]\<rparr>))"
proof -
  obtain p' where p': "pod_OnType (newPod False) ''a'' (Some (\<lambda>_. Some (ErrorText ''no''))) = Some p'"
      "pod_feedbackChan p' = []"
    by (simp add: pod_OnType_def setOnFunc_eq newPod_def)
  have "length (pod_feedbackChan p') < defaultPodChanSize" by (simp add: p'(2) defaultPodChanSize_def)
  note * = OnType_receives_only_its_type [OF p'(1) this]
  show ?thesis using p' by (intro exI [of _ p']) (simp add: *)
qed

text \<open>A pod does not get its own message back only as long as its function stays: the
  filter that \<open>Send\<close> sets makes the pod ignore the message, but any later \<open>On\<close> (or wait, which
  sets a function too) starts from an empty filter and delivers it.\<close>

theorem own_message_bounces_after_On:
  assumes "pod_Send p bc (Some m) = Some (Inr (Some r, p1, bc1))" and "pod_On p1 (Some f) = Some p2"
    and "length (pod_feedbackChan p2) < defaultPodChanSize"
  shows "pod_handle p1 (Some m) = Some (Inr p1)
    \<and> pod_handle p2 (Some m) =
        Some (Inr (p2\<lparr>pod_feedbackChan := pod_feedbackChan p2 @ [if f m = None then FbSuccess else FbFailed m]\<rparr>))"
proof -
  have "p1 = p\<lparr>pod_filter := FilterUUID (pod_filter p) (msg_UUID m) False\<rparr>"
    using Send_Some [OF assms(1)] by auto
  then have "pod_handle p1 (Some m) = Some (Inr p1)"
    by (simp add: pod_handle_def handler_enter_def allow_iff FilterUUID_def split: option.split)
  moreover have "pod_onFunc p2 = Some (Plain f)" "pod_filter p2 = newMessageFilter"
    using setOnFunc_hist(5,6) assms(2) by (auto simp: pod_On_def)
  ultimately show ?thesis
    using assms(3) by (auto simp: pod_handle_def handler_enter_def feedback_write_def)
qed

theorem own_message_bounces_after_On_witness:
  "\<exists>r p1 p2. pod_Send (newPod False) [] (Some (NewMsg ''u'' 0 ''t'' [])) = Some (Inr (Some r, p1, [NewMsg ''u'' 0 ''t'' []]))
    \<and> pod_On p1 (Some (\<lambda>_. None)) = Some p2
    \<and> pod_handle p2 (Some (NewMsg ''u'' 0 ''t'' [])) = Some (Inr (p2\<lparr>pod_feedbackChan := [FbSuccess]\<rparr>))"
proof -
  let ?m = "NewMsg ''u'' 0 ''t'' []"
  let ?p1 = "(newPod False)\<lparr>pod_filter := FilterUUID newMessageFilter ''u'' False\<rparr>"
  let ?p2 = "(newPod False)\<lparr>pod_onFunc := Some (Plain (\<lambda>_. None)), pod_replayOnce := True\<rparr>"
  have s: "pod_Send (newPod False) [] (Some ?m) = Some (Inr (Some \<lparr>rc_UUID = ''u''\<rparr>, ?p1, [?m]))"
    by (simp add: pod_Send_def newPod_def defaultBusChanSize_def)
  have o: "pod_On ?p1 (Some (\<lambda>_. None)) = Some ?p2"
    by (simp add: pod_On_def setOnFunc_eq newPod_def)
  have c: "length (pod_feedbackChan ?p2) < defaultPodChanSize" "pod_feedbackChan ?p2 = []"
    by (simp_all add: newPod_def defaultPodChanSize_def)
  from own_message_bounces_after_On [OF s o c(1)] s o show ?thesis
    by (intro exI [of _ "\<lparr>rc_UUID = ''u''\<rparr>"] exI [of _ ?p1] exI [of _ ?p2]) (simp add: c(2))
qed

text \<open>The channel of \<open>Timeout(n)\<close> never fires for a number of seconds that is not
  positive; up to 9223372036 seconds it fires after \<open>n\<close> seconds; for the next number the
  duration in nanoseconds wraps around to a negative one, which fires at once.\<close>

theorem timeout_duration:
  "(Timeout n = None \<longleftrightarrow> sint n \<le> 0)
   \<and> (0 < sint n \<and> sint n \<le> 9223372036 \<longrightarrow> map_option sint (Timeout n) = Some (1000000000 * sint n))
   \<and> map_option sint (Timeout 9223372037) = Some (- 9223372036709551616)"
proof (intro conjI impI)
  show "Timeout n = None \<longleftrightarrow> sint n \<le> 0" by (simp add: Timeout_def not_less)
next
  assume n: "0 < sint n \<and> sint n \<le> 9223372036"
  have "sint (1000000000 * n) = signed_take_bit 63 (sint (1000000000 :: int64) * sint n)"
    by (simp add: sint_word_ariths)
  also have "\<dots> = 1000000000 * sint n"
    using n by (simp add: signed_take_bit_int_eq_self)
  finally show "map_option sint (Timeout n) = Some (1000000000 * sint n)"
    using n by (simp add: Timeout_def)
next
  show "map_option sint (Timeout 9223372037) = Some (- 9223372036709551616)"
    by (simp add: Timeout_def)
qed

theorem timeout_duration_witness:
  "map_option sint (Timeout 3) = Some 3000000000"
  using timeout_duration [of 3] by simp

end
