(* ===== verification/Pod_Wait.thy ===== *)
theory Pod_Wait
  imports Pod
begin

text \<open>
  \<open>WaitUntil\<close> of \<open>grav/pod.go\<close> and the handler goroutines of the pod, step by step. The waiter
  has set the wrapper around the caller's function and waits in its \<open>select\<close>; handlers hold the
  read lock of \<open>onFuncLock\<close> while they run the wrapper, send on the unbuffered \<open>errChan\<close> and
  write feedback; a pending \<open>Lock\<close> keeps new readers out. Proved are the correctness of what a
  wait returns, that a wait for a single message can always return, and that a second
  result, or a result after the timeout, blocks the pod forever.
\<close>

section \<open>States and steps\<close>

text \<open>
  The waiter: in its \<open>select\<close>; with a result in hand; blocked in \<open>onFuncLock.Lock()\<close>; returned.
\<close>

datatype waiter =
    WSelect
  | WGot "error option"
  | WLock "error option"
  | WReturned "error option"

text \<open>
  \<open>ws_reply\<close> is the variable that \<open>waitOnReply\<close> writes when its function accepts a message, and
  \<open>ws_arrived\<close> the messages that have come from the bus so far.
\<close>

record wait_sys =
  ws_pod :: pod
  ws_handlers :: "handler list"
  ws_waiter :: waiter
  ws_reply :: msg_ref
  ws_arrived :: "message list"

fun holds_lock :: "handler \<Rightarrow> bool" where
  "holds_lock (HErr _ _) = True"
| "holds_lock (HFeedback _) = True"
| "holds_lock _ = False"

fun lock_pending :: "waiter \<Rightarrow> bool" where
  "lock_pending (WLock _) = True"
| "lock_pending _ = False"

definition WaitUntil_setup :: "pod \<Rightarrow> msgFunc \<Rightarrow> wait_sys option" where
  "WaitUntil_setup p f =
     (case setOnFunc p (Some (Waiter f)) of
        None \<Rightarrow> None
      | Some p' \<Rightarrow> Some \<lparr>ws_pod = p', ws_handlers = [], ws_waiter = WSelect, ws_reply = None, ws_arrived = []\<rparr>)"

text \<open>\<open>WaitOn\<close> passes no timeout; \<open>WaitUntil\<close> then takes \<open>Timeout(-1)\<close>, which never fires.\<close>

definition pod_WaitOn :: "pod \<Rightarrow> msgFunc \<Rightarrow> wait_sys option" where
  "pod_WaitOn p f = (if Timeout (- 1) = None then WaitUntil_setup p f else None)"

lemma pod_WaitOn_eq: "pod_WaitOn p f = WaitUntil_setup p f"
  by (simp add: pod_WaitOn_def Timeout_def)

definition accepted :: "handler \<Rightarrow> msg_ref \<Rightarrow> msg_ref" where
  "accepted h reply = (case h of HErr m None \<Rightarrow> Some m | _ \<Rightarrow> reply)"

text \<open>The steps; \<open>fires\<close> tells whether the timeout is one that fires.\<close>

inductive wait_step :: "bool \<Rightarrow> wait_sys \<Rightarrow> wait_sys \<Rightarrow> bool" for fires :: bool where
  arrive: "wait_step fires s
     (s\<lparr>ws_handlers := ws_handlers s @ [HStart (Some m)], ws_arrived := ws_arrived s @ [m]\<rparr>)"
| enter: "k < length (ws_handlers s) \<Longrightarrow> ws_handlers s ! k = HStart r \<Longrightarrow>
     \<not> lock_pending (ws_waiter s) \<Longrightarrow> handler_enter (ws_pod s) r = Inr h \<Longrightarrow>
     wait_step fires s (s\<lparr>ws_handlers := (ws_handlers s)[k := h], ws_reply := accepted h (ws_reply s)\<rparr>)"
| feedback: "k < length (ws_handlers s) \<Longrightarrow> ws_handlers s ! k = HFeedback fb \<Longrightarrow>
     feedback_write (ws_pod s) fb = Some p \<Longrightarrow>
     wait_step fires s (s\<lparr>ws_pod := p, ws_handlers := (ws_handlers s)[k := HDone]\<rparr>)"
| rendezvous: "k < length (ws_handlers s) \<Longrightarrow> ws_handlers s ! k = HErr m e \<Longrightarrow> ws_waiter s = WSelect \<Longrightarrow>
     wait_step fires s (s\<lparr>ws_handlers := (ws_handlers s)[k := HFeedback FbSuccess], ws_waiter := WGot e\<rparr>)"
| timeout: "fires \<Longrightarrow> ws_waiter s = WSelect \<Longrightarrow>
     wait_step fires s (s\<lparr>ws_waiter := WGot (Some ErrWaitTimeout)\<rparr>)"
| lock_wait: "ws_waiter s = WGot r \<Longrightarrow> wait_step fires s (s\<lparr>ws_waiter := WLock r\<rparr>)"
| lock_return: "ws_waiter s = WLock r \<Longrightarrow> \<forall>h \<in> set (ws_handlers s). \<not> holds_lock h \<Longrightarrow>
     setOnFunc (ws_pod s) None = Some p \<Longrightarrow>
     wait_step fires s (s\<lparr>ws_pod := p, ws_waiter := WReturned r\<rparr>)"
| bus_check: "wait_step fires s (s\<lparr>ws_pod := (ws_pod s)\<lparr>pod_feedbackChan := []\<rparr>\<rparr>)"
| own_send: "wait_step fires s (s\<lparr>ws_pod := (ws_pod s)\<lparr>pod_filter := FilterUUID (pod_filter (ws_pod s)) u False\<rparr>\<rparr>)"

inductive_cases wait_stepE: "wait_step fires s t"

definition wait_init :: "msgFunc \<Rightarrow> wait_sys \<Rightarrow> bool" where
  "wait_init f s \<longleftrightarrow> (\<exists>p. WaitUntil_setup p f = Some s)"

section \<open>Invariant\<close>

definition wanted :: "msgFunc \<Rightarrow> message \<Rightarrow> bool" where
  "wanted f m \<longleftrightarrow> f m \<noteq> Some ErrMsgNotWanted"

fun result_of :: "waiter \<Rightarrow> error option option" where
  "result_of WSelect = None"
| "result_of (WGot r) = Some r"
| "result_of (WLock r) = Some r"
| "result_of (WReturned r) = Some r"

definition returned :: "wait_sys \<Rightarrow> bool" where
  "returned s \<longleftrightarrow> (\<exists>r. ws_waiter s = WReturned r)"

text \<open>A handler that has brought, or may still bring, a result.\<close>

fun pending :: "msgFunc \<Rightarrow> handler \<Rightarrow> bool" where
  "pending f (HStart (Some m)) = wanted f m"
| "pending f (HErr m e) = True"
| "pending f _ = False"

fun handler_ok :: "msgFunc \<Rightarrow> wait_sys \<Rightarrow> handler \<Rightarrow> bool" where
  "handler_ok f s (HStart r) \<longleftrightarrow> (\<exists>m \<in> set (ws_arrived s). r = Some m)"
| "handler_ok f s (HErr m e) \<longleftrightarrow> m \<in> set (ws_arrived s) \<and> e = f m \<and> wanted f m
     \<and> (e = None \<longrightarrow> ws_reply s \<noteq> None) \<and> \<not> returned s"
| "handler_ok f s _ \<longleftrightarrow> True"

definition wait_inv :: "msgFunc \<Rightarrow> bool \<Rightarrow> wait_sys \<Rightarrow> bool" where
  "wait_inv f fires s \<longleftrightarrow>
     pod_onFunc (ws_pod s) = (if returned s then None else Some (Waiter f))
   \<and> (\<forall>h \<in> set (ws_handlers s). handler_ok f s h)
   \<and> (\<forall>r. result_of (ws_waiter s) = Some r \<longrightarrow>
        (fires \<and> r = Some ErrWaitTimeout \<or> (\<exists>m \<in> set (ws_arrived s). f m = r \<and> wanted f m))
        \<and> (r = None \<longrightarrow> ws_reply s \<noteq> None))
   \<and> (\<forall>m. ws_reply s = Some m \<longrightarrow> m \<in> set (ws_arrived s) \<and> f m = None)
   \<and> (\<not> fires \<longrightarrow> length (filter (pending f) (ws_handlers s)) + (if ws_waiter s = WSelect then 0 else 1)
        \<le> length (filter (wanted f) (ws_arrived s)))"

lemma wait_inv_init: "wait_init f s \<Longrightarrow> wait_inv f fires s"
  by (auto simp: wait_init_def WaitUntil_setup_def wait_inv_def returned_def setOnFunc_hist(5) split: option.splits)

text \<open>What a handler that enters can become.\<close>

lemma enter_waiter:
  assumes "handler_enter p (Some m) = Inr h"
  shows "pod_onFunc p = Some (Waiter f) \<Longrightarrow>
      h = HDone \<or> h = HFeedback FbSuccess \<or> h = HErr m (f m) \<and> wanted f m"
    and "pod_onFunc p = None \<Longrightarrow> h = HDone"
  using assms by (auto simp: handler_enter_def allow_iff wanted_def split: if_splits)

lemma handler_ok_mono:
  "handler_ok f s h \<Longrightarrow> set (ws_arrived s) \<subseteq> set (ws_arrived t) \<Longrightarrow>
   (ws_reply s \<noteq> None \<longrightarrow> ws_reply t \<noteq> None) \<Longrightarrow> returned t = returned s \<Longrightarrow> handler_ok f t h"
  by (cases h) auto

lemma wait_inv_handler: "wait_inv f fires s \<Longrightarrow> h \<in> set (ws_handlers s) \<Longrightarrow> handler_ok f s h"
  by (simp add: wait_inv_def)

lemma wait_inv_step: "wait_inv f fires s \<Longrightarrow> wait_step fires s t \<Longrightarrow> wait_inv f fires t"
proof (erule wait_stepE, goal_cases)
  case (1 m)
  have "handler_ok f t h" if "h \<in> set (ws_handlers s)" for h
    by (rule handler_ok_mono [of f s]) (use 1 that in \<open>auto simp: wait_inv_def returned_def\<close>)
  with 1 show ?case by (auto simp: wait_inv_def returned_def)
next
  case (2 k r h)
  have kin: "HStart r \<in> set (ws_handlers s)" using 2 by (metis nth_mem)
  then obtain m where m: "r = Some m" "m \<in> set (ws_arrived s)"
    using 2(1) by (fastforce simp: wait_inv_def)
  have on: "pod_onFunc (ws_pod s) = (if returned s then None else Some (Waiter f))"
    using 2(1) by (simp add: wait_inv_def)
  have h: "h = HDone \<or> h = HFeedback FbSuccess \<or> h = HErr m (f m) \<and> wanted f m \<and> \<not> returned s"
    using 2(6) enter_waiter(1) [of "ws_pod s" m h f] enter_waiter(2) [of "ws_pod s" m h] on m(1)
    by (auto split: if_splits)
  have ret: "returned t = returned s" using 2 by (simp add: returned_def)
  have rep: "ws_reply s \<noteq> None \<longrightarrow> ws_reply t \<noteq> None"
    using 2(2) h by (auto simp: accepted_def split: option.splits)
  have ok: "handler_ok f t x" if "x \<in> set (ws_handlers t)" for x
  proof -
    have "x = h \<or> x \<in> set (ws_handlers s)" using that 2(2) by (auto dest: set_update_cases)
    then show ?thesis
    proof
      assume "x = h"
      with h m 2(2) ret show ?thesis by (auto simp: accepted_def split: option.splits)
    next
      assume "x \<in> set (ws_handlers s)"
      then have "handler_ok f s x" using 2(1) by (simp add: wait_inv_def)
      then show ?thesis by (rule handler_ok_mono) (use 2(2) rep ret in auto)
    qed
  qed
  have "length (filter (pending f) (ws_handlers t)) \<le> length (filter (pending f) (ws_handlers s))"
    using length_filter_update [of k "ws_handlers s" "pending f" h] 2(2-4) h m by auto
  then have cnt: "\<not> fires \<longrightarrow> length (filter (pending f) (ws_handlers t)) + (if ws_waiter t = WSelect then 0 else 1)
        \<le> length (filter (wanted f) (ws_arrived t))"
    using 2(1,2) by (auto simp: wait_inv_def)
  have acc: "\<forall>x. ws_reply t = Some x \<longrightarrow> x \<in> set (ws_arrived t) \<and> f x = None"
    using 2(1,2) h m by (auto simp: wait_inv_def accepted_def split: option.splits)
  show ?case
    unfolding wait_inv_def [of f fires t]
    using 2(1,2) ok cnt acc on ret rep by (auto simp: wait_inv_def)
next
  case (3 k fb p)
  have "length (filter (pending f) (ws_handlers t)) = length (filter (pending f) (ws_handlers s))"
    using length_filter_update [of k "ws_handlers s" "pending f" HDone] 3 by simp
  moreover have "handler_ok f t x" if "x \<in> set (ws_handlers t)" for x
    using that 3 handler_ok_mono [of f s x t] by (auto simp: wait_inv_def returned_def dest!: set_update_cases)
  ultimately show ?case
    using 3 by (auto simp: wait_inv_def returned_def feedback_write_Some)
next
  case (4 k m e)
  have "HErr m e \<in> set (ws_handlers s)" using 4 by (metis nth_mem)
  then have he: "handler_ok f s (HErr m e)" by (rule wait_inv_handler [OF 4(1)])
  have cnt: "length (filter (pending f) (ws_handlers t)) + 1 = length (filter (pending f) (ws_handlers s))"
    using length_filter_update [of k "ws_handlers s" "pending f" "HFeedback FbSuccess"] 4 by simp
  have "handler_ok f t x" if "x \<in> set (ws_handlers t)" for x
    using that 4 handler_ok_mono [of f s x t] by (auto simp: wait_inv_def returned_def dest!: set_update_cases)
  with 4 he cnt show ?case by (auto simp: wait_inv_def returned_def)
next
  case 5
  have "handler_ok f t x" if "x \<in> set (ws_handlers t)" for x
    using that 5 handler_ok_mono [of f s x t] by (auto simp: wait_inv_def returned_def)
  with 5 show ?case by (auto simp: wait_inv_def returned_def)
next
  case (6 r)
  have "handler_ok f t x" if "x \<in> set (ws_handlers t)" for x
    using that 6 handler_ok_mono [of f s x t] by (auto simp: wait_inv_def returned_def)
  with 6 show ?case by (auto simp: wait_inv_def returned_def)
next
  case (7 r p)
  have "handler_ok f t x" if "x \<in> set (ws_handlers t)" for x
  proof -
    have "x \<in> set (ws_handlers s)" using that 7(2) by simp
    then have "handler_ok f s x" "\<not> holds_lock x" using wait_inv_handler [OF 7(1)] 7(4) by auto
    with 7(2) show ?thesis by (cases x) auto
  qed
  with 7 show ?case by (auto simp: wait_inv_def returned_def setOnFunc_hist(5))
next
  case 8
  have "handler_ok f t x" if "x \<in> set (ws_handlers t)" for x
    using that 8 handler_ok_mono [of f s x t] by (auto simp: wait_inv_def returned_def)
  with 8 show ?case by (auto simp: wait_inv_def returned_def)
next
  case (9 u)
  have "handler_ok f t x" if "x \<in> set (ws_handlers t)" for x
    using that 9 handler_ok_mono [of f s x t] by (auto simp: wait_inv_def returned_def)
  with 9 show ?case by (auto simp: wait_inv_def returned_def)
qed

interpretation waitsys: invariant_system "wait_init f" "wait_step fires" "wait_inv f fires" for f fires
  by unfold_locales (fact wait_inv_init, fact wait_inv_step)

section \<open>Returning\<close>

text \<open>Handlers that hold the lock only to write feedback get out of the way.\<close>

definition writing :: "wait_sys \<Rightarrow> handler list" where
  "writing s = filter (\<lambda>h. \<exists>fb. h = HFeedback fb) (ws_handlers s)"

lemma lock_returns:
  assumes "\<forall>m e. HErr m e \<notin> set (ws_handlers s)" and "ws_waiter s = WLock r"
  shows "\<exists>t. (wait_step fires)\<^sup>*\<^sup>* s t \<and> ws_waiter t = WReturned r"
  using assms
proof (induction "length (writing s)" arbitrary: s)
  case 0
  then have "\<forall>h \<in> set (ws_handlers s). \<not> holds_lock h"
    by (auto simp: writing_def filter_empty_conv elim!: holds_lock.elims)
  moreover obtain p where "setOnFunc (ws_pod s) None = Some p" by (simp add: setOnFunc_eq)
  ultimately have "wait_step fires s (s\<lparr>ws_pod := p, ws_waiter := WReturned r\<rparr>)"
    using 0 by (intro wait_step.lock_return)
  then show ?case by (intro exI [of _ "s\<lparr>ws_pod := p, ws_waiter := WReturned r\<rparr>"]) auto
next
  case (Suc n)
  then obtain fb where "HFeedback fb \<in> set (ws_handlers s)"
    by (cases "writing s") (force simp: writing_def filter_eq_Cons_iff)+
  then obtain k where k: "k < length (ws_handlers s)" "ws_handlers s ! k = HFeedback fb"
    by (metis in_set_conv_nth)
  let ?s1 = "s\<lparr>ws_pod := (ws_pod s)\<lparr>pod_feedbackChan := []\<rparr>\<rparr>"
  obtain p where "feedback_write (ws_pod ?s1) fb = Some p"
    by (simp add: feedback_write_def defaultPodChanSize_def)
  let ?s2 = "?s1\<lparr>ws_pod := p, ws_handlers := (ws_handlers s)[k := HDone]\<rparr>"
  have "wait_step fires s ?s1" by (rule wait_step.bus_check)
  moreover have "wait_step fires ?s1 ?s2"
    using wait_step.feedback [of k ?s1 fb p] k \<open>feedback_write (ws_pod ?s1) fb = Some p\<close> by simp
  moreover have "length (writing ?s2) = n"
    using length_filter_update [OF k(1), of "\<lambda>h. \<exists>fb. h = HFeedback fb" HDone] k(2) Suc.hyps(2)
    by (simp add: writing_def)
  moreover have "\<forall>m e. HErr m e \<notin> set (ws_handlers ?s2)"
    using Suc.prems(1) by (auto dest!: set_update_cases)
  moreover have "\<exists>t. (wait_step fires)\<^sup>*\<^sup>* ?s2 t \<and> ws_waiter t = WReturned r"
    using Suc.hyps(1) [of ?s2] calculation(3,4) Suc.prems(2) by simp
  ultimately show ?case by (meson converse_rtranclp_into_rtranclp)
qed

text \<open>A waiter with a result while another handler holds one: nothing moves any more.\<close>

definition deadlocked :: "wait_sys \<Rightarrow> bool" where
  "deadlocked s \<longleftrightarrow> (\<exists>r. ws_waiter s = WLock r) \<and> (\<exists>m e. HErr m e \<in> set (ws_handlers s))"

lemma deadlocked_step:
  assumes "deadlocked s" and "wait_step fires s t"
  shows "deadlocked t \<and> ws_waiter t = ws_waiter s \<and> length (ws_handlers s) \<le> length (ws_handlers t)
    \<and> (\<forall>k < length (ws_handlers s). \<forall>x. ws_handlers s ! k = HStart x \<longrightarrow> ws_handlers t ! k = HStart x)"
  using assms(2,1)
proof (cases rule: wait_step.cases)
  case (feedback k fb p)
  obtain m e where "HErr m e \<in> set (ws_handlers s)" using assms(1) by (auto simp: deadlocked_def)
  then obtain j where "j < length (ws_handlers s)" "ws_handlers s ! j = HErr m e"
    by (metis in_set_conv_nth)
  with feedback have "ws_handlers t ! j = HErr m e" "j < length (ws_handlers t)"
    by (auto simp: nth_list_update)
  then have "HErr m e \<in> set (ws_handlers t)" by (metis nth_mem)
  with feedback assms(1) show ?thesis by (auto simp: deadlocked_def nth_list_update)
next
  case (lock_return r p)
  then show ?thesis using assms(1) by (fastforce simp: deadlocked_def)
qed (use assms(1) in \<open>auto simp: deadlocked_def nth_append\<close>)

lemma deadlocked_forever:
  assumes "deadlocked s" and "(wait_step fires)\<^sup>*\<^sup>* s t"
  shows "deadlocked t \<and> ws_waiter t = ws_waiter s \<and> length (ws_handlers s) \<le> length (ws_handlers t)
    \<and> (\<forall>k < length (ws_handlers s). \<forall>x. ws_handlers s ! k = HStart x \<longrightarrow> ws_handlers t ! k = HStart x)"
  using assms(2,1)
proof (induction rule: rtranclp_induct)
  case base
  then show ?case by simp
next
  case (step t u)
  then have t: "deadlocked t" "ws_waiter t = ws_waiter s" "length (ws_handlers s) \<le> length (ws_handlers t)"
    "\<forall>k < length (ws_handlers s). \<forall>x. ws_handlers s ! k = HStart x \<longrightarrow> ws_handlers t ! k = HStart x"
    by auto
  from deadlocked_step [OF t(1) step(2)] t show ?case by fastforce
qed

section \<open>Properties\<close>

text \<open>Property C28. What a wait returns is right in every interleaving: it is the timeout error, and
  then the timeout is one that fires, or what the caller's function returned for a message
  that arrived and that it did not reject as unwanted. After it the pod has no function.\<close>

theorem wait_result_correct:
  assumes "reach (wait_init f) (wait_step fires) s" and "ws_waiter s = WReturned r"
  shows "(fires \<and> r = Some ErrWaitTimeout \<or> (\<exists>m \<in> set (ws_arrived s). f m = r \<and> r \<noteq> Some ErrMsgNotWanted))
    \<and> pod_onFunc (ws_pod s) = None"
proof -
  have "wait_inv f fires s" by (rule waitsys.inv_reach [OF assms(1)])
  with assms(2) show ?thesis by (auto simp: wait_inv_def returned_def wanted_def)
qed

text \<open>A run in which one message arrives, is handled and ends the wait.\<close>

lemma one_message_run:
  assumes f: "wanted f m"
  shows "\<exists>s. reach (wait_init f) (wait_step fires) s \<and> ws_waiter s = WReturned (f m) \<and> ws_arrived s = [m]"
proof -
  let ?p = "(newPod False)\<lparr>pod_onFunc := Some (Waiter f), pod_replayOnce := True\<rparr>"
  let ?s0 = "\<lparr>ws_pod = ?p, ws_handlers = [], ws_waiter = WSelect, ws_reply = None, ws_arrived = []\<rparr>"
  let ?s1 = "?s0\<lparr>ws_handlers := [HStart (Some m)], ws_arrived := [m]\<rparr>"
  let ?s2 = "?s1\<lparr>ws_handlers := [HErr m (f m)], ws_reply := accepted (HErr m (f m)) None\<rparr>"
  let ?s3 = "?s2\<lparr>ws_handlers := [HFeedback FbSuccess], ws_waiter := WGot (f m)\<rparr>"
  let ?s4 = "?s3\<lparr>ws_pod := ?p\<lparr>pod_feedbackChan := [FbSuccess]\<rparr>, ws_handlers := [HDone]\<rparr>"
  let ?s5 = "?s4\<lparr>ws_waiter := WLock (f m)\<rparr>"
  let ?p6 = "?p\<lparr>pod_feedbackChan := [FbSuccess], pod_onFunc := None\<rparr>"
  let ?s6 = "?s5\<lparr>ws_pod := ?p6, ws_waiter := WReturned (f m)\<rparr>"
  have "setOnFunc (newPod False) (Some (Waiter f)) = Some ?p" by (simp add: setOnFunc_eq newPod_def)
  then have "wait_init f ?s0" unfolding wait_init_def
    by (intro exI [of _ "newPod False"]) (simp add: WaitUntil_setup_def)
  then have "reach (wait_init f) (wait_step fires) ?s0" by (rule reach_init)
  then have "reach (wait_init f) (wait_step fires) ?s1"
    by (rule reach_step) (use wait_step.arrive [of fires ?s0 m] in simp)
  then have "reach (wait_init f) (wait_step fires) ?s2"
    by (rule reach_step)
       (use wait_step.enter [of 0 ?s1 "Some m" "HErr m (f m)" fires] f in
          \<open>simp add: handler_enter_def newPod_def wanted_def\<close>)
  then have "reach (wait_init f) (wait_step fires) ?s3"
    by (rule reach_step) (use wait_step.rendezvous [of 0 ?s2 m "f m" fires] in simp)
  then have "reach (wait_init f) (wait_step fires) ?s4"
    by (rule reach_step)
       (use wait_step.feedback [of 0 ?s3 FbSuccess "?p\<lparr>pod_feedbackChan := [FbSuccess]\<rparr>" fires] in
          \<open>simp add: feedback_write_def newPod_def defaultPodChanSize_def\<close>)
  then have "reach (wait_init f) (wait_step fires) ?s5"
    by (rule reach_step) (use wait_step.lock_wait [of ?s4 "f m" fires] in simp)
  then have "reach (wait_init f) (wait_step fires) ?s6"
    by (rule reach_step)
       (use wait_step.lock_return [of ?s5 "f m" ?p6 fires] in \<open>simp add: setOnFunc_eq newPod_def\<close>)
  then show ?thesis by (intro exI [of _ ?s6]) simp
qed

theorem wait_result_correct_witness:
  "\<exists>s. reach (wait_init (\<lambda>_. Some ErrNoReceipt)) (wait_step False) s \<and> ws_waiter s = WReturned (Some ErrNoReceipt)
     \<and> pod_onFunc (ws_pod s) = None"
proof -
  have "wanted (\<lambda>_. Some ErrNoReceipt) (NewMsg ''u'' 0 ''t'' [])" by (simp add: wanted_def)
  from one_message_run [OF this, of False] obtain s where
    s: "reach (wait_init (\<lambda>_. Some ErrNoReceipt)) (wait_step False) s" "ws_waiter s = WReturned (Some ErrNoReceipt)"
    by blast
  with wait_result_correct [OF s] show ?thesis by blast
qed

text \<open>A wait for the reply to a receipt that returns without an error has a reply to
  pass on: a message that arrived with the receipt's UUID in its reply field, so the owner's
  function is never called with the nil message.\<close>

theorem reply_is_for_receipt:
  assumes "reach (wait_init (reply_wanted u)) (wait_step fires) s" and "ws_waiter s = WReturned r"
  shows "r \<in> {None, Some ErrWaitTimeout}
    \<and> (r = None \<longrightarrow> (\<exists>m \<in> set (ws_arrived s). msg_ReplyTo m = u \<and> waitOnReply_finish r (ws_reply s) g = g (Some m)))"
proof -
  have inv: "wait_inv (reply_wanted u) fires s" by (rule waitsys.inv_reach [OF assms(1)])
  then have "r \<in> {None, Some ErrWaitTimeout}"
    using assms(2) by (auto simp: wait_inv_def wanted_def reply_wanted_def split: if_splits)
  moreover have "\<exists>m \<in> set (ws_arrived s). msg_ReplyTo m = u \<and> waitOnReply_finish r (ws_reply s) g = g (Some m)"
    if "r = None"
    using inv assms(2) that
    by (fastforce simp: wait_inv_def waitOnReply_finish_def reply_wanted_def split: if_splits)
  ultimately show ?thesis by blast
qed

theorem reply_is_for_receipt_witness:
  "\<exists>s. reach (wait_init (reply_wanted ''u'')) (wait_step False) s \<and> ws_waiter s = WReturned None
     \<and> waitOnReply_finish None (ws_reply s) (\<lambda>_. Some ErrNoReceipt) = Some ErrNoReceipt"
proof -
  have w: "wanted (reply_wanted ''u'') (NewMsgReplyTo ''v'' 0 ''u'' ''t'' [])"
    and e: "reply_wanted ''u'' (NewMsgReplyTo ''v'' 0 ''u'' ''t'' []) = None"
    by (simp_all add: wanted_def reply_wanted_def NewMsgReplyTo_def)
  from one_message_run [OF w, of False] e obtain s where
    s: "reach (wait_init (reply_wanted ''u'')) (wait_step False) s" "ws_waiter s = WReturned None"
    by auto
  with reply_is_for_receipt [OF s, of "\<lambda>_. Some ErrNoReceipt"] show ?thesis by auto
qed

text \<open>As long as at most one arrived message is wanted and no timeout fires, a wait that
  has a result, or a handler that holds one, can always come to its end.\<close>

theorem single_wait_returns:
  assumes "reach (wait_init f) (wait_step False) s" and "length (filter (wanted f) (ws_arrived s)) \<le> 1"
    and "ws_waiter s \<noteq> WSelect \<or> (\<exists>m e. HErr m e \<in> set (ws_handlers s))"
  shows "\<exists>t r. (wait_step False)\<^sup>*\<^sup>* s t \<and> ws_waiter t = WReturned r"
proof -
  have inv: "wait_inv f False s" by (rule waitsys.inv_reach [OF assms(1)])
  have from_got: "\<exists>t r. (wait_step False)\<^sup>*\<^sup>* s' t \<and> ws_waiter t = WReturned r"
    if inv': "wait_inv f False s'" and le: "length (filter (wanted f) (ws_arrived s')) \<le> 1"
      and nsel: "ws_waiter s' \<noteq> WSelect" for s'
  proof -
    have "length (filter (pending f) (ws_handlers s')) + 1 \<le> length (filter (wanted f) (ws_arrived s'))"
      using inv' nsel by (simp add: wait_inv_def)
    then have "length (filter (pending f) (ws_handlers s')) = 0" using le by linarith
    then have none: "\<forall>m e. HErr m e \<notin> set (ws_handlers s')" by (auto simp: filter_empty_conv)
    show ?thesis
    proof (cases "ws_waiter s'")
      case (WGot r)
      then have "wait_step False s' (s'\<lparr>ws_waiter := WLock r\<rparr>)" by (rule wait_step.lock_wait)
      moreover obtain t where "(wait_step False)\<^sup>*\<^sup>* (s'\<lparr>ws_waiter := WLock r\<rparr>) t" "ws_waiter t = WReturned r"
        using lock_returns [of "s'\<lparr>ws_waiter := WLock r\<rparr>" r False] none by auto
      ultimately show ?thesis by (blast intro: converse_rtranclp_into_rtranclp)
    qed (use nsel lock_returns [OF none] in blast)+
  qed
  show ?thesis
  proof (cases "ws_waiter s = WSelect")
    case False
    with from_got [OF inv assms(2)] show ?thesis by blast
  next
    case True
    with assms(3) obtain m e k where k: "k < length (ws_handlers s)" "ws_handlers s ! k = HErr m e"
      by (metis in_set_conv_nth)
    let ?s1 = "s\<lparr>ws_handlers := (ws_handlers s)[k := HFeedback FbSuccess], ws_waiter := WGot e\<rparr>"
    have st: "wait_step False s ?s1" by (rule wait_step.rendezvous [OF k True])
    then have "wait_inv f False ?s1" by (rule wait_inv_step [OF inv])
    with from_got [of ?s1] assms(2) st show ?thesis
      by (auto intro: converse_rtranclp_into_rtranclp)
  qed
qed

theorem single_wait_returns_witness:
  "\<exists>s t r. reach (wait_init (\<lambda>_. None)) (wait_step False) s \<and> (wait_step False)\<^sup>*\<^sup>* s t \<and> ws_waiter t = WReturned r"
proof -
  have "wanted (\<lambda>_. None) (NewMsg ''u'' 0 ''t'' [])" by (simp add: wanted_def)
  from one_message_run [OF this, of False] obtain s where
    s: "reach (wait_init (\<lambda>_. None)) (wait_step False) s" "ws_waiter s = WReturned None"
      "ws_arrived s = [NewMsg ''u'' 0 ''t'' []]" by blast
  then have "length (filter (wanted (\<lambda>_. None)) (ws_arrived s)) \<le> 1" "ws_waiter s \<noteq> WSelect" by simp_all
  with single_wait_returns [OF s(1)] s(1) show ?thesis by blast
qed

lemma wait_start:
  assumes "wait_init f s0"
  obtains p where "s0 = \<lparr>ws_pod = p, ws_handlers = [], ws_waiter = WSelect, ws_reply = None, ws_arrived = []\<rparr>"
    and "\<And>m. wanted f m \<Longrightarrow> handler_enter p (Some m) = Inr (HErr m (f m))"
proof -
  obtain p where p: "s0 = \<lparr>ws_pod = p, ws_handlers = [], ws_waiter = WSelect, ws_reply = None, ws_arrived = []\<rparr>"
      "pod_onFunc p = Some (Waiter f)" "pod_filter p = newMessageFilter"
    using assms setOnFunc_hist(5,6) by (auto simp: wait_init_def WaitUntil_setup_def split: option.splits)
  then have "handler_enter p (Some m) = Inr (HErr m (f m))" if "wanted f m" for m
    using that by (simp add: handler_enter_def wanted_def)
  with p(1) that show thesis by blast
qed

text \<open>Two wanted messages, both handled before the waiter has its result.\<close>

lemma two_results_block:
  assumes "wait_init f s0" and "wanted f m1" and "wanted f m2"
  shows "\<exists>s. (wait_step fires)\<^sup>*\<^sup>* s0 s \<and> ws_arrived s = [m1, m2] \<and> deadlocked s"
proof -
  obtain p where p: "s0 = \<lparr>ws_pod = p, ws_handlers = [], ws_waiter = WSelect, ws_reply = None, ws_arrived = []\<rparr>"
      and enter: "\<And>m. wanted f m \<Longrightarrow> handler_enter p (Some m) = Inr (HErr m (f m))"
    using wait_start [OF assms(1)] by blast
  let ?s1 = "s0\<lparr>ws_handlers := [HStart (Some m1)], ws_arrived := [m1]\<rparr>"
  let ?s2 = "s0\<lparr>ws_handlers := [HStart (Some m1), HStart (Some m2)], ws_arrived := [m1, m2]\<rparr>"
  let ?s3 = "?s2\<lparr>ws_handlers := [HErr m1 (f m1), HStart (Some m2)], ws_reply := accepted (HErr m1 (f m1)) None\<rparr>"
  let ?s4 = "?s3\<lparr>ws_handlers := [HErr m1 (f m1), HErr m2 (f m2)],
                 ws_reply := accepted (HErr m2 (f m2)) (ws_reply ?s3)\<rparr>"
  let ?s5 = "?s4\<lparr>ws_handlers := [HFeedback FbSuccess, HErr m2 (f m2)], ws_waiter := WGot (f m1)\<rparr>"
  let ?s6 = "?s5\<lparr>ws_waiter := WLock (f m1)\<rparr>"
  have "wait_step fires s0 ?s1" using wait_step.arrive [of fires s0 m1] p by simp
  moreover have "wait_step fires ?s1 ?s2" using wait_step.arrive [of fires ?s1 m2] by simp
  moreover have "wait_step fires ?s2 ?s3"
    using wait_step.enter [of 0 ?s2 "Some m1" "HErr m1 (f m1)" fires] enter [OF assms(2)] p by simp
  moreover have "wait_step fires ?s3 ?s4"
    using wait_step.enter [of 1 ?s3 "Some m2" "HErr m2 (f m2)" fires] enter [OF assms(3)] p by simp
  moreover have "wait_step fires ?s4 ?s5"
    using wait_step.rendezvous [of 0 ?s4 m1 "f m1" fires] p by simp
  moreover have "wait_step fires ?s5 ?s6" using wait_step.lock_wait [of ?s5 "f m1" fires] by simp
  ultimately have "(wait_step fires)\<^sup>*\<^sup>* s0 ?s6" by (meson converse_rtranclp_into_rtranclp rtranclp.rtrancl_refl)
  then show ?thesis by (intro exI [of _ ?s6]) (simp add: deadlocked_def)
qed

text \<open>One wanted message, handled as the timeout fires.\<close>

lemma late_result_blocks:
  assumes "wait_init f s0" and "wanted f m1" and fires
  shows "\<exists>s. (wait_step fires)\<^sup>*\<^sup>* s0 s \<and> ws_arrived s = [m1] \<and> deadlocked s"
proof -
  obtain p where p: "s0 = \<lparr>ws_pod = p, ws_handlers = [], ws_waiter = WSelect, ws_reply = None, ws_arrived = []\<rparr>"
      and enter: "\<And>m. wanted f m \<Longrightarrow> handler_enter p (Some m) = Inr (HErr m (f m))"
    using wait_start [OF assms(1)] by blast
  let ?s1 = "s0\<lparr>ws_handlers := [HStart (Some m1)], ws_arrived := [m1]\<rparr>"
  let ?s2 = "?s1\<lparr>ws_handlers := [HErr m1 (f m1)], ws_reply := accepted (HErr m1 (f m1)) None\<rparr>"
  let ?s3 = "?s2\<lparr>ws_waiter := WGot (Some ErrWaitTimeout)\<rparr>"
  let ?s4 = "?s3\<lparr>ws_waiter := WLock (Some ErrWaitTimeout)\<rparr>"
  have "wait_step fires s0 ?s1" using wait_step.arrive [of fires s0 m1] p by simp
  moreover have "wait_step fires ?s1 ?s2"
    using wait_step.enter [of 0 ?s1 "Some m1" "HErr m1 (f m1)" fires] enter [OF assms(2)] p by simp
  moreover have "wait_step fires ?s2 ?s3" using wait_step.timeout [of fires ?s2] assms(3) p by simp
  moreover have "wait_step fires ?s3 ?s4" using wait_step.lock_wait [of ?s3 _ fires] by simp
  ultimately have "(wait_step fires)\<^sup>*\<^sup>* s0 ?s4" by (meson converse_rtranclp_into_rtranclp rtranclp.rtrancl_refl)
  then show ?thesis by (intro exI [of _ ?s4]) (simp add: deadlocked_def)
qed

text \<open>Property C20. A wait can block the pod forever: from the start of any wait, two wanted messages
  can bring it to a state from which, whatever happens, the wait does not return and no handler
  that waits for the read lock ever runs. The first handler gives its result to the waiter; the
  second one holds the read lock and sends on a channel that nobody reads, and the waiter's
  \<open>Lock\<close> waits for it. The same happens to a wait with a timeout when one wanted message is
  handled as the timeout fires.\<close>

theorem wait_can_deadlock:
  assumes "wait_init f s0" and "wanted f m1" and "wanted f m2" and "fires \<or> n = 2"
  shows "\<exists>s. (wait_step fires)\<^sup>*\<^sup>* s0 s \<and> ws_arrived s = (if n = 2 then [m1, m2] else [m1])
    \<and> (\<forall>t. (wait_step fires)\<^sup>*\<^sup>* s t \<longrightarrow> \<not> returned t
         \<and> (\<forall>k < length (ws_handlers s). \<forall>x. ws_handlers s ! k = HStart x \<longrightarrow> ws_handlers t ! k = HStart x))"
proof -
  have "\<exists>s. (wait_step fires)\<^sup>*\<^sup>* s0 s \<and> ws_arrived s = (if n = 2 then [m1, m2] else [m1]) \<and> deadlocked s"
    using two_results_block [OF assms(1-3), of fires] late_result_blocks [OF assms(1,2), of fires] assms(4) by auto
  then obtain s where s: "(wait_step fires)\<^sup>*\<^sup>* s0 s" "ws_arrived s = (if n = 2 then [m1, m2] else [m1])" "deadlocked s"
    by blast
  have "\<not> returned t \<and> (\<forall>k < length (ws_handlers s). \<forall>x. ws_handlers s ! k = HStart x \<longrightarrow> ws_handlers t ! k = HStart x)"
    if "(wait_step fires)\<^sup>*\<^sup>* s t" for t
    using deadlocked_forever [OF s(3) that] by (auto simp: returned_def deadlocked_def)
  with s(1,2) show ?thesis by blast
qed

theorem wait_can_deadlock_witness:
  "\<exists>s0 s. WaitUntil_setup (newPod False) (\<lambda>_. None) = Some s0 \<and> (wait_step False)\<^sup>*\<^sup>* s0 s
    \<and> length (ws_arrived s) = 2 \<and> (\<forall>t. (wait_step False)\<^sup>*\<^sup>* s t \<longrightarrow> \<not> returned t)"
proof -
  obtain s0 where s0: "WaitUntil_setup (newPod False) (\<lambda>_. None) = Some s0"
    by (simp add: WaitUntil_setup_def setOnFunc_eq newPod_def)
  then have "wait_init (\<lambda>_. None) s0" by (auto simp: wait_init_def)
  moreover have "wanted (\<lambda>_. None) (NewMsg ''u'' 0 ''t'' [])" "wanted (\<lambda>_. None) (NewMsg ''v'' 0 ''t'' [])"
    by (simp_all add: wanted_def)
  ultimately obtain s where "(wait_step False)\<^sup>*\<^sup>* s0 s" "length (ws_arrived s) = 2"
      "\<forall>t. (wait_step False)\<^sup>*\<^sup>* s t \<longrightarrow> \<not> returned t"
    using wait_can_deadlock [of "\<lambda>_. None" s0 _ _ False 2] by fastforce
  with s0 show ?thesis by blast
qed

text \<open>Property C39. A reply that is faster than the wait for it is lost: when a pod without a function has
  sent a message and the reply is handled before \<open>WaitUntil\<close> has set its function, the pod drops it and
  reports nothing, so that it is not sent again; the wait without a timeout then never returns
  unless a second reply arrives.\<close>

theorem early_reply_is_lost:
  assumes "pod_onFunc p = None" and "pod_Send p busChan (Some msg) = Some (Inr (Some rc, p1, busChan1))"
    and "msg_ReplyTo reply = msg_UUID msg" and "pod_WaitOn p2 (reply_wanted (rc_UUID rc)) = Some s0"
    and "pod_handle p1 (Some reply) = Some (Inr p2)"
  shows "p2 = p1
    \<and> (\<forall>s r. (wait_step False)\<^sup>*\<^sup>* s0 s \<and> ws_waiter s = WReturned r \<longrightarrow>
         (\<exists>second \<in> set (ws_arrived s). msg_ReplyTo second = msg_UUID msg))"
proof -
  from Send_Some [OF assms(2)] have p1: "pod_onFunc p1 = None" "rc_UUID rc = msg_UUID msg"
    using assms(1) by auto
  then have "p2 = p1" using assms(5) by (simp add: pod_handle_def handler_enter_def)
  moreover have "\<exists>second \<in> set (ws_arrived s). msg_ReplyTo second = msg_UUID msg"
    if s: "(wait_step False)\<^sup>*\<^sup>* s0 s" "ws_waiter s = WReturned r" for s r
  proof -
    have "wait_init (reply_wanted (rc_UUID rc)) s0" using assms(4) by (auto simp: wait_init_def pod_WaitOn_eq)
    then have "wait_inv (reply_wanted (rc_UUID rc)) False s"
      by (intro waitsys.inv_reach reach_steps [OF reach_init s(1)])
    with s(2) p1(2) show ?thesis
      by (auto simp: wait_inv_def wanted_def reply_wanted_def split: if_splits)
  qed
  ultimately show ?thesis by blast
qed

theorem early_reply_is_lost_witness:
  "\<exists>s0. WaitUntil_setup ((newPod False)\<lparr>pod_filter := FilterUUID newMessageFilter ''a'' False\<rparr>) (reply_wanted ''a'') = Some s0
    \<and> (\<forall>s r. (wait_step False)\<^sup>*\<^sup>* s0 s \<and> ws_waiter s = WReturned r \<longrightarrow>
         (\<exists>second \<in> set (ws_arrived s). msg_ReplyTo second = ''a''))"
proof -
  let ?p = "(newPod False :: pod)" and ?msg = "NewMsg ''a'' 0 ''t'' []" and ?reply = "NewMsgReplyTo ''b'' 0 ''a'' ''t'' []"
  let ?p1 = "?p\<lparr>pod_filter := FilterUUID newMessageFilter ''a'' False\<rparr>"
  obtain s0 where s0: "WaitUntil_setup ?p1 (reply_wanted ''a'') = Some s0"
    by (simp add: WaitUntil_setup_def setOnFunc_eq newPod_def)
  have pre: "pod_onFunc ?p = None" "pod_Send ?p [] (Some ?msg) = Some (Inr (Some \<lparr>rc_UUID = ''a''\<rparr>, ?p1, [?msg]))"
      "msg_ReplyTo ?reply = msg_UUID ?msg" "pod_handle ?p1 (Some ?reply) = Some (Inr ?p1)"
    by (simp_all add: newPod_def pod_Send_def Let_def defaultBusChanSize_def pod_handle_def handler_enter_def NewMsgReplyTo_def)
  from early_reply_is_lost [OF pre(1-3) _ pre(4)] s0 show ?thesis by (simp add: pod_WaitOn_eq)
qed

end
