(* ===== verification/Pod_Calls.thy ===== *)
theory Pod_Calls
  imports Pod
begin

text \<open>
  Functions of a pod that call methods of the pod: \<open>Send\<close> and \<open>ReplyTo\<close>, as the replying pods
  of the examples do, \<open>Disconnect\<close>, \<open>On\<close> and \<open>OnType\<close>. A goroutine of \<open>start\<close> holds the read lock of
  \<open>onFuncLock\<close> until it has written its feedback; \<open>On\<close> and \<open>OnType\<close> take the write
  lock, and a waiting writer keeps new readers out. On the other side the bus checks the status of the pod's
  connection, and never reads its feedback again once it has removed it. Proved are that functions that send, reply and
  succeed leave the pod free of deadlocks; that one that sets the function
  blocks the pod for good; that the successes of a full replay are one more than the
  feedback channel holds, so that \<open>On\<close> blocks until the bus gets its next message; and that a pod that
  disconnects with more than 128 messages in its functions never gets its lock back.
\<close>

section \<open>Functions as programs\<close>

text \<open>
  What a function does with a message: its calls, each with what follows, and at last the error it
  returns. The string of \<open>CallOn\<close> is the message type of \<open>OnType\<close>. \<open>WaitOn\<close> and \<open>WaitUntil\<close> begin with the
  same \<open>Lock\<close> as \<open>On\<close>.
\<close>

datatype script =
    Return "error option"
  | CallSend message "msgReceipt option \<Rightarrow> script"
  | CallReplyTo message message "msgReceipt option \<Rightarrow> script"
  | CallDisconnect script
  | CallOn "string option" "(message \<Rightarrow> script) option" script

type_synonym callback = "message \<Rightarrow> script"

text \<open>
  A goroutine of \<open>start\<close>: before \<open>RLock\<close>; in the function; in the \<open>Lock\<close> of an \<open>On\<close>
  that the function has called; writing its feedback; ended. An owner's goroutine: in the \<open>Lock\<close> of \<open>On\<close>, or past it.
\<close>

datatype caller =
    CWait message
  | CRun message script
  | CLock message "string option" "callback option" script
  | CFeedback feedback
  | CDone

datatype owner = OLock "string option" "callback option" | ODone

text \<open>
  \<open>cy_checking\<close>: the bus has taken a message and is in the loop of \<open>checkStatus\<close> on the pod's connection, with the status
  so far in \<open>cy_status\<close>. \<open>cy_failed\<close> are the failed messages of the connection, and \<open>cy_attached\<close> tells whether
  it is in the ring.
\<close>

record call_sys =
  cy_pod :: "callback pod_rec"
  cy_callers :: "caller list"
  cy_owners :: "owner list"
  cy_busChan :: "message list"
  cy_checking :: bool
  cy_status :: connStatus
  cy_failed :: "message list"
  cy_attached :: bool

section \<open>Steps\<close>

fun reading :: "caller \<Rightarrow> bool" where
  "reading (CWait _) = False"
| "reading CDone = False"
| "reading _ = True"

fun locking :: "caller \<Rightarrow> bool" where
  "locking (CLock _ _ _ _) = True"
| "locking _ = False"

definition lock_requested :: "call_sys \<Rightarrow> bool" where
  "lock_requested s \<longleftrightarrow> (\<exists>c \<in> set (cy_callers s). locking c) \<or> (\<exists>ty f. OLock ty f \<in> set (cy_owners s))"

definition read_locked :: "call_sys \<Rightarrow> bool" where
  "read_locked s \<longleftrightarrow> (\<exists>c \<in> set (cy_callers s). reading c)"

text \<open>\<open>On\<close> and \<open>OnType\<close> under the lock; \<open>None\<close> if the request for a replay blocks.\<close>

definition set_function :: "string option \<Rightarrow> callback option \<Rightarrow> callback pod_rec \<Rightarrow> callback pod_rec option" where
  "set_function ty f p =
     (case setOnFunc p f of
        None \<Rightarrow> None
      | Some p1 \<Rightarrow>
          Some (case ty of
                  None \<Rightarrow> p1
                | Some t \<Rightarrow> p1\<lparr>pod_filter := (FilterType (pod_filter p1) t True)\<lparr>TypeInclusive := False\<rparr>\<rparr>))"

text \<open>A goroutine with the read lock, up to the function's first call.\<close>

definition caller_enter :: "callback pod_rec \<Rightarrow> message \<Rightarrow> caller" where
  "caller_enter p m =
     (case pod_onFunc p of
        None \<Rightarrow> CDone
      | Some f \<Rightarrow> (if messageFilter_allow (pod_filter p) (Some m) = Inr True then CRun m (f m) else CDone))"

text \<open>One call of a running function: what it is then at, the pod and the bus channel; \<open>None\<close> if it blocks.\<close>

fun caller_call :: "message \<Rightarrow> script \<Rightarrow> callback pod_rec \<Rightarrow> message list \<Rightarrow> (caller \<times> callback pod_rec \<times> message list) option" where
  "caller_call m (Return err) p bc = Some (CFeedback (if err \<noteq> None then FbFailed m else FbSuccess), p, bc)"
| "caller_call m (CallSend x k) p bc =
     (case pod_Send p bc (Some x) of Some (Inr (r, p', bc')) \<Rightarrow> Some (CRun m (k r), p', bc') | _ \<Rightarrow> None)"
| "caller_call m (CallReplyTo q x k) p bc =
     (case pod_ReplyTo p bc (Some q) (Some x) of Some (Inr (_, r, p', bc')) \<Rightarrow> Some (CRun m (k r), p', bc') | _ \<Rightarrow> None)"
| "caller_call m (CallDisconnect sc) p bc =
     (case pod_Disconnect p of Some p' \<Rightarrow> Some (CRun m sc, p', bc) | None \<Rightarrow> None)"
| "caller_call m (CallOn ty f sc) p bc = Some (CLock m ty f sc, p, bc)"

definition fresh_status :: connStatus where
  "fresh_status = \<lparr>HadSuccess = False, WantsReplay = False, WantsDisconnect = False, StatusError = None\<rparr>"

text \<open>What \<open>prepareNext\<close> decides when the channel is empty: whether the connection is removed.\<close>

definition removes :: "connStatus \<Rightarrow> message list \<Rightarrow> bool" where
  "removes status failed \<longleftrightarrow> highWaterMark \<le> length failed \<or> StatusError status = None \<and> WantsDisconnect status"

text \<open>
  The steps of the goroutines, the owners and the bus. The bus checks the status of the connection when
  it has taken a message from its channel, as long as the connection is in the ring; when it has been removed the loop of
  \<open>start\<close> ends and the pod is dead. A failed message that is flushed, and a replayed one, arrive again. \<open>others\<close> tells
  whether anyone but the functions sends: other pods, or the owners of this one.
\<close>

inductive call_step :: "bool \<Rightarrow> call_sys \<Rightarrow> call_sys \<Rightarrow> bool" for others :: bool where
  arrive: "call_step others s (s\<lparr>cy_callers := cy_callers s @ [CWait m]\<rparr>)"
| enter: "k < length (cy_callers s) \<Longrightarrow> cy_callers s ! k = CWait m \<Longrightarrow> \<not> lock_requested s \<Longrightarrow>
     call_step others s (s\<lparr>cy_callers := (cy_callers s)[k := caller_enter (cy_pod s) m]\<rparr>)"
| call: "k < length (cy_callers s) \<Longrightarrow> cy_callers s ! k = CRun m sc \<Longrightarrow>
     caller_call m sc (cy_pod s) (cy_busChan s) = Some (c, p, bc) \<Longrightarrow>
     call_step others s (s\<lparr>cy_pod := p, cy_callers := (cy_callers s)[k := c], cy_busChan := bc\<rparr>)"
| call_locked: "k < length (cy_callers s) \<Longrightarrow> cy_callers s ! k = CLock m ty f sc \<Longrightarrow> \<not> read_locked s \<Longrightarrow>
     set_function ty f (cy_pod s) = Some p \<Longrightarrow>
     call_step others s (s\<lparr>cy_pod := p, cy_callers := (cy_callers s)[k := CRun m sc]\<rparr>)"
| feedback: "k < length (cy_callers s) \<Longrightarrow> cy_callers s ! k = CFeedback fb \<Longrightarrow>
     feedback_write (cy_pod s) fb = Some p \<Longrightarrow>
     call_step others s (s\<lparr>cy_pod := p, cy_callers := (cy_callers s)[k := CDone]\<rparr>)"
| owner_calls: "call_step others s (s\<lparr>cy_owners := cy_owners s @ [OLock ty f]\<rparr>)"
| owner_locked: "k < length (cy_owners s) \<Longrightarrow> cy_owners s ! k = OLock ty f \<Longrightarrow> \<not> read_locked s \<Longrightarrow>
     set_function ty f (cy_pod s) = Some p \<Longrightarrow>
     call_step others s (s\<lparr>cy_pod := p, cy_owners := (cy_owners s)[k := ODone]\<rparr>)"
| bus_takes: "\<not> cy_checking s \<Longrightarrow> cy_busChan s = m # rest \<Longrightarrow>
     call_step others s (s\<lparr>cy_busChan := rest, cy_checking := cy_attached s, cy_status := fresh_status\<rparr>)"
| bus_reads: "cy_checking s \<Longrightarrow> pod_feedbackChan (cy_pod s) = fb # rest \<Longrightarrow>
     checkStatus_loop [fb] (cy_status s) (cy_failed s) = (st, failed) \<Longrightarrow>
     call_step others s (s\<lparr>cy_pod := (cy_pod s)\<lparr>pod_feedbackChan := rest\<rparr>, cy_status := st, cy_failed := failed\<rparr>)"
| bus_idle: "cy_checking s \<Longrightarrow> pod_feedbackChan (cy_pod s) = [] \<Longrightarrow>
     call_step others s (s\<lparr>cy_checking := False, cy_attached := \<not> removes (cy_status s) (cy_failed s),
       cy_failed := (if HadSuccess (cy_status s) \<and> \<not> removes (cy_status s) (cy_failed s) then [] else cy_failed s), cy_status := fresh_status\<rparr>)"
| bus_closes: "\<not> cy_attached s \<Longrightarrow> call_step others s (s\<lparr>cy_pod := (cy_pod s)\<lparr>pod_dead := True\<rparr>\<rparr>)"
| other_send: "others \<Longrightarrow> length (cy_busChan s) < defaultBusChanSize \<Longrightarrow>
     call_step others s (s\<lparr>cy_busChan := cy_busChan s @ [m]\<rparr>)"
| owner_send: "others \<Longrightarrow> pod_Send (cy_pod s) (cy_busChan s) (Some x) = Some (Inr (r, p, bc)) \<Longrightarrow>
     call_step others s (s\<lparr>cy_pod := p, cy_busChan := bc\<rparr>)"
| owner_disconnect: "pod_Disconnect (cy_pod s) = Some p \<Longrightarrow> call_step others s (s\<lparr>cy_pod := p\<rparr>)"

inductive_cases call_stepE: "call_step others s t"

text \<open>A function that makes no calls is one of those in \<open>Pod\<close>: the two models of a goroutine agree on it.\<close>

lemma plain_agrees:
  assumes "pod_onFunc p = Some (Plain e)" and "pod_onFunc q = Some (\<lambda>m. Return (e m))" and "pod_filter p = pod_filter q"
  shows "(handler_enter p (Some m) = Inr HDone \<longleftrightarrow> caller_enter q m = CDone)
    \<and> (handler_enter p (Some m) = Inr (HFeedback fb) \<longleftrightarrow>
         (\<exists>sc. caller_enter q m = CRun m sc \<and> caller_call m sc q bc = Some (CFeedback fb, q, bc)))"
  using assms by (auto simp: handler_enter_def caller_enter_def allow_iff)

section \<open>Calls that do not set the function\<close>

text \<open>Functions that send and reply and then succeed, on any path.\<close>

primrec calm :: "script \<Rightarrow> bool" where
  "calm (Return err) \<longleftrightarrow> err = None"
| "calm (CallSend x k) \<longleftrightarrow> (\<forall>r. calm (k r))"
| "calm (CallReplyTo q x k) \<longleftrightarrow> (\<forall>r. calm (k r))"
| "calm (CallDisconnect sc) \<longleftrightarrow> False"
| "calm (CallOn ty f sc) \<longleftrightarrow> False"

definition calm_func :: "callback option \<Rightarrow> bool" where
  "calm_func f \<longleftrightarrow> (\<forall>g. f = Some g \<longrightarrow> (\<forall>m. calm (g m)))"

fun calm_caller :: "caller \<Rightarrow> bool" where
  "calm_caller (CRun m sc) \<longleftrightarrow> calm sc"
| "calm_caller (CLock _ _ _ _) \<longleftrightarrow> False"
| "calm_caller (CFeedback fb) \<longleftrightarrow> fb = FbSuccess"
| "calm_caller _ \<longleftrightarrow> True"

fun calm_owner :: "owner \<Rightarrow> bool" where
  "calm_owner (OLock ty f) = calm_func f"
| "calm_owner ODone = True"

text \<open>A connection that has reported nothing but successes and requests for a replay.\<close>

definition steady :: "call_sys \<Rightarrow> bool" where
  "steady s \<longleftrightarrow> cy_attached s \<and> cy_failed s = [] \<and> set (pod_feedbackChan (cy_pod s)) \<subseteq> {FbSuccess, FbReplay}
     \<and> (cy_checking s \<longrightarrow> StatusError (cy_status s) = None \<and> \<not> WantsDisconnect (cy_status s))"

definition calm_sys :: "call_sys \<Rightarrow> bool" where
  "calm_sys s \<longleftrightarrow> calm_func (pod_onFunc (cy_pod s)) \<and> (\<forall>c \<in> set (cy_callers s). calm_caller c)
     \<and> (\<forall>w \<in> set (cy_owners s). calm_owner w) \<and> steady s"

text \<open>The bus can always empty both channels: if it has nothing to do, a message of another pod makes it.\<close>

definition emptied :: "call_sys \<Rightarrow> call_sys \<Rightarrow> bool" where
  "emptied s t \<longleftrightarrow> cy_pod t = (cy_pod s)\<lparr>pod_feedbackChan := []\<rparr> \<and> cy_callers t = cy_callers s
     \<and> cy_owners t = cy_owners s \<and> cy_busChan t = [] \<and> \<not> cy_checking t \<and> steady t"

lemma bus_drains:
  assumes "cy_checking s" and "steady s"
  shows "\<exists>t. (call_step others)\<^sup>*\<^sup>* s t \<and> cy_pod t = (cy_pod s)\<lparr>pod_feedbackChan := []\<rparr> \<and> cy_callers t = cy_callers s
     \<and> cy_owners t = cy_owners s \<and> cy_busChan t = cy_busChan s \<and> \<not> cy_checking t \<and> steady t"
  using assms
proof (induction "pod_feedbackChan (cy_pod s)" arbitrary: s)
  case Nil
  let ?t = "s\<lparr>cy_checking := False, cy_attached := \<not> removes (cy_status s) (cy_failed s),
    cy_failed := (if HadSuccess (cy_status s) \<and> \<not> removes (cy_status s) (cy_failed s) then [] else cy_failed s), cy_status := fresh_status\<rparr>"
  have "call_step others s ?t" using Nil by (intro call_step.bus_idle) simp_all
  moreover have "steady ?t" using Nil by (simp add: steady_def removes_def highWaterMark_def)
  ultimately show ?case using Nil(1) by (intro exI [of _ ?t]) auto
next
  case (Cons fb rest)
  have fb: "fb = FbSuccess \<or> fb = FbReplay" and rest: "set rest \<subseteq> {FbSuccess, FbReplay}"
    using Cons(2) [symmetric] Cons(4) by (auto simp: steady_def)
  obtain st where st: "checkStatus_loop [fb] (cy_status s) (cy_failed s) = (st, cy_failed s)"
      "StatusError st = StatusError (cy_status s)" "WantsDisconnect st = WantsDisconnect (cy_status s)"
    using fb by (auto simp: checkStatus_loop_eq)
  let ?s1 = "s\<lparr>cy_pod := (cy_pod s)\<lparr>pod_feedbackChan := rest\<rparr>, cy_status := st, cy_failed := cy_failed s\<rparr>"
  have "call_step others s ?s1" using Cons(3) Cons(2) [symmetric] st(1) by (rule call_step.bus_reads)
  moreover have "steady ?s1" using Cons(4) rest st(2,3) by (simp add: steady_def)
  ultimately show ?case using Cons(1) [of ?s1] Cons(3) by (auto intro: converse_rtranclp_into_rtranclp)
qed

lemma bus_rounds:
  assumes "\<not> cy_checking s" and "cy_busChan s \<noteq> []" and "steady s"
  shows "\<exists>t. (call_step others)\<^sup>*\<^sup>* s t \<and> emptied s t"
  using assms
proof (induction "cy_busChan s" arbitrary: s)
  case (Cons m rest)
  let ?s1 = "s\<lparr>cy_busChan := rest, cy_checking := cy_attached s, cy_status := fresh_status\<rparr>"
  have "call_step others s ?s1" using Cons(3) Cons(2) [symmetric] by (rule call_step.bus_takes)
  moreover have "steady ?s1" "cy_checking ?s1" using Cons(5) by (simp_all add: steady_def fresh_status_def)
  then obtain s2 where s2: "(call_step others)\<^sup>*\<^sup>* ?s1 s2" "cy_pod s2 = (cy_pod s)\<lparr>pod_feedbackChan := []\<rparr>"
      "cy_callers s2 = cy_callers s" "cy_owners s2 = cy_owners s" "cy_busChan s2 = rest" "\<not> cy_checking s2" "steady s2"
    using bus_drains [of ?s1 others] by auto
  ultimately have run: "(call_step others)\<^sup>*\<^sup>* s s2" by (blast intro: converse_rtranclp_into_rtranclp)
  show ?case
  proof (cases rest)
    case Nil
    then have "emptied s s2" using s2 by (simp add: emptied_def)
    with run show ?thesis by blast
  next
    case (Cons m' rest')
    then obtain t where "(call_step others)\<^sup>*\<^sup>* s2 t" "emptied s2 t" using Cons.hyps(1) [of s2] s2 by auto
    moreover have "emptied s t" using \<open>emptied s2 t\<close> s2 by (simp add: emptied_def)
    ultimately show ?thesis using run by (blast intro: rtranclp_trans)
  qed
qed simp

lemma bus_empties: "steady s \<Longrightarrow> \<exists>t. (call_step True)\<^sup>*\<^sup>* s t \<and> emptied s t"
proof -
  assume st: "steady s"
  obtain s' where s': "(call_step True)\<^sup>*\<^sup>* s s'" "\<not> cy_checking s'" "cy_callers s' = cy_callers s"
      "cy_owners s' = cy_owners s" "(cy_pod s')\<lparr>pod_feedbackChan := []\<rparr> = (cy_pod s)\<lparr>pod_feedbackChan := []\<rparr>" "steady s'"
    using bus_drains [OF _ st, of True] st by (cases "cy_checking s") force+
  obtain s'' where s'': "(call_step True)\<^sup>*\<^sup>* s' s''" "\<not> cy_checking s''" "cy_busChan s'' \<noteq> []"
      "cy_callers s'' = cy_callers s'" "cy_owners s'' = cy_owners s'" "cy_pod s'' = cy_pod s'" "steady s''"
  proof (cases "cy_busChan s' = []")
    case True
    obtain m where "call_step True s' (s'\<lparr>cy_busChan := [m]\<rparr>)"
      using call_step.other_send [of True s'] True by (force simp: defaultBusChanSize_def)
    with s'(2,6) show thesis by (intro that [of "s'\<lparr>cy_busChan := [m]\<rparr>"]) (auto simp: steady_def)
  qed (use s'(2,6) that in blast)
  obtain t where "(call_step True)\<^sup>*\<^sup>* s'' t" "emptied s'' t" using bus_rounds [OF s''(2,3,7)] by blast
  moreover have "emptied s t" using \<open>emptied s'' t\<close> s'(3-5) s''(4-6) by (simp add: emptied_def)
  ultimately show ?thesis using s'(1) s''(1) by (meson rtranclp_trans)
qed

text \<open>A running function comes to its end.\<close>

definition ended :: "nat \<Rightarrow> call_sys \<Rightarrow> call_sys \<Rightarrow> bool" where
  "ended k s t \<longleftrightarrow> cy_callers t = (cy_callers s)[k := CDone] \<and> cy_owners t = cy_owners s
    \<and> pod_onFunc (cy_pod t) = pod_onFunc (cy_pod s) \<and> steady t"

lemma feedback_ends:
  assumes "k < length (cy_callers s)" and "cy_callers s ! k = CFeedback FbSuccess" and "steady s"
  shows "\<exists>t. (call_step True)\<^sup>*\<^sup>* s t \<and> ended k s t"
proof -
  obtain u where u: "(call_step True)\<^sup>*\<^sup>* s u" "emptied s u" using bus_empties [OF assms(3)] by blast
  let ?p = "(cy_pod u)\<lparr>pod_feedbackChan := [FbSuccess]\<rparr>"
  let ?t = "u\<lparr>cy_pod := ?p, cy_callers := (cy_callers u)[k := CDone]\<rparr>"
  have "feedback_write (cy_pod u) FbSuccess = Some ?p"
    using u(2) by (simp add: emptied_def feedback_write_def defaultPodChanSize_def)
  then have "call_step True u ?t"
    by (rule call_step.feedback [rotated 2]) (use assms u(2) in \<open>auto simp: emptied_def\<close>)
  moreover have "steady ?t" using u(2) by (auto simp: emptied_def steady_def)
  ultimately show ?thesis
    using u by (intro exI [of _ ?t]) (auto simp: emptied_def ended_def)
qed

text \<open>With both channels empty no call blocks.\<close>

lemma send_goes:
  "\<exists>r p' bc'. pod_Send p [] (Some x) = Some (Inr (r, p', bc')) \<and> pod_onFunc p' = pod_onFunc p
     \<and> pod_feedbackChan p' = pod_feedbackChan p"
  by (auto simp: pod_Send_def Let_def defaultBusChanSize_def)

lemma reply_goes:
  "\<exists>x' r p' bc'. pod_ReplyTo p [] (Some q) (Some x) = Some (Inr (x', r, p', bc')) \<and> pod_onFunc p' = pod_onFunc p
     \<and> pod_feedbackChan p' = pod_feedbackChan p"
  using send_goes [of p "msg_SetReplyTo x (msg_UUID q)"] by (auto simp: pod_ReplyTo_def Let_def)

lemma function_ends:
  assumes "calm sc" and "k < length (cy_callers s)" and "cy_callers s ! k = CRun m sc" and "steady s"
  shows "\<exists>t. (call_step True)\<^sup>*\<^sup>* s t \<and> ended k s t"
  using assms
proof (induction sc arbitrary: s)
  have go: "\<exists>t. (call_step True)\<^sup>*\<^sup>* s t \<and> ended k s t"
    if k: "k < length (cy_callers s)" "cy_callers s ! k = CRun m sc" and st: "steady s"
      and call: "\<forall>p. pod_feedbackChan p = [] \<longrightarrow> (\<exists>c p' bc'. caller_call m sc p [] = Some (c, p', bc')
                   \<and> pod_onFunc p' = pod_onFunc p \<and> pod_feedbackChan p' = pod_feedbackChan p \<and> P c)"
      and rest: "\<And>s c. P c \<Longrightarrow> k < length (cy_callers s) \<Longrightarrow> cy_callers s ! k = c \<Longrightarrow> steady s \<Longrightarrow>
                   \<exists>t. (call_step True)\<^sup>*\<^sup>* s t \<and> ended k s t"
    for s sc and P :: "caller \<Rightarrow> bool"
  proof -
    obtain u where u: "(call_step True)\<^sup>*\<^sup>* s u" "emptied s u" using bus_empties [OF st] by blast
    then obtain c p bc where c: "caller_call m sc (cy_pod u) (cy_busChan u) = Some (c, p, bc)"
        "pod_onFunc p = pod_onFunc (cy_pod u)" "pod_feedbackChan p = []" "P c"
      using call [rule_format, of "cy_pod u"] by (auto simp: emptied_def)
    let ?v = "u\<lparr>cy_pod := p, cy_callers := (cy_callers u)[k := c], cy_busChan := bc\<rparr>"
    have v: "call_step True u ?v"
      by (rule call_step.call [OF _ _ c(1)]) (use k u(2) in \<open>auto simp: emptied_def\<close>)
    have "steady ?v" using u(2) c(3) by (simp add: emptied_def steady_def)
    then obtain t where t: "(call_step True)\<^sup>*\<^sup>* ?v t" "ended k ?v t"
      using rest [OF c(4), of ?v] k u(2) by (auto simp: emptied_def)
    have "ended k s t" using t(2) u(2) c(2) by (simp add: ended_def emptied_def)
    with u(1) v t(1) show ?thesis by (meson rtranclp.rtrancl_into_rtrancl rtranclp_trans)
  qed
  {
    case (Return err)
    show ?case
      by (rule go [OF Return(2-4), of "\<lambda>c. c = CFeedback FbSuccess"])
         (use feedback_ends Return(1) in auto)
  next
    case (CallSend x f)
    show ?case
      by (rule go [OF CallSend.prems(2-4), of "\<lambda>c. \<exists>r. c = CRun m (f r)"])
         (use send_goes [of _ x] CallSend.IH CallSend.prems(1) in \<open>fastforce+\<close>)
  next
    case (CallReplyTo q x f)
    show ?case
      by (rule go [OF CallReplyTo.prems(2-4), of "\<lambda>c. \<exists>r. c = CRun m (f r)"])
         (use reply_goes [of _ q x] CallReplyTo.IH CallReplyTo.prems(1) in \<open>fastforce+\<close>)
  next
    case (CallDisconnect sc)
    then show ?case by simp
  next
    case (CallOn ty f sc)
    then show ?case by simp
  }
qed

text \<open>An owner gets the lock when no goroutine holds it, and a goroutine when none asks for the write lock.\<close>

lemma set_function_goes:
  "pod_feedbackChan p = [] \<Longrightarrow> \<exists>p'. set_function ty f p = Some p' \<and> pod_onFunc p' = f \<and> set (pod_feedbackChan p') \<subseteq> {FbReplay}"
  by (auto simp: set_function_def setOnFunc_eq feedback_write_def defaultPodChanSize_def split: option.splits)

lemma owner_ends:
  assumes "\<not> read_locked s" and "k < length (cy_owners s)" and "cy_owners s ! k = OLock ty f" and "steady s"
  shows "\<exists>t. (call_step True)\<^sup>*\<^sup>* s t \<and> cy_callers t = cy_callers s \<and> cy_owners t = (cy_owners s)[k := ODone]
    \<and> pod_onFunc (cy_pod t) = f \<and> steady t"
proof -
  obtain u where u: "(call_step True)\<^sup>*\<^sup>* s u" "emptied s u" using bus_empties [OF assms(4)] by blast
  then obtain p where p: "set_function ty f (cy_pod u) = Some p" "pod_onFunc p = f" "set (pod_feedbackChan p) \<subseteq> {FbReplay}"
    using set_function_goes [of "cy_pod u" ty f] by (auto simp: emptied_def)
  have "call_step True u (u\<lparr>cy_pod := p, cy_owners := (cy_owners u)[k := ODone]\<rparr>)"
    by (rule call_step.owner_locked [OF _ _ _ p(1)]) (use assms u(2) in \<open>auto simp: emptied_def read_locked_def\<close>)
  with u p(2,3) show ?thesis
    by (intro exI [of _ "u\<lparr>cy_pod := p, cy_owners := (cy_owners u)[k := ODone]\<rparr>"]) (auto simp: emptied_def steady_def)
qed

lemma waiting_ends:
  assumes calm: "calm_func (pod_onFunc (cy_pod s))" and "\<not> lock_requested s"
    and "k < length (cy_callers s)" and "cy_callers s ! k = CWait m" and "steady s"
  shows "\<exists>t. (call_step True)\<^sup>*\<^sup>* s t \<and> ended k s t"
proof -
  let ?c = "caller_enter (cy_pod s) m"
  let ?u = "s\<lparr>cy_callers := (cy_callers s)[k := ?c]\<rparr>"
  have u: "call_step True s ?u" by (rule call_step.enter [OF assms(3,4,2)])
  have st: "steady ?u" using assms(5) by (simp add: steady_def)
  have "?c = CDone \<or> (\<exists>sc. ?c = CRun m sc \<and> calm sc)"
    using calm by (auto simp: caller_enter_def calm_func_def split: option.splits)
  then show ?thesis
  proof
    assume "?c = CDone"
    with u st show ?thesis by (intro exI [of _ ?u]) (auto simp: ended_def)
  next
    assume "\<exists>sc. ?c = CRun m sc \<and> calm sc"
    then obtain sc where sc: "?c = CRun m sc" "calm sc" by blast
    obtain t where "(call_step True)\<^sup>*\<^sup>* ?u t" "ended k ?u t"
      using function_ends [OF sc(2), of k ?u m] sc(1) assms(3) st by auto
    with u show ?thesis by (intro exI [of _ t]) (auto simp: ended_def)
  qed
qed

definition unfinished :: "call_sys \<Rightarrow> nat" where
  "unfinished s = length (filter (\<lambda>c. c \<noteq> CDone) (cy_callers s)) + length (filter (\<lambda>w. w \<noteq> ODone) (cy_owners s))"

lemma ended_calm:
  assumes "ended k s t" and "calm_sys s" and "k < length (cy_callers s)" and "cy_callers s ! k \<noteq> CDone"
  shows "calm_sys t \<and> unfinished t < unfinished s"
  using assms length_filter_update [of k "cy_callers s" "\<lambda>c. c \<noteq> CDone" CDone]
  by (auto simp: ended_def calm_sys_def unfinished_def dest!: set_update_cases)

lemma calm_progress:
  assumes calm: "calm_sys s" and more: "unfinished s \<noteq> 0"
  shows "\<exists>t. (call_step True)\<^sup>*\<^sup>* s t \<and> calm_sys t \<and> unfinished t < unfinished s"
proof -
  have steady: "steady s" using calm by (simp add: calm_sys_def)
  have finish: ?thesis if k: "k < length (cy_callers s)" "cy_callers s ! k \<noteq> CDone"
      and ex: "\<exists>t. (call_step True)\<^sup>*\<^sup>* s t \<and> ended k s t" for k
    using ex ended_calm [OF _ calm k] by blast
  have cal: "calm_caller c" if "c \<in> set (cy_callers s)" for c using calm that by (simp add: calm_sys_def)
  consider (run) k m sc where "k < length (cy_callers s)" "cy_callers s ! k = CRun m sc"
    | (fb) k fb where "k < length (cy_callers s)" "cy_callers s ! k = CFeedback fb"
    | (owner) k ty f where "\<not> read_locked s" "k < length (cy_owners s)" "cy_owners s ! k = OLock ty f"
    | (wait) k m where "\<not> lock_requested s" "k < length (cy_callers s)" "cy_callers s ! k = CWait m"
  proof (cases "read_locked s")
    case True
    then obtain c where c: "c \<in> set (cy_callers s)" "reading c" by (auto simp: read_locked_def)
    then obtain k where k: "k < length (cy_callers s)" "cy_callers s ! k = c" by (metis in_set_conv_nth)
    show thesis
      by (rule caller.exhaust [of c]) (use c(2) cal [OF c(1)] that(1,2) [OF k(1)] k(2) in simp_all)
  next
    case False
    show thesis
    proof (cases "\<exists>ty f. OLock ty f \<in> set (cy_owners s)")
      case True
      with False that(3) show thesis by (metis in_set_conv_nth)
    next
      case none: False
      then have nlock: "\<not> lock_requested s"
        using False by (auto simp: lock_requested_def read_locked_def elim!: locking.elims)
      have "filter (\<lambda>w. w \<noteq> ODone) (cy_owners s) = []"
        using none by (auto simp: filter_empty_conv) (metis owner.exhaust)
      with more obtain c where c: "c \<in> set (cy_callers s)" "c \<noteq> CDone"
        by (auto simp: unfinished_def filter_empty_conv)
      then obtain k where k: "k < length (cy_callers s)" "cy_callers s ! k = c" by (metis in_set_conv_nth)
      have "\<not> reading c" using False c(1) by (auto simp: read_locked_def)
      with c(2) obtain m where "c = CWait m" by (cases c) auto
      with k nlock show thesis by (intro that(4)) auto
    qed
  qed
  then show ?thesis
  proof cases
    case (run k m sc)
    have "calm sc" using cal [of "CRun m sc"] run by (metis calm_caller.simps(1) nth_mem)
    with run function_ends [OF _ _ _ steady] finish show ?thesis by (metis caller.distinct(13))
  next
    case (fb k fb)
    have "fb = FbSuccess" using cal [of "CFeedback fb"] fb by (metis calm_caller.simps(3) nth_mem)
    then show ?thesis using feedback_ends [of k s] fb steady by (intro finish [of k]) auto
  next
    case (owner k ty f)
    obtain t where t: "(call_step True)\<^sup>*\<^sup>* s t" "cy_callers t = cy_callers s" "cy_owners t = (cy_owners s)[k := ODone]"
        "pod_onFunc (cy_pod t) = f" "steady t"
      using owner_ends [OF owner steady] by blast
    have "calm_owner (OLock ty f)" using calm owner(2,3) by (metis calm_sys_def nth_mem)
    then have "calm_sys t" using calm t by (auto simp: calm_sys_def dest!: set_update_cases)
    moreover have "unfinished t < unfinished s"
      using length_filter_update [OF owner(2), of "\<lambda>w. w \<noteq> ODone" ODone] owner(3) t by (simp add: unfinished_def)
    ultimately show ?thesis using t(1) by blast
  next
    case (wait k m)
    with waiting_ends [of s k m] calm show ?thesis by (intro finish [of k]) (auto simp: calm_sys_def)
  qed
qed

lemma calm_ends:
  "calm_sys s \<Longrightarrow>
   \<exists>t. (call_step True)\<^sup>*\<^sup>* s t \<and> set (cy_callers t) \<subseteq> {CDone} \<and> set (cy_owners t) \<subseteq> {ODone}"
proof (induction "unfinished s" arbitrary: s rule: less_induct)
  case less
  show ?case
  proof (cases "unfinished s = 0")
    case True
    then have "set (cy_callers s) \<subseteq> {CDone}" "set (cy_owners s) \<subseteq> {ODone}"
      by (auto simp: unfinished_def filter_empty_conv)
    then show ?thesis by blast
  next
    case False
    from calm_progress [OF less.prems this] obtain u where
      "(call_step True)\<^sup>*\<^sup>* s u" "calm_sys u" "unfinished u < unfinished s" by blast
    with less.hyps [of u] show ?thesis by (meson rtranclp_trans)
  qed
qed

section \<open>A function that sets the function\<close>

text \<open>While a goroutine has the read lock and another one asks for the write lock, nobody gets either.\<close>

definition waiting_stay :: "call_sys \<Rightarrow> call_sys \<Rightarrow> bool" where
  "waiting_stay s t \<longleftrightarrow>
     (\<forall>j < length (cy_callers s). \<forall>m. cy_callers s ! j = CWait m \<longrightarrow> j < length (cy_callers t) \<and> cy_callers t ! j = CWait m)
   \<and> (\<forall>j < length (cy_owners s). \<forall>ty f. cy_owners s ! j = OLock ty f \<longrightarrow> j < length (cy_owners t) \<and> cy_owners t ! j = OLock ty f)"

lemma waiting_stay_refl [simp]: "waiting_stay s s"
  by (simp add: waiting_stay_def)

lemma waiting_stay_trans: "waiting_stay s t \<Longrightarrow> waiting_stay t u \<Longrightarrow> waiting_stay s u"
  by (simp add: waiting_stay_def)

lemma frozen_step:
  assumes "call_step others s t" and "read_locked s" and "lock_requested s"
  shows "waiting_stay s t"
  using assms(1)
proof (cases rule: call_step.cases)
  case (call k m sc c p bc)
  then show ?thesis by (auto simp: waiting_stay_def nth_list_update)
next
  case (feedback k fb p)
  then show ?thesis by (auto simp: waiting_stay_def nth_list_update)
qed (use assms(2,3) in \<open>auto simp: waiting_stay_def nth_append\<close>)

lemma locked_step:
  assumes "call_step others s t" and k: "k < length (cy_callers s)" "cy_callers s ! k = CLock m ty f sc"
  shows "k < length (cy_callers t) \<and> cy_callers t ! k = CLock m ty f sc \<and> waiting_stay s t"
proof -
  have c: "CLock m ty f sc \<in> set (cy_callers s)" using k by (metis nth_mem)
  have rl: "read_locked s" "lock_requested s"
    unfolding read_locked_def lock_requested_def using c by (meson reading.simps(4) locking.simps(1))+
  from assms(1) have "k < length (cy_callers t) \<and> cy_callers t ! k = CLock m ty f sc"
    by (cases rule: call_step.cases) (use k rl in \<open>auto simp: nth_append nth_list_update\<close>)
  with frozen_step [OF assms(1) rl] show ?thesis by blast
qed

lemma locked_forever:
  assumes "(call_step others)\<^sup>*\<^sup>* s t" and "k < length (cy_callers s)" and "cy_callers s ! k = CLock m ty f sc"
  shows "k < length (cy_callers t) \<and> cy_callers t ! k = CLock m ty f sc \<and> waiting_stay s t"
  using assms
proof (induction rule: rtranclp_induct)
  case (step t u)
  then have t: "k < length (cy_callers t)" "cy_callers t ! k = CLock m ty f sc" "waiting_stay s t" by auto
  from locked_step [OF step(2) t(1,2)] t(3) show ?case by (auto intro: waiting_stay_trans)
qed simp

section \<open>The feedback of a full replay\<close>

text \<open>A function that only returns, and \<open>n\<close> of the messages handled.\<close>

definition report :: "(message \<Rightarrow> error option) \<Rightarrow> message \<Rightarrow> feedback" where
  "report e m = (if e m \<noteq> None then FbFailed m else FbSuccess)"

definition quiet_calls :: "callback pod_rec \<Rightarrow> bool \<Rightarrow> caller list \<Rightarrow> call_sys" where
  "quiet_calls p attached cs =
     \<lparr>cy_pod = p, cy_callers = cs, cy_owners = [], cy_busChan = [], cy_checking = False,
      cy_status = fresh_status, cy_failed = [], cy_attached = attached\<rparr>"

definition flooded :: "callback pod_rec \<Rightarrow> bool \<Rightarrow> message list \<Rightarrow> feedback list \<Rightarrow> nat \<Rightarrow> call_sys" where
  "flooded p attached ms fbs n =
     quiet_calls (p\<lparr>pod_feedbackChan := fbs\<rparr>) attached (replicate n CDone @ map CWait (drop n ms))"

lemmas flood_defs = flooded_def quiet_calls_def

lemma flood_running:
  assumes "pod_onFunc p = Some (\<lambda>m. Return (e m))" and "pod_filter p = newMessageFilter" and "n < length ms"
  shows "(call_step others)\<^sup>*\<^sup>* (flooded p att ms fbs n)
    (flooded p att ms fbs n\<lparr>cy_callers := (cy_callers (flooded p att ms fbs n))[n := CFeedback (report e (ms ! n))]\<rparr>)"
proof -
  let ?s = "flooded p att ms fbs n"
  let ?s1 = "?s\<lparr>cy_callers := (cy_callers ?s)[n := CRun (ms ! n) (Return (e (ms ! n)))]\<rparr>"
  let ?s2 = "?s1\<lparr>cy_callers := (cy_callers ?s1)[n := CFeedback (report e (ms ! n))]\<rparr>"
  have at: "n < length (cy_callers ?s)" "cy_callers ?s ! n = CWait (ms ! n)"
    using assms(3) by (auto simp: flood_defs nth_append)
  have free: "\<not> lock_requested ?s" by (auto simp: lock_requested_def flood_defs)
  have "caller_enter (cy_pod ?s) (ms ! n) = CRun (ms ! n) (Return (e (ms ! n)))"
    using assms(1,2) by (simp add: caller_enter_def flood_defs)
  with call_step.enter [OF at free] have "call_step others ?s ?s1" by simp
  moreover have "call_step others ?s1 ?s2"
    using call_step.call [of n ?s1 "ms ! n" "Return (e (ms ! n))"] at(1) by (simp add: report_def)
  ultimately show ?thesis by (simp add: converse_rtranclp_into_rtranclp r_into_rtranclp)
qed

lemma flood_one:
  assumes "pod_onFunc p = Some (\<lambda>m. Return (e m))" and "pod_filter p = newMessageFilter" and "n < length ms"
    and "length fbs < 128"
  shows "(call_step others)\<^sup>*\<^sup>* (flooded p att ms fbs n) (flooded p att ms (fbs @ [report e (ms ! n)]) (Suc n))"
proof -
  let ?s = "flooded p att ms fbs n" and ?fb = "report e (ms ! n)"
  let ?s1 = "?s\<lparr>cy_callers := (cy_callers ?s)[n := CFeedback ?fb]\<rparr>"
  let ?p = "(cy_pod ?s)\<lparr>pod_feedbackChan := fbs @ [?fb]\<rparr>"
  let ?s2 = "?s1\<lparr>cy_pod := ?p, cy_callers := (cy_callers ?s1)[n := CDone]\<rparr>"
  have n: "n < length (cy_callers ?s1)" using assms(3) by (simp add: flood_defs)
  then have "call_step others ?s1 ?s2"
    by (rule call_step.feedback [where fb = ?fb])
       (use n assms(4) in \<open>simp_all add: feedback_write_def flood_defs defaultPodChanSize_def\<close>)
  moreover have "drop n ms = ms ! n # drop (Suc n) ms" by (rule Cons_nth_drop_Suc [OF assms(3), symmetric])
  then have "?s2 = flooded p att ms (fbs @ [?fb]) (Suc n)"
    by (simp add: flood_defs list_update_append replicate_append_same [symmetric])
  ultimately show ?thesis using flood_running [OF assms(1-3), of others att fbs] by (metis rtranclp.rtrancl_into_rtrancl)
qed

lemma flood_all:
  assumes "pod_onFunc p = Some (\<lambda>m. Return (e m))" and "pod_filter p = newMessageFilter" and "n \<le> length ms"
    and "n \<le> 128"
  shows "(call_step others)\<^sup>*\<^sup>* (flooded p att ms [] 0) (flooded p att ms (map (report e) (take n ms)) n)"
  using assms(3,4)
proof (induction n)
  case (Suc n)
  have "(call_step others)\<^sup>*\<^sup>* (flooded p att ms (map (report e) (take n ms)) n)
     (flooded p att ms (map (report e) (take n ms) @ [report e (ms ! n)]) (Suc n))"
    by (rule flood_one [OF assms(1,2)]) (use Suc.prems in simp_all)
  moreover have "map (report e) (take n ms) @ [report e (ms ! n)] = map (report e) (take (Suc n) ms)"
    using Suc.prems by (simp add: take_Suc_conv_app_nth)
  ultimately show ?case using Suc by (auto intro: rtranclp_trans)
qed simp

text \<open>The state in which the feedback channel is full and the bus has nothing to do.\<close>

fun idle_caller :: "caller \<Rightarrow> bool" where
  "idle_caller (CRun _ _) = False"
| "idle_caller (CLock _ _ _ _) = False"
| "idle_caller _ = True"

definition clogged :: "bool \<Rightarrow> string option \<Rightarrow> callback option \<Rightarrow> call_sys \<Rightarrow> bool" where
  "clogged others ty g s \<longleftrightarrow>
     (\<exists>fb. CFeedback fb \<in> set (cy_callers s)) \<and> (\<forall>c \<in> set (cy_callers s). idle_caller c)
   \<and> (\<exists>os. cy_owners s = OLock ty g # os)
   \<and> 128 \<le> length (pod_feedbackChan (cy_pod s)) \<and> \<not> cy_checking s
   \<and> (cy_busChan s = [] \<and> \<not> others \<or> \<not> cy_attached s)"

lemma clogged_locks: "clogged others ty g s \<Longrightarrow> read_locked s \<and> lock_requested s"
  by (force simp: clogged_def read_locked_def lock_requested_def)

lemma clogged_step: "call_step others s t \<Longrightarrow> clogged others ty g s \<Longrightarrow> clogged others ty g t \<and> waiting_stay s t"
proof (rule conjI)
  assume st: "call_step others s t" and c: "clogged others ty g s"
  from clogged_locks [OF c] st show "waiting_stay s t" by (auto intro: frozen_step)
  have nrun: "\<not> idle_caller x \<Longrightarrow> x \<notin> set (cy_callers s)" for x using c by (auto simp: clogged_def)
  from st show "clogged others ty g t"
  proof (cases rule: call_step.cases)
    case (call k m sc x p bc)
    with nrun [of "CRun m sc"] show ?thesis by (metis idle_caller.simps(1) nth_mem)
  next
    case (feedback k fb p)
    with c show ?thesis by (simp add: clogged_def feedback_write_def defaultPodChanSize_def)
  next
    case (owner_send x r p bc)
    with c show ?thesis by (auto simp: clogged_def pod_Send_def Let_def split: if_splits)
  next
    case (owner_disconnect p)
    with c show ?thesis by (simp add: clogged_def pod_Disconnect_def feedback_write_def defaultPodChanSize_def)
  qed (use c clogged_locks [OF c] in \<open>auto simp: clogged_def\<close>)
qed

lemma clogged_forever:
  "(call_step others)\<^sup>*\<^sup>* s t \<Longrightarrow> clogged others ty g s \<Longrightarrow> clogged others ty g t \<and> waiting_stay s t"
  by (induction rule: rtranclp_induct) (auto dest: clogged_step intro: waiting_stay_trans)

lemma set_function_room: "length (pod_feedbackChan p) < 128 \<Longrightarrow> \<exists>p'. set_function ty g p = Some p'"
  by (auto simp: set_function_def setOnFunc_eq feedback_write_def defaultPodChanSize_def split: option.splits)

text \<open>128 functions have written their feedback, the next one waits for room, and an owner wants the lock.\<close>

definition overrun ::
  "callback pod_rec \<Rightarrow> bool \<Rightarrow> message list \<Rightarrow> (message \<Rightarrow> error option) \<Rightarrow> string option \<Rightarrow> callback option \<Rightarrow> call_sys" where
  "overrun p att ms e ty g =
     (quiet_calls (p\<lparr>pod_feedbackChan := map (report e) (take 128 ms)\<rparr>) att
        (replicate 128 CDone @ CFeedback (report e (ms ! 128)) # map CWait (drop 129 ms)))\<lparr>cy_owners := [OLock ty g]\<rparr>"

lemma flood_overruns:
  assumes "pod_onFunc p = Some (\<lambda>m. Return (e m))" and "pod_filter p = newMessageFilter"
    and "pod_feedbackChan p = []" and "128 < length ms"
  shows "(call_step others)\<^sup>*\<^sup>* (quiet_calls p att (map CWait ms)) (overrun p att ms e ty g)"
proof -
  let ?f = "flooded p att ms (map (report e) (take 128 ms)) 128"
  let ?s1 = "?f\<lparr>cy_callers := (cy_callers ?f)[128 := CFeedback (report e (ms ! 128))]\<rparr>"
  have "flooded p att ms [] 0 = quiet_calls p att (map CWait ms)" using assms(3) by (cases p) (simp add: flooded_def)
  moreover have "(call_step others)\<^sup>*\<^sup>* (flooded p att ms [] 0) ?f"
    by (rule flood_all [OF assms(1,2)]) (use assms(4) in simp_all)
  moreover have "(call_step others)\<^sup>*\<^sup>* ?f ?s1" by (rule flood_running [OF assms(1,2,4)])
  moreover have "call_step others ?s1 (?s1\<lparr>cy_owners := cy_owners ?s1 @ [OLock ty g]\<rparr>)" by (rule call_step.owner_calls)
  moreover have "drop 128 ms = ms ! 128 # drop 129 ms" using Cons_nth_drop_Suc [of 128 ms] assms(4) by simp
  then have "?s1\<lparr>cy_owners := cy_owners ?s1 @ [OLock ty g]\<rparr> = overrun p att ms e ty g"
    by (simp add: flood_defs overrun_def list_update_append)
  ultimately show ?thesis by (metis (no_types, lifting) rtranclp.rtrancl_into_rtrancl rtranclp_trans)
qed

lemma overrun_clogged:
  "128 < length ms \<Longrightarrow> \<not> others \<or> \<not> att \<Longrightarrow> clogged others ty g (overrun p att ms e ty g)"
  by (auto simp: clogged_def overrun_def quiet_calls_def)

text \<open>Once the bus checks the connection, and it is still in the ring, the owner gets the lock.\<close>

lemma overrun_freed:
  assumes "length ms = 129"
  shows "\<exists>t. (call_step True)\<^sup>*\<^sup>* (overrun p True ms e ty g) t \<and> set (cy_owners t) \<subseteq> {ODone}"
proof -
  let ?s = "overrun p True ms e ty g" and ?fb = "report e (ms ! 128)"
  let ?fbs = "map (report e) (take 128 ms)"
  have "length ?fbs = 128" using assms by simp
  then obtain a b fbs where fbs: "?fbs = a # b # fbs" by (cases ?fbs; cases "tl ?fbs") auto
  obtain st1 fl1 where one: "checkStatus_loop [a] fresh_status [] = (st1, fl1)" by fastforce
  obtain st2 fl2 where two: "checkStatus_loop [b] st1 fl1 = (st2, fl2)" by fastforce
  let ?s1 = "?s\<lparr>cy_busChan := [ms ! 0]\<rparr>"
  let ?s2 = "?s\<lparr>cy_checking := True\<rparr>"
  let ?s3 = "?s2\<lparr>cy_pod := (cy_pod ?s)\<lparr>pod_feedbackChan := b # fbs\<rparr>, cy_status := st1, cy_failed := fl1\<rparr>"
  let ?s4 = "?s3\<lparr>cy_pod := (cy_pod ?s)\<lparr>pod_feedbackChan := b # fbs @ [?fb]\<rparr>, cy_callers := replicate 129 CDone\<rparr>"
  let ?s5 = "?s4\<lparr>cy_pod := (cy_pod ?s)\<lparr>pod_feedbackChan := fbs @ [?fb]\<rparr>, cy_status := st2, cy_failed := fl2\<rparr>"
  have len: "length fbs = 126" using \<open>length ?fbs = 128\<close> fbs by simp
  have cs: "cy_callers ?s = replicate 128 CDone @ [CFeedback ?fb]" using assms by (simp add: overrun_def quiet_calls_def)
  have s: "cy_busChan ?s = []" "\<not> cy_checking ?s" "cy_attached ?s" "cy_status ?s = fresh_status" "cy_failed ?s = []"
    "pod_feedbackChan (cy_pod ?s) = ?fbs" "cy_owners ?s = [OLock ty g]"
    by (simp_all add: overrun_def quiet_calls_def)
  have "call_step True ?s ?s1"
    using call_step.other_send [of True ?s "ms ! 0"] s(1) by (simp add: defaultBusChanSize_def)
  moreover have "?s1\<lparr>cy_busChan := [], cy_checking := cy_attached ?s1, cy_status := fresh_status\<rparr> = ?s2"
    by (simp add: overrun_def quiet_calls_def)
  then have "call_step True ?s1 ?s2" using call_step.bus_takes [of ?s1 "ms ! 0" "[]" True] s(2) by simp
  moreover have "call_step True ?s2 ?s3"
    using call_step.bus_reads [of ?s2 a "b # fbs" st1 fl1 True] s fbs one by simp
  moreover have "call_step True ?s3 ?s4"
  proof -
    have "feedback_write (cy_pod ?s3) ?fb = Some (cy_pod ?s4)"
      using len by (simp add: feedback_write_def defaultPodChanSize_def)
    moreover have "(cy_callers ?s3)[128 := CDone] = replicate 129 CDone"
      by (simp add: cs list_update_append replicate_append_same flip: replicate_Suc)
    ultimately show ?thesis using call_step.feedback [of 128 ?s3 ?fb "cy_pod ?s4" True] by (simp add: cs nth_append)
  qed
  moreover have "call_step True ?s4 ?s5"
    using call_step.bus_reads [of ?s4 b "fbs @ [?fb]" st2 fl2 True] two by simp
  moreover obtain p' where p': "set_function ty g (cy_pod ?s5) = Some p'"
    using set_function_room [of "cy_pod ?s5" ty g] len by auto
  then have "call_step True ?s5 (?s5\<lparr>cy_pod := p', cy_owners := [ODone]\<rparr>)"
    using call_step.owner_locked [of 0 ?s5 ty g p' True] s(7) by (simp add: read_locked_def)
  ultimately have run: "(call_step True)\<^sup>*\<^sup>* ?s (?s5\<lparr>cy_pod := p', cy_owners := [ODone]\<rparr>)"
    by (meson converse_rtranclp_into_rtranclp rtranclp.rtrancl_refl)
  have "set (cy_owners (?s5\<lparr>cy_pod := p', cy_owners := [ODone]\<rparr>)) \<subseteq> {ODone}" by simp
  with run show ?thesis by (rule exI [where x = "?s5\<lparr>cy_pod := p', cy_owners := [ODone]\<rparr>", OF conjI])
qed

text \<open>The pod is disconnected, and the bus takes the request and removes the connection.\<close>

lemma disconnect_removes:
  assumes "pod_feedbackChan p = []"
  shows "(call_step True)\<^sup>*\<^sup>* (quiet_calls p True cs) (quiet_calls (p\<lparr>pod_dead := True\<rparr>) False cs)"
proof -
  let ?s = "quiet_calls p True cs" and ?q = "p\<lparr>pod_dead := True, pod_feedbackChan := [FbDisconnect]\<rparr>"
  let ?m = "NewMsg '''' 0 '''' []"
  let ?st = "fresh_status\<lparr>WantsDisconnect := True\<rparr>"
  let ?s1 = "?s\<lparr>cy_pod := ?q\<rparr>"
  let ?s2 = "?s1\<lparr>cy_busChan := [?m]\<rparr>"
  let ?s3 = "?s1\<lparr>cy_checking := True\<rparr>"
  let ?s4 = "?s3\<lparr>cy_pod := p\<lparr>pod_dead := True\<rparr>, cy_status := ?st\<rparr>"
  have "call_step True ?s ?s1"
    by (rule call_step.owner_disconnect)
       (use assms in \<open>simp add: quiet_calls_def pod_Disconnect_def feedback_write_def defaultPodChanSize_def\<close>)
  moreover have "call_step True ?s1 ?s2"
    using call_step.other_send [of True ?s1 ?m] by (simp add: quiet_calls_def defaultBusChanSize_def)
  moreover have "call_step True ?s2 ?s3"
    using call_step.bus_takes [of ?s2 ?m "[]" True] by (simp add: quiet_calls_def)
  moreover have "p\<lparr>pod_dead := True, pod_feedbackChan := []\<rparr> = p\<lparr>pod_dead := True\<rparr>" using assms by (cases p) simp
  then have "call_step True ?s3 ?s4"
    using call_step.bus_reads [of ?s3 FbDisconnect "[]" ?st "[]" True] by (simp add: quiet_calls_def fresh_status_def)
  moreover have "call_step True ?s4 (quiet_calls (p\<lparr>pod_dead := True\<rparr>) False cs)"
    using call_step.bus_idle [of ?s4 True] assms by (simp add: quiet_calls_def fresh_status_def removes_def)
  ultimately show ?thesis by (meson converse_rtranclp_into_rtranclp rtranclp.rtrancl_refl)
qed

section \<open>Properties\<close>

text \<open>Property C17. A pod whose functions send, reply and succeed is free of deadlocks, as long as nobody
  disconnects it: from every state in which its connection is in the ring and has reported only successes and
  requests for a replay,
  with any number of functions running or waiting and any number of owners setting the function, it can come
  to one in which every function has returned, its feedback is written and every \<open>On\<close> is back.\<close>

theorem calm_pod_finishes:
  assumes "calm_func (pod_onFunc (cy_pod s))" and "\<forall>c \<in> set (cy_callers s). calm_caller c"
    and "\<forall>ty f. OLock ty f \<in> set (cy_owners s) \<longrightarrow> calm_func f" and "steady s"
  shows "\<exists>t. (call_step True)\<^sup>*\<^sup>* s t \<and> set (cy_callers t) \<subseteq> {CDone} \<and> set (cy_owners t) \<subseteq> {ODone}"
proof (rule calm_ends)
  have "calm_owner w" if "w \<in> set (cy_owners s)" for w using assms(3) that by (cases w) auto
  with assms(1,2,4) show "calm_sys s" by (simp add: calm_sys_def)
qed

text \<open>A pod that answers every message, as the one of the request and reply example, while its owner
  sets another function.\<close>

definition answering :: callback where
  "answering msg = CallReplyTo msg (NewMsg ''r'' 0 ''grav.default'' []) (\<lambda>r. Return None)"

definition busy_example :: call_sys where
  "busy_example =
     \<lparr>cy_pod = (newPod False)\<lparr>pod_onFunc := Some answering\<rparr>,
      cy_callers = [CWait (NewMsg ''a'' 0 ''grav.default'' []), CRun (NewMsg ''b'' 0 ''grav.default'' []) (answering (NewMsg ''b'' 0 ''grav.default'' []))],
      cy_owners = [OLock None (Some answering)], cy_busChan = [], cy_checking = False,
      cy_status = fresh_status, cy_failed = [], cy_attached = True\<rparr>"

theorem calm_pod_finishes_witness:
  "\<exists>t. (call_step True)\<^sup>*\<^sup>* busy_example t \<and> set (cy_callers t) \<subseteq> {CDone} \<and> set (cy_owners t) \<subseteq> {ODone}"
  by (rule calm_pod_finishes) (simp_all add: busy_example_def calm_func_def answering_def steady_def newPod_def)

text \<open>Property C19. A function that sets a function of its own pod blocks the pod for good: its \<open>Lock\<close>
  waits for the read lock that its goroutine holds. Whatever happens from then on, the goroutine stays
  there, and no message that arrives is ever handled and no \<open>On\<close> of an owner comes back, those that come later included.\<close>

theorem On_inside_blocks_pod:
  assumes "k < length (cy_callers s)" and "cy_callers s ! k = CRun m (CallOn ty f sc)"
  shows "\<exists>t. call_step others s t \<and>
    (\<forall>u. (call_step others)\<^sup>*\<^sup>* t u \<longrightarrow> cy_callers u ! k = CLock m ty f sc
       \<and> (\<forall>v. (call_step others)\<^sup>*\<^sup>* u v \<longrightarrow> waiting_stay u v))"
proof -
  let ?t = "s\<lparr>cy_pod := cy_pod s, cy_callers := (cy_callers s)[k := CLock m ty f sc], cy_busChan := cy_busChan s\<rparr>"
  have "call_step others s ?t" by (rule call_step.call [OF assms]) simp
  moreover have at: "k < length (cy_callers ?t)" "cy_callers ?t ! k = CLock m ty f sc" using assms by simp_all
  moreover have "cy_callers u ! k = CLock m ty f sc \<and> (\<forall>v. (call_step others)\<^sup>*\<^sup>* u v \<longrightarrow> waiting_stay u v)"
    if "(call_step others)\<^sup>*\<^sup>* ?t u" for u
    using locked_forever [OF that at] locked_forever by blast
  ultimately show ?thesis by blast
qed

text \<open>A pod that unsubscribes in its function with \<open>On(nil)\<close>, and a message that arrives afterwards.\<close>

definition unsubscribing :: call_sys where
  "unsubscribing =
     \<lparr>cy_pod = (newPod False)\<lparr>pod_onFunc := Some (\<lambda>_. CallOn None None (Return None))\<rparr>,
      cy_callers = [CRun (NewMsg ''a'' 0 ''grav.default'' []) (CallOn None None (Return None))], cy_owners = [], cy_busChan = [], cy_checking = False,
      cy_status = fresh_status, cy_failed = [], cy_attached = True\<rparr>"

theorem On_inside_blocks_pod_witness:
  "\<exists>t. call_step True unsubscribing t \<and>
    (\<forall>u. (call_step True)\<^sup>*\<^sup>* t u \<longrightarrow> cy_callers u ! 0 = CLock (NewMsg ''a'' 0 ''grav.default'' []) None None (Return None)
       \<and> (\<forall>v. (call_step True)\<^sup>*\<^sup>* u v \<longrightarrow> waiting_stay u v))"
  by (rule On_inside_blocks_pod) (simp_all add: unsubscribing_def)

text \<open>Property C18. The feedback channel is one entry too short for a full replay: when the bus has sent the
  128 buffered messages and the next one and has nothing else to do, the pod can come to a state in
  which the last goroutine holds the read lock and waits for room, and an owner's \<open>On\<close> waits
  for it. Unless another pod or an owner of this one sends, no \<open>On\<close> returns and no message is handled any more;
  one message from elsewhere is enough to let the \<open>On\<close> return.\<close>

theorem full_replay_blocks_On:
  assumes "pod_onFunc p = Some (\<lambda>m. Return (e m))" and "pod_filter p = newMessageFilter"
    and "pod_feedbackChan p = []" and "int (length ms) = defaultBufferSize + 1"
  shows "\<exists>s. (call_step False)\<^sup>*\<^sup>*
       \<lparr>cy_pod = p, cy_callers = map CWait ms, cy_owners = [], cy_busChan = [], cy_checking = False,
        cy_status = fresh_status, cy_failed = [], cy_attached = True\<rparr> s
    \<and> (\<forall>t. (call_step False)\<^sup>*\<^sup>* s t \<longrightarrow> hd (cy_owners t) = OLock ty g
         \<and> (\<forall>u. (call_step False)\<^sup>*\<^sup>* t u \<longrightarrow> waiting_stay t u))
    \<and> (\<exists>t. (call_step True)\<^sup>*\<^sup>* s t \<and> set (cy_owners t) \<subseteq> {ODone})"
proof -
  have len: "length ms = 129" using assms(4) by (simp add: defaultBufferSize_def)
  let ?s = "overrun p True ms e ty g"
  have "(call_step False)\<^sup>*\<^sup>* (quiet_calls p True (map CWait ms)) ?s"
    by (rule flood_overruns [OF assms(1-3)]) (simp add: len)
  moreover have "hd (cy_owners t) = OLock ty g \<and> (\<forall>u. (call_step False)\<^sup>*\<^sup>* t u \<longrightarrow> waiting_stay t u)"
    if "(call_step False)\<^sup>*\<^sup>* ?s t" for t
  proof -
    have "clogged False ty g ?s" by (rule overrun_clogged) (simp_all add: len)
    then have t: "clogged False ty g t" using clogged_forever [OF that] by blast
    then have "hd (cy_owners t) = OLock ty g" by (auto simp: clogged_def)
    with t clogged_forever show ?thesis by blast
  qed
  ultimately show ?thesis
    using overrun_freed [OF len] unfolding quiet_calls_def by blast
qed

theorem full_replay_blocks_On_witness:
  "\<exists>s. (call_step False)\<^sup>*\<^sup>*
       \<lparr>cy_pod = (newPod True)\<lparr>pod_onFunc := Some (\<lambda>m. Return None), pod_replayOnce := True\<rparr>,
        cy_callers = map CWait (replicate 129 (NewMsg ''a'' 0 ''grav.default'' [])), cy_owners = [], cy_busChan = [],
        cy_checking = False, cy_status = fresh_status, cy_failed = [], cy_attached = True\<rparr> s
    \<and> (\<forall>t. (call_step False)\<^sup>*\<^sup>* s t \<longrightarrow> hd (cy_owners t) = OLock None None)"
proof -
  let ?p = "(newPod True)\<lparr>pod_onFunc := Some (\<lambda>m. Return None), pod_replayOnce := True\<rparr>"
  let ?ms = "replicate 129 (NewMsg ''a'' 0 ''grav.default'' [])"
  have "pod_onFunc ?p = Some (\<lambda>m. Return ((\<lambda>_. None) m))" "pod_filter ?p = newMessageFilter" "pod_feedbackChan ?p = []"
      "int (length ?ms) = defaultBufferSize + 1"
    by (simp_all add: newPod_def defaultBufferSize_def)
  from full_replay_blocks_On [OF this, of None None] show ?thesis by blast
qed

text \<open>Property C21. A pod that is disconnected while more than 128 goroutines have a message for its function
  blocks for good: the bus takes the request, removes the connection and never reads its feedback again, so the 129th goroutine
  waits for room with the read lock held. Whatever anybody sends after that, no \<open>On\<close> returns and no
  goroutine that waits for the lock ever ends.\<close>

theorem disconnect_blocks_pod:
  assumes "pod_onFunc p = Some (\<lambda>m. Return (e m))" and "pod_filter p = newMessageFilter"
    and "pod_feedbackChan p = []" and "128 < length ms"
  shows "\<exists>s. (call_step True)\<^sup>*\<^sup>*
       \<lparr>cy_pod = p, cy_callers = map CWait ms, cy_owners = [], cy_busChan = [], cy_checking = False,
        cy_status = fresh_status, cy_failed = [], cy_attached = True\<rparr> s
    \<and> (\<forall>t. (call_step True)\<^sup>*\<^sup>* s t \<longrightarrow> hd (cy_owners t) = OLock ty g
         \<and> (\<forall>u. (call_step True)\<^sup>*\<^sup>* t u \<longrightarrow> waiting_stay t u))"
proof -
  let ?p = "p\<lparr>pod_dead := True\<rparr>"
  let ?s = "overrun ?p False ms e ty g"
  have "(call_step True)\<^sup>*\<^sup>* (quiet_calls ?p False (map CWait ms)) ?s"
    by (rule flood_overruns) (use assms in simp_all)
  with disconnect_removes [OF assms(3)] have run: "(call_step True)\<^sup>*\<^sup>* (quiet_calls p True (map CWait ms)) ?s"
    by (rule rtranclp_trans)
  have clog: "clogged True ty g ?s" by (rule overrun_clogged) (simp_all add: assms(4))
  have "hd (cy_owners t) = OLock ty g \<and> (\<forall>u. (call_step True)\<^sup>*\<^sup>* t u \<longrightarrow> waiting_stay t u)"
    if "(call_step True)\<^sup>*\<^sup>* ?s t" for t
  proof -
    have t: "clogged True ty g t" using clogged_forever [OF that clog] by blast
    then have "hd (cy_owners t) = OLock ty g" by (auto simp: clogged_def)
    with t clogged_forever show ?thesis by blast
  qed
  with run show ?thesis unfolding quiet_calls_def by blast
qed

theorem disconnect_blocks_pod_witness:
  "\<exists>s. (call_step True)\<^sup>*\<^sup>*
       \<lparr>cy_pod = (newPod False)\<lparr>pod_onFunc := Some (\<lambda>m. Return None)\<rparr>,
        cy_callers = map CWait (replicate 200 (NewMsg ''a'' 0 ''grav.default'' [])), cy_owners = [], cy_busChan = [],
        cy_checking = False, cy_status = fresh_status, cy_failed = [], cy_attached = True\<rparr> s
    \<and> (\<forall>t. (call_step True)\<^sup>*\<^sup>* s t \<longrightarrow> hd (cy_owners t) = OLock None None)"
proof -
  let ?p = "(newPod False)\<lparr>pod_onFunc := Some (\<lambda>m. Return None)\<rparr>"
  let ?ms = "replicate 200 (NewMsg ''a'' 0 ''grav.default'' [])"
  have "pod_onFunc ?p = Some (\<lambda>m. Return ((\<lambda>_. None) m))" "pod_filter ?p = newMessageFilter" "pod_feedbackChan ?p = []"
      "128 < length ?ms"
    by (simp_all add: newPod_def)
  from disconnect_blocks_pod [OF this, of None None] show ?thesis by blast
qed

end
