(* ===== verification/Async_Counter.thy ===== *)
theory Async_Counter
  imports Grav_Prelude
begin

text \<open>
  The counter of the tests, \<open>testutil/asynccoutner.go\<close>. \<open>Count\<close> starts a goroutine that sends on a
  buffered channel, \<open>Wait\<close> polls the channel. What the other goroutines do between two polls is a list of
  events, and the clock a reading per poll.
\<close>

section \<open>The counter\<close>

text \<open>
  \<open>ac_size\<close> is the capacity of the channel and \<open>ac_buffered\<close> what it holds; \<open>ac_started\<close> counts the goroutines of
  \<open>Count\<close> that are not yet at their send, \<open>ac_blocked\<close> those blocked in it.
\<close>

record asyncCounter =
  ac_size :: nat
  ac_buffered :: nat
  ac_started :: nat
  ac_blocked :: nat

definition NewAsyncCounter :: "int \<Rightarrow> panic + asyncCounter" where
  "NewAsyncCounter n =
     (if n < 0 then Inl MakechanSizeOutOfRange
      else Inr \<lparr>ac_size = nat n, ac_buffered = 0, ac_started = 0, ac_blocked = 0\<rparr>)"

definition AsyncCounter_Count :: "asyncCounter \<Rightarrow> asyncCounter" where
  "AsyncCounter_Count a = a\<lparr>ac_started := Suc (ac_started a)\<rparr>"

text \<open>A goroutine of \<open>Count\<close> comes to its send.\<close>

definition count_goroutine :: "asyncCounter \<Rightarrow> asyncCounter" where
  "count_goroutine a =
     (if ac_started a = 0 then a
      else if ac_buffered a < ac_size a
      then a\<lparr>ac_started := ac_started a - 1, ac_buffered := Suc (ac_buffered a)\<rparr>
      else a\<lparr>ac_started := ac_started a - 1, ac_blocked := Suc (ac_blocked a)\<rparr>)"

text \<open>The \<open>select\<close> of \<open>Wait\<close>: \<open>None\<close> is the default branch. A blocked sender moves up.\<close>

definition count_receive :: "asyncCounter \<Rightarrow> asyncCounter option" where
  "count_receive a =
     (if ac_blocked a > 0 then Some (a\<lparr>ac_blocked := ac_blocked a - 1\<rparr>)
      else if ac_buffered a > 0 then Some (a\<lparr>ac_buffered := ac_buffered a - 1\<rparr>)
      else None)"

datatype counter_event = EvCount | EvSend

fun count_event :: "counter_event \<Rightarrow> asyncCounter \<Rightarrow> asyncCounter" where
  "count_event EvCount a = AsyncCounter_Count a"
| "count_event EvSend a = count_goroutine a"

text \<open>
  The loop of \<open>Wait\<close>, one element of the list per turn: what happens before its poll, and the
  milliseconds it then reads. The result is \<open>None\<close> if the loop is still running after these turns.
\<close>

fun wait_turns :: "int64 \<Rightarrow> (counter_event list \<times> int64) list \<Rightarrow> asyncCounter \<Rightarrow> int64 \<Rightarrow> (int64 \<times> asyncCounter) option" where
  "wait_turns timeoutMs [] a count = None"
| "wait_turns timeoutMs ((events, elapsed) # rest) a count =
     (let a1 = fold count_event events a;
          (count', a2) = (case count_receive a1 of Some a' \<Rightarrow> (count + 1, a') | None \<Rightarrow> (count, a1))
      in if sint elapsed > sint timeoutMs then Some (count', a2) else wait_turns timeoutMs rest a2 count')"

definition AsyncCounter_Wait ::
  "(int64 \<Rightarrow> int64 \<Rightarrow> int64 \<Rightarrow> string) \<Rightarrow> asyncCounter \<Rightarrow> int64 \<Rightarrow> int64 \<Rightarrow> (counter_event list \<times> int64) list \<Rightarrow>
   (error option \<times> asyncCounter) option" where
  "AsyncCounter_Wait sprintf a expected timeoutSeconds turns =
     (case wait_turns (timeoutSeconds * 1000) turns a 0 of
        None \<Rightarrow> None
      | Some (count, a') \<Rightarrow>
          Some (if count \<noteq> expected then Some (ErrorText (sprintf count expected timeoutSeconds)) else None, a'))"

section \<open>What Wait reports\<close>

text \<open>All that has been counted and not received.\<close>

definition outstanding :: "asyncCounter \<Rightarrow> nat" where
  "outstanding a = ac_buffered a + ac_started a + ac_blocked a"

definition channel_ok :: "asyncCounter \<Rightarrow> bool" where
  "channel_ok a \<longleftrightarrow> ac_buffered a \<le> ac_size a \<and> (0 < ac_blocked a \<longrightarrow> ac_buffered a = ac_size a)"

lemma event_keeps:
  "channel_ok a \<Longrightarrow> channel_ok (count_event x a)
     \<and> outstanding (count_event x a) = outstanding a + (if x = EvCount then 1 else 0)"
  by (cases x) (auto simp: AsyncCounter_Count_def count_goroutine_def outstanding_def channel_ok_def)

lemma events_keep:
  "channel_ok a \<Longrightarrow> channel_ok (fold count_event xs a)
     \<and> outstanding (fold count_event xs a) = outstanding a + count_list xs EvCount"
  by (induction xs arbitrary: a) (auto simp: event_keeps)

lemma receive_keeps:
  "channel_ok a \<Longrightarrow> count_receive a = Some b \<Longrightarrow> channel_ok b \<and> Suc (outstanding b) = outstanding a"
  by (auto simp: count_receive_def channel_ok_def outstanding_def split: if_splits)

text \<open>One turn: it receives at most one, and nothing is lost or counted twice.\<close>

lemma turn_keeps:
  assumes "channel_ok a"
  obtains k b where "k \<le> 1" and "channel_ok b" and "k + outstanding b = outstanding a + count_list evs EvCount"
    and "(case count_receive (fold count_event evs a) of Some a' \<Rightarrow> (c + 1, a') | None \<Rightarrow> (c, fold count_event evs a))
           = (c + of_nat k, b)"
  using events_keep [OF assms, of evs] receive_keeps [of "fold count_event evs a"]
  by (cases "count_receive (fold count_event evs a)") (auto intro: that [of 0] that [of 1])

lemma wait_turns_running:
  "\<forall>x \<in> set turns. \<not> sint tms < sint (snd x) \<Longrightarrow> wait_turns tms turns a c = None"
  by (induction turns arbitrary: a c) (auto simp: Let_def split: option.splits prod.splits)

lemma wait_turns_ends:
  "\<forall>x \<in> set early. \<not> sint tms < sint (snd x) \<Longrightarrow> sint tms < sint (snd l) \<Longrightarrow> channel_ok a \<Longrightarrow>
   \<exists>k b. wait_turns tms (early @ l # later) a c = Some (c + of_nat k, b) \<and> k \<le> Suc (length early)
     \<and> k + outstanding b = outstanding a + count_list (concat (map fst (early @ [l]))) EvCount"
proof (induction early arbitrary: a c)
  case Nil
  obtain evs el where l: "l = (evs, el)" by (cases l)
  obtain k b where "k \<le> 1" "k + outstanding b = outstanding a + count_list evs EvCount"
    "(case count_receive (fold count_event evs a) of Some a' \<Rightarrow> (c + 1, a') | None \<Rightarrow> (c, fold count_event evs a))
       = (c + of_nat k, b)"
    using turn_keeps [OF Nil(3), of evs c] by blast
  with Nil(2) l show ?case by (intro exI [of _ k] exI [of _ b]) (simp add: Let_def)
next
  case (Cons x early)
  obtain evs el where x: "x = (evs, el)" by (cases x)
  obtain k b where k: "k \<le> 1" "channel_ok b" "k + outstanding b = outstanding a + count_list evs EvCount"
    "(case count_receive (fold count_event evs a) of Some a' \<Rightarrow> (c + 1, a') | None \<Rightarrow> (c, fold count_event evs a))
       = (c + of_nat k, b)"
    using turn_keeps [OF Cons.prems(3), of evs c] by blast
  obtain k' b' where k': "wait_turns tms (early @ l # later) b (c + of_nat k) = Some (c + of_nat k + of_nat k', b')"
    "k' \<le> Suc (length early)"
    "k' + outstanding b' = outstanding b + count_list (concat (map fst (early @ [l]))) EvCount"
    using Cons.IH [of b "c + of_nat k"] Cons.prems(1,2) k(2) by auto
  have "wait_turns tms ((x # early) @ l # later) a c = Some (c + of_nat (k + k'), b')"
    using Cons.prems(1) k(4) k'(1) x by (simp add: Let_def add.assoc)
  moreover have "k + k' \<le> Suc (length (x # early))" using k(1) k'(2) by simp
  ultimately show ?case
    using k(3) k'(3) x by (intro exI [of _ "k + k'"] exI [of _ b']) (simp add: count_list_append)
qed

text \<open>
  \<open>Wait\<close> does not return before the deadline, not even when the total has been reached. Then it returns nil exactly
  when the number it has received is the total; it receives at most one count per turn.
\<close>

theorem Wait_to_the_deadline:
  assumes "channel_ok a" and "\<forall>x \<in> set early. \<not> sint (secs * 1000) < sint (snd x)"
  shows "AsyncCounter_Wait sprintf a expected secs early = None"
    and "sint (secs * 1000) < sint (snd l) \<Longrightarrow>
      \<exists>k b. AsyncCounter_Wait sprintf a expected secs (early @ l # later)
          = Some (if of_nat k = expected then None else Some (ErrorText (sprintf (of_nat k) expected secs)), b)
        \<and> k \<le> Suc (length early)
        \<and> k + outstanding b = outstanding a + count_list (concat (map fst (early @ [l]))) EvCount"
proof -
  show "AsyncCounter_Wait sprintf a expected secs early = None"
    using wait_turns_running [OF assms(2)] by (simp add: AsyncCounter_Wait_def)
  assume "sint (secs * 1000) < sint (snd l)"
  from wait_turns_ends [OF assms(2) this assms(1), of later 0] show
    "\<exists>k b. AsyncCounter_Wait sprintf a expected secs (early @ l # later)
          = Some (if of_nat k = expected then None else Some (ErrorText (sprintf (of_nat k) expected secs)), b)
        \<and> k \<le> Suc (length early)
        \<and> k + outstanding b = outstanding a + count_list (concat (map fst (early @ [l]))) EvCount"
    by (auto simp: AsyncCounter_Wait_def)
qed

end
