(* ===== verification/Signaler.thy ===== *)
theory Signaler
  imports Grav_Prelude
begin

text \<open>
  The withdraw signaler of \<open>grav/withdraw/signaler.go\<close>: two channels of capacity one, of which
  only the number of waiting values matters, and two atomic flags. An operation that blocks on
  a full channel is \<open>None\<close>.
\<close>

section \<open>State and operations\<close>

record signaler =
  sg_withdrawChan :: nat
  sg_doneChan :: nat
  sg_selfWithdrawn :: bool
  sg_peerWithdrawn :: bool

definition NewSignaler :: signaler where
  "NewSignaler = \<lparr>sg_withdrawChan = 0, sg_doneChan = 0, sg_selfWithdrawn = False, sg_peerWithdrawn = False\<rparr>"

text \<open>\<open>Signal\<close> sets the flag and then sends; the channel it returns is \<open>sg_doneChan\<close>.\<close>

definition Signaler_Signal :: "signaler \<Rightarrow> signaler option" where
  "Signaler_Signal s =
     (let s1 = s\<lparr>sg_selfWithdrawn := True\<rparr>
      in if sg_withdrawChan s1 < 1 then Some (s1\<lparr>sg_withdrawChan := Suc (sg_withdrawChan s1)\<rparr>) else None)"

text \<open>Receiving from the channel that \<open>Listen\<close> returns.\<close>

definition Signaler_Listen :: "signaler \<Rightarrow> signaler option" where
  "Signaler_Listen s =
     (if 0 < sg_withdrawChan s then Some (s\<lparr>sg_withdrawChan := sg_withdrawChan s - 1\<rparr>) else None)"

definition Signaler_Done :: "signaler \<Rightarrow> signaler option" where
  "Signaler_Done s = (if sg_doneChan s < 1 then Some (s\<lparr>sg_doneChan := Suc (sg_doneChan s)\<rparr>) else None)"

definition Signaler_SelfWithdrawn :: "signaler \<Rightarrow> bool" where
  "Signaler_SelfWithdrawn s = sg_selfWithdrawn s"

definition Signaler_SetPeerWithdrawn :: "signaler \<Rightarrow> signaler" where
  "Signaler_SetPeerWithdrawn s = s\<lparr>sg_peerWithdrawn := True\<rparr>"

definition Signaler_PeerWithdrawn :: "signaler \<Rightarrow> bool" where
  "Signaler_PeerWithdrawn s = sg_peerWithdrawn s"

section \<open>The life of a signaler\<close>

text \<open>
  The hub signals and reads the done channel; the goroutine of the connection listens once and
  then reports done once; the reading goroutine may set the peer flag. \<open>sy_listener\<close> is the
  position of the goroutine of the connection: 0 before its receive, 1 before \<open>Done\<close>, 2 ended.
\<close>

record signal_sys =
  sy_sig :: signaler
  sy_listener :: nat
  sy_signals :: nat
  sy_dones :: nat

inductive signal_step :: "signal_sys \<Rightarrow> signal_sys \<Rightarrow> bool" where
  signal: "Signaler_Signal (sy_sig s) = Some g \<Longrightarrow>
     signal_step s (s\<lparr>sy_sig := g, sy_signals := Suc (sy_signals s)\<rparr>)"
| listen: "sy_listener s = 0 \<Longrightarrow> Signaler_Listen (sy_sig s) = Some g \<Longrightarrow>
     signal_step s (s\<lparr>sy_sig := g, sy_listener := 1\<rparr>)"
| done_: "sy_listener s = 1 \<Longrightarrow> Signaler_Done (sy_sig s) = Some g \<Longrightarrow>
     signal_step s (s\<lparr>sy_sig := g, sy_listener := 2\<rparr>)"
| read_done: "0 < sg_doneChan (sy_sig s) \<Longrightarrow>
     signal_step s (s\<lparr>sy_sig := (sy_sig s)\<lparr>sg_doneChan := sg_doneChan (sy_sig s) - 1\<rparr>, sy_dones := Suc (sy_dones s)\<rparr>)"
| peer: "signal_step s (s\<lparr>sy_sig := Signaler_SetPeerWithdrawn (sy_sig s)\<rparr>)"

inductive_cases signal_stepE: "signal_step s t"

definition signal_init :: "signal_sys \<Rightarrow> bool" where
  "signal_init s \<longleftrightarrow> s = \<lparr>sy_sig = NewSignaler, sy_listener = 0, sy_signals = 0, sy_dones = 0\<rparr>"

definition signal_inv :: "signal_sys \<Rightarrow> bool" where
  "signal_inv s \<longleftrightarrow>
     sy_signals s = sg_withdrawChan (sy_sig s) + (if sy_listener s = 0 then 0 else 1)
   \<and> sg_withdrawChan (sy_sig s) \<le> 1 \<and> sy_listener s \<le> 2
   \<and> sy_dones s + sg_doneChan (sy_sig s) = (if sy_listener s = 2 then 1 else 0)
   \<and> sg_selfWithdrawn (sy_sig s) = (0 < sy_signals s)"

lemma signal_inv_init: "signal_init s \<Longrightarrow> signal_inv s"
  by (simp add: signal_init_def signal_inv_def NewSignaler_def)

lemma signal_inv_step: "signal_inv s \<Longrightarrow> signal_step s t \<Longrightarrow> signal_inv t"
  by (erule signal_stepE)
     (auto simp: signal_inv_def Signaler_Signal_def Signaler_Listen_def Signaler_Done_def
        Signaler_SetPeerWithdrawn_def Let_def split: if_splits)

interpretation signalsys: invariant_system signal_init signal_step signal_inv
  by unfold_locales (fact signal_inv_init, fact signal_inv_step)

section \<open>Properties\<close>

text \<open>Property C40. A connection reports one withdraw as done, and only after a signal; the node
  counts as withdrawn from its first signal on. A second signal is never reported as done, and
  a third one blocks its caller for good, because no goroutine listens any more.\<close>

theorem withdraw_signalled_once:
  assumes "reach signal_init signal_step s"
  shows "sy_dones s \<le> 1 \<and> sy_dones s \<le> sy_signals s \<and> sy_signals s \<le> 2
    \<and> Signaler_SelfWithdrawn (sy_sig s) = (0 < sy_signals s)
    \<and> (sy_signals s = 2 \<longrightarrow> (\<forall>t. signal_step\<^sup>*\<^sup>* s t \<longrightarrow> sy_signals t = 2 \<and> Signaler_Signal (sy_sig t) = None))"
proof -
  have inv: "signal_inv s" by (rule signalsys.inv_reach [OF assms])
  have "sy_signals t = 2 \<and> Signaler_Signal (sy_sig t) = None"
    if two: "sy_signals s = 2" and st: "signal_step\<^sup>*\<^sup>* s t" for t
  proof -
    have mono: "sy_signals s \<le> sy_signals t"
      using st by (induction rule: rtranclp_induct) (auto elim!: signal_stepE)
    have "signal_inv t" by (rule signalsys.inv_steps [OF inv st])
    with mono two show ?thesis
      by (auto simp: signal_inv_def Signaler_Signal_def Let_def split: if_splits)
  qed
  with inv show ?thesis
    by (auto simp: signal_inv_def Signaler_SelfWithdrawn_def split: if_splits)
qed

theorem withdraw_signalled_once_witness:
  "\<exists>s. reach signal_init signal_step s \<and> sy_signals s = 2 \<and> Signaler_Signal (sy_sig s) = None"
proof -
  let ?s0 = "\<lparr>sy_sig = NewSignaler, sy_listener = 0, sy_signals = 0, sy_dones = 0\<rparr>"
  let ?s1 = "?s0\<lparr>sy_sig := NewSignaler\<lparr>sg_selfWithdrawn := True, sg_withdrawChan := 1\<rparr>, sy_signals := 1\<rparr>"
  let ?s2 = "?s1\<lparr>sy_sig := NewSignaler\<lparr>sg_selfWithdrawn := True\<rparr>, sy_listener := 1\<rparr>"
  let ?s3 = "?s2\<lparr>sy_sig := NewSignaler\<lparr>sg_selfWithdrawn := True, sg_withdrawChan := 1\<rparr>, sy_signals := Suc (Suc 0)\<rparr>"
  have "reach signal_init signal_step ?s0" by (rule reach_init) (simp add: signal_init_def)
  then have "reach signal_init signal_step ?s1"
    by (rule reach_step) (use signal_step.signal [of ?s0] in \<open>simp add: Signaler_Signal_def NewSignaler_def\<close>)
  then have "reach signal_init signal_step ?s2"
    by (rule reach_step) (use signal_step.listen [of ?s1] in \<open>simp add: Signaler_Listen_def NewSignaler_def\<close>)
  then have r: "reach signal_init signal_step ?s3"
    by (rule reach_step) (use signal_step.signal [of ?s2] in \<open>simp add: Signaler_Signal_def NewSignaler_def\<close>)
  have two: "sy_signals ?s3 = 2" by simp
  then have "Signaler_Signal (sy_sig ?s3) = None" using withdraw_signalled_once [OF r] by blast
  with r two show ?thesis by blast
qed

end
