(* ===== verification/Options.thy ===== *)
theory Options
  imports Grav_Prelude
begin

text \<open>
  The options of an instance, \<open>grav/options.go\<close>. A modifier is a function that updates the
  options; the plugins (mesh and bridge transport, discovery) are values of three type
  parameters, \<open>None\<close> for nil. The logger, a third-party package's, is left out.
\<close>

record ('m, 'b, 'd) options =
  opt_MeshTransport :: "'m option"
  opt_BridgeTransport :: "'b option"
  opt_Discovery :: "'d option"
  opt_Port :: string
  opt_URI :: string
  opt_BelongsTo :: string
  opt_Interests :: "string list"

type_synonym ('m, 'b, 'd) optionsModifier = "('m, 'b, 'd) options \<Rightarrow> ('m, 'b, 'd) options"

definition defaultOptions :: "('m, 'b, 'd) options" where
  "defaultOptions =
     \<lparr>opt_MeshTransport = None, opt_BridgeTransport = None, opt_Discovery = None,
      opt_Port = ''8080'', opt_URI = ''/meta/message'', opt_BelongsTo = ''*'', opt_Interests = []\<rparr>"

definition newOptionsWithModifiers :: "('m, 'b, 'd) optionsModifier list \<Rightarrow> ('m, 'b, 'd) options" where
  "newOptionsWithModifiers mods = foldl (\<lambda>opts m. m opts) defaultOptions mods"

definition UseMeshTransport :: "'m option \<Rightarrow> ('m, 'b, 'd) optionsModifier" where
  "UseMeshTransport mesh o' = o'\<lparr>opt_MeshTransport := mesh\<rparr>"

definition UseBridgeTransport :: "'b option \<Rightarrow> ('m, 'b, 'd) optionsModifier" where
  "UseBridgeTransport bridge o' = o'\<lparr>opt_BridgeTransport := bridge\<rparr>"

definition UseEndpoint :: "string \<Rightarrow> string \<Rightarrow> ('m, 'b, 'd) optionsModifier" where
  "UseEndpoint port uri o' =
     (let o1 = (if port \<noteq> '''' then o'\<lparr>opt_Port := port\<rparr> else o')
      in if uri \<noteq> '''' then o1\<lparr>opt_URI := uri\<rparr> else o1)"

definition UseDiscovery :: "'d option \<Rightarrow> ('m, 'b, 'd) optionsModifier" where
  "UseDiscovery discovery o' = o'\<lparr>opt_Discovery := discovery\<rparr>"

definition UseBelongsTo :: "string \<Rightarrow> ('m, 'b, 'd) optionsModifier" where
  "UseBelongsTo belongsTo o' = o'\<lparr>opt_BelongsTo := belongsTo\<rparr>"

definition UseInterests :: "string list \<Rightarrow> ('m, 'b, 'd) optionsModifier" where
  "UseInterests interests o' = o'\<lparr>opt_Interests := interests\<rparr>"

section \<open>Property\<close>

text \<open>The port that a list of \<open>UseEndpoint\<close> arguments leaves: the last one that is not empty.\<close>

definition last_set :: "string \<Rightarrow> string list \<Rightarrow> string" where
  "last_set dflt xs = (case filter (\<lambda>x. x \<noteq> '''') xs of [] \<Rightarrow> dflt | ys \<Rightarrow> last ys)"

lemma last_set_snoc: "last_set d (xs @ [x]) = (if x = '''' then last_set d xs else x)"
proof -
  have "last_set d ys = (if filter (\<lambda>x. x \<noteq> []) ys = [] then d else last (filter (\<lambda>x. x \<noteq> []) ys))" for ys
    by (cases "filter (\<lambda>x. x \<noteq> []) ys") (simp_all add: last_set_def)
  then show ?thesis by simp
qed

text \<open>Endpoint options accumulate: over any list of \<open>UseEndpoint\<close> modifiers, the port
  and the URI are each the last one given that is not empty, or the default, and nothing else
  changes.\<close>

theorem endpoints_accumulate:
  "newOptionsWithModifiers (map (\<lambda>(p, u). UseEndpoint p u) ends) =
     (defaultOptions :: ('m, 'b, 'd) options)\<lparr>opt_Port := last_set ''8080'' (map fst ends),
       opt_URI := last_set ''/meta/message'' (map snd ends)\<rparr>"
proof (induction ends rule: rev_induct)
  case Nil
  show ?case by (simp add: newOptionsWithModifiers_def defaultOptions_def last_set_def)
next
  case (snoc e ends)
  obtain p u where "e = (p, u)" by (cases e)
  with snoc show ?case
    by (simp add: newOptionsWithModifiers_def UseEndpoint_def Let_def last_set_snoc)
qed

end
