(* ===== verification/Plugin_Setup.thy ===== *)
theory Plugin_Setup
  imports Transport Options
begin

text \<open>
  The part of \<open>initHub\<close> in \<open>grav/hub.go\<close> that sets the plugins up: which of them are started, and
  with which options.
\<close>

definition initHub_meshOptions :: "uuid \<Rightarrow> ('m, 'b, 'd) options \<Rightarrow> meshOptions" where
  "initHub_meshOptions nodeUUID opts =
     \<lparr>mo_NodeUUID = nodeUUID, mo_Port = opt_Port opts, mo_URI = opt_URI opts\<rparr>"

definition initHub_discoveryOpts :: "uuid \<Rightarrow> ('m, 'b, 'd) options \<Rightarrow> discoveryOpts" where
  "initHub_discoveryOpts nodeUUID opts =
     (let transportOpts = initHub_meshOptions nodeUUID opts
      in \<lparr>do_NodeUUID = nodeUUID, do_TransportPort = mo_Port transportOpts, do_TransportURI = mo_URI transportOpts\<rparr>)"

definition initHub_bridgeOptions :: "uuid \<Rightarrow> bridgeOptions" where
  "initHub_bridgeOptions nodeUUID = \<lparr>bo_NodeUUID = nodeUUID\<rparr>"

text \<open>The goroutines that \<open>initHub\<close> starts, each with the plugin and the options it is called with.\<close>

datatype ('m, 'b, 'd) plugin_start =
    SetupMesh 'm meshOptions
  | StartDiscovery 'd discoveryOpts
  | SetupBridge 'b bridgeOptions

definition initHub_plugins :: "uuid \<Rightarrow> ('m, 'b, 'd) options \<Rightarrow> ('m, 'b, 'd) plugin_start list" where
  "initHub_plugins nodeUUID opts =
     (case opt_MeshTransport opts of
        None \<Rightarrow> []
      | Some mesh \<Rightarrow>
          SetupMesh mesh (initHub_meshOptions nodeUUID opts)
          # (case opt_Discovery opts of
               None \<Rightarrow> []
             | Some discovery \<Rightarrow> [StartDiscovery discovery (initHub_discoveryOpts nodeUUID opts)]))
     @ (case opt_BridgeTransport opts of
          None \<Rightarrow> []
        | Some bridge \<Rightarrow> [SetupBridge bridge (initHub_bridgeOptions nodeUUID)])"

text \<open>Discovery is never started without a mesh transport to dial with.\<close>

lemma discovery_needs_mesh:
  "StartDiscovery d o' \<in> set (initHub_plugins nodeUUID opts) \<longleftrightarrow>
     opt_MeshTransport opts \<noteq> None \<and> opt_Discovery opts = Some d \<and> o' = initHub_discoveryOpts nodeUUID opts"
  by (auto simp: initHub_plugins_def split: option.splits dest: sym)

end
