(* ===== verification/Connection_Handler.thy ===== *)
theory Connection_Handler
  imports Signaler Transport Pod
begin

text \<open>
  The handler of one mesh connection, \<open>grav/connectionhandler.go\<close>. \<open>ErrChan\<close> is unbuffered: a
  goroutine that sends an error on it blocks until the hub's scanner receives the error.
  \<open>ch_ErrChan\<close> lists the errors of the goroutines that are blocked there.
\<close>

section \<open>State and operations\<close>

record 'c connectionHandler =
  ch_UUID :: uuid
  ch_Conn :: "'c option"
  ch_Signaler :: signaler
  ch_ErrChan :: "error list"
  ch_BelongsTo :: string
  ch_Interests :: "string list"

text \<open>
  How \<open>Send\<close> ends: with nil, with an error at once, or blocked on \<open>ErrChan\<close>, to return an error
  once the scanner has received.
\<close>

datatype send_result = SendOk | SendErr error | SendBlocks error

definition connectionHandler_Send ::
  "('c, 'w) connection \<Rightarrow> 'c connectionHandler \<Rightarrow> message \<Rightarrow> 'w \<Rightarrow>
   panic + (send_result \<times> 'c connectionHandler \<times> 'w)" where
  "connectionHandler_Send ops c msg w =
     (if Signaler_PeerWithdrawn (ch_Signaler c) then Inr (SendErr ErrNodeWithdrawn, c, w)
      else (case go_deref (ch_Conn c) of
              Inl e \<Rightarrow> Inl e
            | Inr conn \<Rightarrow>
                (case co_SendMsg ops conn msg w of
                   (None, w') \<Rightarrow> Inr (SendOk, c, w')
                 | (Some err, w') \<Rightarrow>
                     Inr (SendBlocks (Wrapped err ''failed to SendMsg''), c\<lparr>ch_ErrChan := ch_ErrChan c @ [err]\<rparr>, w'))))"

definition connectionHandler_Close ::
  "('c, 'w) connection \<Rightarrow> 'c connectionHandler \<Rightarrow> 'w \<Rightarrow> panic + (error option \<times> 'w)" where
  "connectionHandler_Close ops c w =
     (case go_deref (ch_Conn c) of
        Inl e \<Rightarrow> Inl e
      | Inr conn \<Rightarrow>
          (case co_Close ops conn w of
             (None, w') \<Rightarrow> Inr (None, w')
           | (Some err, w') \<Rightarrow> Inr (Some (Wrapped err ''[grav] failed to Conn.Close''), w')))"

text \<open>
  The first goroutine of \<open>Start\<close>, after its receive from the withdraw channel: up to its end, or
  up to the blocked send on \<open>ErrChan\<close>, in which case \<open>Done\<close> follows when the scanner has
  received. The first result tells whether it has reached \<open>Done\<close>.
\<close>

definition withdraw_goroutine ::
  "('c, 'w) connection \<Rightarrow> 'c connectionHandler \<Rightarrow> 'w \<Rightarrow> (bool \<times> 'c connectionHandler \<times> 'w) run" where
  "withdraw_goroutine ops c w =
     (case go_deref (ch_Conn c) of
        Inl e \<Rightarrow> Some (Inl e)
      | Inr conn \<Rightarrow>
          (case co_SendWithdraw ops conn \<lparr>wd_Ack = False\<rparr> w of
             (Some err, w') \<Rightarrow> Some (Inr (False, c\<lparr>ch_ErrChan := ch_ErrChan c @ [err]\<rparr>, w'))
           | (None, w') \<Rightarrow>
               (case Signaler_Done (ch_Signaler c) of
                  None \<Rightarrow> None
                | Some g \<Rightarrow> Some (Inr (True, c\<lparr>ch_Signaler := g\<rparr>, w')))))"

text \<open>
  One turn of the loop of the second goroutine of \<open>Start\<close>. The first result tells whether the
  loop goes on; a failed read leaves the goroutine blocked on \<open>ErrChan\<close> or ended.
\<close>

definition read_turn ::
  "('c, 'w) connection \<Rightarrow> 'c connectionHandler \<Rightarrow> pod \<Rightarrow> message list \<Rightarrow> 'w \<Rightarrow>
   (bool \<times> 'c connectionHandler \<times> pod \<times> message list \<times> 'w) run" where
  "read_turn ops c pod busChan w =
     (case go_deref (ch_Conn c) of
        Inl e \<Rightarrow> Some (Inl e)
      | Inr conn \<Rightarrow>
          (case co_ReadMsg ops conn w of
             ((_, _, Some err), w') \<Rightarrow>
               (if \<not> (Signaler_SelfWithdrawn (ch_Signaler c) \<or> Signaler_PeerWithdrawn (ch_Signaler c))
                then Some (Inr (False, c\<lparr>ch_ErrChan := ch_ErrChan c @ [err]\<rparr>, pod, busChan, w'))
                else Some (Inr (False, c, pod, busChan, w')))
           | ((_, Some _, None), w') \<Rightarrow>
               Some (Inr (False, c\<lparr>ch_Signaler := Signaler_SetPeerWithdrawn (ch_Signaler c)\<rparr>, pod, busChan, w'))
           | ((msg, None, None), w') \<Rightarrow>
               (case go_deref msg of
                  Inl e \<Rightarrow> Some (Inl e)
                | Inr _ \<Rightarrow>
                    (case pod_Send pod busChan msg of
                       None \<Rightarrow> None
                     | Some (Inl e) \<Rightarrow> Some (Inl e)
                     | Some (Inr (_, pod', busChan')) \<Rightarrow> Some (Inr (True, c, pod', busChan', w'))))))"

text \<open>The loop, for \<open>n\<close> turns at most.\<close>

fun read_loop ::
  "nat \<Rightarrow> ('c, 'w) connection \<Rightarrow> 'c connectionHandler \<Rightarrow> pod \<Rightarrow> message list \<Rightarrow> 'w \<Rightarrow>
   (bool \<times> 'c connectionHandler \<times> pod \<times> message list \<times> 'w) run" where
  "read_loop 0 ops c pod busChan w = Some (Inr (True, c, pod, busChan, w))"
| "read_loop (Suc n) ops c pod busChan w =
     (case read_turn ops c pod busChan w of
        None \<Rightarrow> None
      | Some (Inl e) \<Rightarrow> Some (Inl e)
      | Some (Inr (True, c', pod', busChan', w')) \<Rightarrow> read_loop n ops c' pod' busChan' w'
      | Some (Inr (False, r)) \<Rightarrow> Some (Inr (False, r)))"

section \<open>A connection that reads from a list\<close>

text \<open>
  What a connection delivers, in order, from a peer: messages, then a withdraw or an error. The
  world of the connection is the list still to come.
\<close>

datatype incoming = InMsg message | InWithdraw | InErr error

definition read_list :: "'c \<Rightarrow> incoming list \<Rightarrow> (msg_ref \<times> withdraw option \<times> error option) \<times> incoming list" where
  "read_list c xs =
     (case xs of
        [] \<Rightarrow> ((None, None, Some ErrConnectionClosed), [])
      | InMsg m # r \<Rightarrow> ((Some m, None, None), r)
      | InWithdraw # r \<Rightarrow> ((None, Some \<lparr>wd_Ack = False\<rparr>, None), r)
      | InErr e # r \<Rightarrow> ((None, None, Some e), r))"

section \<open>Properties\<close>

text \<open>A connection whose reads deliver the list, whatever else it does.\<close>

definition reads_list :: "('c, incoming list) connection \<Rightarrow> bool" where
  "reads_list ops \<longleftrightarrow> co_ReadMsg ops = read_list"

text \<open>What a connection returns for an item, and a connection whose next reads return given items.\<close>

definition incoming_result :: "incoming \<Rightarrow> msg_ref \<times> withdraw option \<times> error option" where
  "incoming_result x =
     (case x of
        InMsg m \<Rightarrow> (Some m, None, None)
      | InWithdraw \<Rightarrow> (None, Some \<lparr>wd_Ack = False\<rparr>, None)
      | InErr e \<Rightarrow> (None, None, Some e))"

fun delivers :: "('c, 'w) connection \<Rightarrow> 'c \<Rightarrow> incoming list \<Rightarrow> 'w \<Rightarrow> 'w \<Rightarrow> bool" where
  "delivers ops conn [] w w' \<longleftrightarrow> w' = w"
| "delivers ops conn (x # xs) w w' \<longleftrightarrow>
     (\<exists>w1. co_ReadMsg ops conn w = (incoming_result x, w1) \<and> delivers ops conn xs w1 w')"

lemma delivers_append:
  "delivers ops conn (xs @ ys) w w' \<longleftrightarrow> (\<exists>w1. delivers ops conn xs w w1 \<and> delivers ops conn ys w1 w')"
  by (induction xs arbitrary: w) auto

lemma reads_list_delivers: "reads_list ops \<Longrightarrow> delivers ops conn xs (xs @ w) w"
  by (induction xs) (auto simp: reads_list_def read_list_def incoming_result_def split: incoming.splits)

lemma read_loop_messages:
  assumes "delivers ops conn (map InMsg msgs) w w'" and "ch_Conn c = Some conn" and "\<not> pod_dead pod"
    and "length busChan + length msgs < defaultBusChanSize"
  shows "\<exists>pod'. read_loop (length msgs + n) ops c pod busChan w =
      read_loop n ops c pod' (busChan @ msgs) w'
    \<and> \<not> pod_dead pod' \<and> pod_onFunc pod' = pod_onFunc pod
    \<and> (\<forall>m \<in> set msgs. UUIDMap (pod_filter pod') (msg_UUID m) = Some False)
    \<and> (\<forall>u. UUIDMap (pod_filter pod) u = Some False \<longrightarrow> UUIDMap (pod_filter pod') u = Some False)"
  using assms(1,3,4)
proof (induction msgs arbitrary: pod busChan w)
  case Nil
  then show ?case by (intro exI [of _ pod]) simp
next
  case (Cons m ms)
  let ?p = "pod\<lparr>pod_filter := FilterUUID (pod_filter pod) (msg_UUID m) False\<rparr>"
  obtain w1 where w1: "co_ReadMsg ops conn w = ((Some m, None, None), w1)"
      "delivers ops conn (map InMsg ms) w1 w'"
    using Cons.prems(1) by (auto simp: incoming_result_def)
  have send: "pod_Send pod busChan (Some m) = Some (Inr (Some \<lparr>rc_UUID = msg_UUID m\<rparr>, ?p, busChan @ [m]))"
    using Cons.prems by (simp add: pod_Send_def)
  have "read_turn ops c pod busChan w = Some (Inr (True, c, ?p, busChan @ [m], w1))"
    using assms(2) send w1(1) by (simp add: read_turn_def)
  moreover obtain pod' where "read_loop (length ms + n) ops c ?p (busChan @ [m]) w1 =
      read_loop n ops c pod' ((busChan @ [m]) @ ms) w'"
    "\<not> pod_dead pod'" "pod_onFunc pod' = pod_onFunc ?p"
    "\<forall>x \<in> set ms. UUIDMap (pod_filter pod') (msg_UUID x) = Some False"
    "\<forall>u. UUIDMap (pod_filter ?p) u = Some False \<longrightarrow> UUIDMap (pod_filter pod') u = Some False"
    using Cons.IH [of w1 ?p "busChan @ [m]"] Cons.prems w1(2) by auto
  ultimately show ?case by (intro exI [of _ pod']) (auto simp: FilterUUID_def)
qed

text \<open>The whole run of the reading goroutine on a connection that delivers messages and then ends.\<close>

definition reader_end :: "'c connectionHandler \<Rightarrow> incoming \<Rightarrow> 'c connectionHandler" where
  "reader_end c ending =
     (case ending of
        InErr e \<Rightarrow>
          (if Signaler_SelfWithdrawn (ch_Signaler c) \<or> Signaler_PeerWithdrawn (ch_Signaler c) then c
           else c\<lparr>ch_ErrChan := ch_ErrChan c @ [e]\<rparr>)
      | _ \<Rightarrow> c\<lparr>ch_Signaler := Signaler_SetPeerWithdrawn (ch_Signaler c)\<rparr>)"

lemma read_loop_run:
  assumes "delivers ops conn (map InMsg msgs @ [ending]) w w'" and "ch_Conn c = Some conn" and "\<not> pod_dead pod"
    and "length busChan + length msgs < defaultBusChanSize" and "ending = InWithdraw \<or> ending = InErr e"
  shows "\<exists>pod'. read_loop (Suc (length msgs)) ops c pod busChan w =
      Some (Inr (False, reader_end c ending, pod', busChan @ msgs, w'))
    \<and> (\<forall>m \<in> set msgs. pod_handle pod' (Some m) = Some (Inr pod'))"
proof -
  obtain w1 where w1: "delivers ops conn (map InMsg msgs) w w1" "co_ReadMsg ops conn w1 = (incoming_result ending, w')"
    using assms(1) by (auto simp: delivers_append)
  obtain pod' where run: "read_loop (length msgs + 1) ops c pod busChan w =
      read_loop 1 ops c pod' (busChan @ msgs) w1"
    and flt: "\<forall>m \<in> set msgs. UUIDMap (pod_filter pod') (msg_UUID m) = Some False"
    using read_loop_messages [OF w1(1) assms(2-4), of 1] by blast
  have "\<forall>m \<in> set msgs. pod_handle pod' (Some m) = Some (Inr pod')"
    using flt by (auto simp: pod_handle_def handler_enter_def allow_iff decided_def split: option.splits)
  moreover have "read_turn ops c pod' (busChan @ msgs) w1 =
      Some (Inr (False, reader_end c ending, pod', busChan @ msgs, w'))"
    using assms(2,5) w1(2) by (auto simp: read_turn_def incoming_result_def reader_end_def)
  ultimately show ?thesis using run by auto
qed

text \<open>The reading goroutine puts every message of the peer on the bus, in order, until
  the connection ends; the hub's pod does not hand any of them back to the hub. A withdraw marks
  the peer and ends the goroutine without an error; a failed read is reported to the scanner
  exactly when neither side has withdrawn.\<close>

theorem reader_forwards_until_end:
  assumes "reads_list ops" and "ch_Conn c = Some conn" and "\<not> pod_dead pod"
    and "length busChan + length msgs < defaultBusChanSize" and "ending = InWithdraw \<or> ending = InErr e"
  shows "\<exists>pod' c'. read_loop (Suc (length msgs)) ops c pod busChan (map InMsg msgs @ ending # rest) =
      Some (Inr (False, c', pod', busChan @ msgs, rest))
    \<and> (\<forall>m \<in> set msgs. pod_handle pod' (Some m) = Some (Inr pod'))
    \<and> c' = (if ending = InWithdraw then c\<lparr>ch_Signaler := Signaler_SetPeerWithdrawn (ch_Signaler c)\<rparr>
            else if Signaler_SelfWithdrawn (ch_Signaler c) \<or> Signaler_PeerWithdrawn (ch_Signaler c) then c
            else c\<lparr>ch_ErrChan := ch_ErrChan c @ [e]\<rparr>)"
proof -
  have "delivers ops conn (map InMsg msgs @ [ending]) ((map InMsg msgs @ [ending]) @ rest) rest"
    using assms(1) by (rule reads_list_delivers)
  from read_loop_run [OF this assms(2-5)] show ?thesis
    using assms(5) by (auto simp: reader_end_def)
qed

theorem reader_forwards_until_end_witness:
  "\<exists>ops :: (nat, incoming list) connection. \<exists>pod' c'.
     read_loop 2 ops \<lparr>ch_UUID = ''n'', ch_Conn = Some 0, ch_Signaler = NewSignaler, ch_ErrChan = [],
        ch_BelongsTo = ''*'', ch_Interests = []\<rparr> (newPod False) []
       [InMsg (NewMsg ''u'' 0 ''t'' []), InErr ErrConnectionClosed] =
     Some (Inr (False, c', pod', [NewMsg ''u'' 0 ''t'' []], [])) \<and> ch_ErrChan c' = [ErrConnectionClosed]"
proof -
  let ?c = "\<lparr>ch_UUID = ''n'', ch_Conn = Some (0 :: nat), ch_Signaler = NewSignaler, ch_ErrChan = [],
        ch_BelongsTo = ''*'', ch_Interests = []\<rparr>"
  obtain ops :: "(nat, incoming list) connection" where ops: "reads_list ops"
    by (rule that [of "\<lparr>co_SendMsg = (\<lambda>_ _ w. (None, w)), co_ReadMsg = read_list,
          co_OutgoingHandshake = (\<lambda>_ _ w. ((None, None), w)), co_IncomingHandshake = (\<lambda>_ _ w. ((None, None), w)),
          co_SendWithdraw = (\<lambda>_ _ w. (None, w)), co_Close = (\<lambda>_ w. (None, w))\<rparr>"]) (simp add: reads_list_def)
  let ?ms = "[NewMsg ''u'' 0 ''t'' []]"
  have "ch_Conn ?c = Some 0" "\<not> pod_dead (newPod False)" "length [] + length ?ms < defaultBusChanSize"
    by (simp_all add: newPod_def defaultBusChanSize_def)
  from reader_forwards_until_end [OF ops this disjI2 [OF refl], of ErrConnectionClosed "[]"]
  obtain pod' c' where
    run: "read_loop (Suc (length ?ms)) ops ?c (newPod False) [] (map InMsg ?ms @ [InErr ErrConnectionClosed]) =
      Some (Inr (False, c', pod', [] @ ?ms, []))"
    and c': "c' = (if InErr ErrConnectionClosed = InWithdraw
              then ?c\<lparr>ch_Signaler := Signaler_SetPeerWithdrawn (ch_Signaler ?c)\<rparr>
            else if Signaler_SelfWithdrawn (ch_Signaler ?c) \<or> Signaler_PeerWithdrawn (ch_Signaler ?c) then ?c
            else ?c\<lparr>ch_ErrChan := ch_ErrChan ?c @ [ErrConnectionClosed]\<rparr>)"
    by (elim exE conjE) (rule that)
  have "ch_ErrChan c' = [ErrConnectionClosed]"
    unfolding c' by (simp add: Signaler_SelfWithdrawn_def Signaler_PeerWithdrawn_def NewSignaler_def)
  with run show ?thesis
    by (intro exI [of _ ops] exI [of _ pod'] exI [of _ c']) (simp add: numeral_2_eq_2 del: read_loop.simps)
qed

end
