(* ===== verification/Hub.thy ===== *)
theory Hub
  imports Connection_Handler Tunnel_Balancer
begin

text \<open>
  The hub of \<open>grav/hub.go\<close>: the mesh connections by the UUID of their peer, a balancer per
  capability, and the bridge connections. Operations that hold the hub's lock are one state
  transformation. The network is the world \<open>'w\<close> of the transport's functions. Go iterates over a
  map in any order; an operation that does takes the order as a list of keys.
\<close>

section \<open>State\<close>

definition tunnelRetryCount :: nat where
  "tunnelRetryCount = 32"

record ('c, 'b) hub =
  hub_nodeUUID :: uuid
  hub_belongsTo :: string
  hub_interests :: "string list"
  hub_meshConnections :: "uuid \<rightharpoonup> 'c connectionHandler"
  hub_bridgeConnections :: "string \<rightharpoonup> 'b"
  hub_capabilityBalancers :: "string \<rightharpoonup> balancer"

definition new_hub :: "uuid \<Rightarrow> string \<Rightarrow> string list \<Rightarrow> ('c, 'b) hub" where
  "new_hub nodeUUID belongsTo interests =
     \<lparr>hub_nodeUUID = nodeUUID, hub_belongsTo = belongsTo, hub_interests = interests,
      hub_meshConnections = Map.empty, hub_bridgeConnections = Map.empty,
      hub_capabilityBalancers = Map.empty\<rparr>"

section \<open>Setting up connections\<close>

definition hub_findConnection :: "('c, 'b) hub \<Rightarrow> uuid \<Rightarrow> 'c option" where
  "hub_findConnection h uuid =
     (case hub_meshConnections h uuid of
        None \<Rightarrow> None
      | Some handler \<Rightarrow> ch_Conn handler)"

text \<open>The body of the loop over the interests in \<open>addConnection\<close>.\<close>

definition add_capability :: "uuid \<Rightarrow> ('c, 'b) hub \<Rightarrow> string \<Rightarrow> ('c, 'b) hub" where
  "add_capability uuid h c =
     (let h1 = (if hub_capabilityBalancers h c = None
                then h\<lparr>hub_capabilityBalancers := (hub_capabilityBalancers h)(c \<mapsto> NewBalancer)\<rparr> else h);
          b = the (hub_capabilityBalancers h1 c)
      in h1\<lparr>hub_capabilityBalancers := (hub_capabilityBalancers h1)(c \<mapsto> Balancer_Add b uuid)\<rparr>)"

definition hub_addConnection :: "('c, 'b) hub \<Rightarrow> 'c \<Rightarrow> uuid \<Rightarrow> string \<Rightarrow> string list \<Rightarrow> ('c, 'b) hub" where
  "hub_addConnection h connection uuid belongsTo interests =
     (let handler = \<lparr>ch_UUID = uuid, ch_Conn = Some connection, ch_Signaler = NewSignaler, ch_ErrChan = [],
                     ch_BelongsTo = belongsTo, ch_Interests = interests\<rparr>
      in foldl (add_capability uuid)
           (h\<lparr>hub_meshConnections := (hub_meshConnections h)(uuid \<mapsto> handler)\<rparr>) interests)"

definition hub_setupNewConnection ::
  "('c, 'w) connection \<Rightarrow> ('c, 'b) hub \<Rightarrow> 'c \<Rightarrow> uuid \<Rightarrow> string \<Rightarrow> string list \<Rightarrow> 'w \<Rightarrow> ('c, 'b) hub \<times> 'w" where
  "hub_setupNewConnection ops h connection uuid belongsTo interests w =
     (if hub_findConnection h uuid \<noteq> None then (h, snd (co_Close ops connection w))
      else (hub_addConnection h connection uuid belongsTo interests, w))"

definition hub_setupOutgoingConnection ::
  "('c, 'w) connection \<Rightarrow> ('c, 'b) hub \<Rightarrow> 'c \<Rightarrow> uuid \<Rightarrow> 'w \<Rightarrow> panic + (('c, 'b) hub \<times> 'w)" where
  "hub_setupOutgoingConnection ops h connection uuid w =
     (let handshake = \<lparr>hs_UUID = hub_nodeUUID h, hs_BelongsTo = hub_belongsTo h, hs_Interests = hub_interests h\<rparr>
      in case co_OutgoingHandshake ops connection handshake w of
           ((_, Some err), w1) \<Rightarrow> Inr (h, snd (co_Close ops connection w1))
         | ((ackp, None), w1) \<Rightarrow>
             (case go_deref ackp of
                Inl e \<Rightarrow> Inl e
              | Inr ack \<Rightarrow>
                  (if \<not> ack_Accept ack then Inr (h, snd (co_Close ops connection w1))
                   else if uuid = '''' then
                     (if ack_UUID ack = '''' then Inr (h, snd (co_Close ops connection w1))
                      else Inr (hub_setupNewConnection ops h connection (ack_UUID ack)
                                  (ack_BelongsTo ack) (ack_Interests ack) w1))
                   else if ack_UUID ack \<noteq> uuid then Inr (h, snd (co_Close ops connection w1))
                   else Inr (hub_setupNewConnection ops h connection uuid
                               (ack_BelongsTo ack) (ack_Interests ack) w1))))"

text \<open>The callback that decides about an incoming handshake.\<close>

definition handshake_callback :: "('c, 'b) hub \<Rightarrow> transportHandshake \<Rightarrow> transportHandshakeAck" where
  "handshake_callback h incomingHandshake =
     (if hs_BelongsTo incomingHandshake \<noteq> hub_belongsTo h \<and> hs_BelongsTo incomingHandshake \<noteq> ''*''
      then \<lparr>ack_Accept = False, ack_UUID = hub_nodeUUID h, ack_BelongsTo = '''', ack_Interests = []\<rparr>
      else \<lparr>ack_Accept = True, ack_UUID = hub_nodeUUID h, ack_BelongsTo = hub_belongsTo h,
            ack_Interests = hub_interests h\<rparr>)"

definition hub_handleIncomingConnection ::
  "('c, 'w) connection \<Rightarrow> ('c, 'b) hub \<Rightarrow> 'c \<Rightarrow> 'w \<Rightarrow> ('c, 'b) hub \<times> 'w" where
  "hub_handleIncomingConnection ops h connection w =
     (case co_IncomingHandshake ops connection (handshake_callback h) w of
        ((_, Some err), w1) \<Rightarrow> (h, snd (co_Close ops connection w1))
      | ((None, None), w1) \<Rightarrow> (h, snd (co_Close ops connection w1))
      | ((Some handshake, None), w1) \<Rightarrow>
          (if hs_UUID handshake = '''' then (h, snd (co_Close ops connection w1))
           else if \<not> ack_Accept (handshake_callback h handshake) then (h, snd (co_Close ops connection w1))
           else hub_setupNewConnection ops h connection (hs_UUID handshake)
                  (hs_BelongsTo handshake) (hs_Interests handshake) w1))"

text \<open>The receive function of \<open>incomingMessageHandler\<close>, which nothing in the repository calls: the readers of the
  handlers send to the hub's pod themselves.\<close>

definition hub_incomingMessageHandler ::
  "pod \<Rightarrow> message list \<Rightarrow> msg_ref \<Rightarrow> (pod \<times> message list) run" where
  "hub_incomingMessageHandler hubPod busChan msg =
     (case go_deref msg of
        Inl e \<Rightarrow> Some (Inl e)
      | Inr _ \<Rightarrow>
          (case pod_Send hubPod busChan msg of
             None \<Rightarrow> None
           | Some (Inl e) \<Rightarrow> Some (Inl e)
           | Some (Inr (_, pod', busChan')) \<Rightarrow> Some (Inr (pod', busChan'))))"

definition hub_connectEndpoint ::
  "('c, 'w) connection \<Rightarrow> ('c, 'w) meshTransport option \<Rightarrow> ('c, 'b) hub \<Rightarrow> string \<Rightarrow> uuid \<Rightarrow> 'w \<Rightarrow>
   panic + (error option \<times> ('c, 'b) hub \<times> 'w)" where
  "hub_connectEndpoint ops mesh h endpoint uuid w =
     (case mesh of
        None \<Rightarrow> Inr (Some ErrTransportNotConfigured, h, w)
      | Some m \<Rightarrow>
          (case mt_Connect m endpoint w of
             (Inl err, w1) \<Rightarrow> Inr (Some (Wrapped err ''[grav] failed to transport.CreateConnection''), h, w1)
           | (Inr conn, w1) \<Rightarrow>
               (case hub_setupOutgoingConnection ops h conn uuid w1 of
                  Inl e \<Rightarrow> Inl e
                | Inr (h', w2) \<Rightarrow> Inr (None, h', w2))))"

definition hub_discoveryHandler ::
  "('c, 'w) connection \<Rightarrow> ('c, 'w) meshTransport option \<Rightarrow> ('c, 'b) hub \<Rightarrow> string \<Rightarrow> uuid \<Rightarrow> 'w \<Rightarrow>
   panic + (('c, 'b) hub \<times> 'w)" where
  "hub_discoveryHandler ops mesh h endpoint uuid w =
     (if uuid = hub_nodeUUID h then Inr (h, w)
      else if hub_findConnection h uuid \<noteq> None then Inr (h, w)
      else (case hub_connectEndpoint ops mesh h endpoint uuid w of
              Inl e \<Rightarrow> Inl e
            | Inr (_, h', w') \<Rightarrow> Inr (h', w')))"

text \<open>\<open>start\<close> is \<open>connection.Start(h.connectFunc())\<close>: it gives the bridge connection a new pod.\<close>

definition hub_addTopicConnection :: "('b \<Rightarrow> 'w \<Rightarrow> 'w) \<Rightarrow> ('c, 'b) hub \<Rightarrow> 'b \<Rightarrow> string \<Rightarrow> 'w \<Rightarrow> ('c, 'b) hub \<times> 'w" where
  "hub_addTopicConnection start h connection topic w =
     (h\<lparr>hub_bridgeConnections := (hub_bridgeConnections h)(topic \<mapsto> connection)\<rparr>, start connection w)"

definition hub_connectBridgeTopic ::
  "('b \<Rightarrow> 'w \<Rightarrow> 'w) \<Rightarrow> ('b, 'w) bridgeTransport option \<Rightarrow> ('c, 'b) hub \<Rightarrow> string \<Rightarrow> 'w \<Rightarrow>
   error option \<times> ('c, 'b) hub \<times> 'w" where
  "hub_connectBridgeTopic start bridge h topic w =
     (case bridge of
        None \<Rightarrow> (Some ErrTransportNotConfigured, h, w)
      | Some t \<Rightarrow>
          (case bt_ConnectTopic t topic w of
             (Inl err, w1) \<Rightarrow> (Some (Wrapped err ''[grav] failed to transport.CreateConnection''), h, w1)
           | (Inr conn, w1) \<Rightarrow> (None, hub_addTopicConnection start h conn topic w1)))"

definition hub_removeMeshConnection :: "('c, 'b) hub \<Rightarrow> uuid \<Rightarrow> ('c, 'b) hub" where
  "hub_removeMeshConnection h uuid =
     h\<lparr>hub_capabilityBalancers := (\<lambda>c. map_option (\<lambda>b. Balancer_Remove b uuid) (hub_capabilityBalancers h c)),
       hub_meshConnections := (hub_meshConnections h)(uuid := None)\<rparr>"

section \<open>Messages\<close>

text \<open>
  \<open>messageHandler\<close>, over the keys of the map in the order given. The first result is \<open>None\<close> when
  it has come to its end, and the key of the connection in whose \<open>Send\<close> it blocks otherwise.
\<close>

fun hub_messageHandler ::
  "('c, 'w) connection \<Rightarrow> ('c, 'b) hub \<Rightarrow> uuid list \<Rightarrow> message \<Rightarrow> 'w \<Rightarrow> panic + (uuid option \<times> ('c, 'b) hub \<times> 'w)" where
  "hub_messageHandler ops h [] msg w = Inr (None, h, w)"
| "hub_messageHandler ops h (uuid # uuids) msg w =
     (case go_deref (hub_meshConnections h uuid) of
        Inl e \<Rightarrow> Inl e
      | Inr handler \<Rightarrow>
          (case connectionHandler_Send ops handler msg w of
             Inl e \<Rightarrow> Inl e
           | Inr (SendBlocks _, handler', w') \<Rightarrow>
               Inr (Some uuid, h\<lparr>hub_meshConnections := (hub_meshConnections h)(uuid \<mapsto> handler')\<rparr>, w')
           | Inr (_, handler', w') \<Rightarrow>
               hub_messageHandler ops (h\<lparr>hub_meshConnections := (hub_meshConnections h)(uuid \<mapsto> handler')\<rparr>) uuids msg w'))"

text \<open>
  One turn of the loop of \<open>sendTunneledMessage\<close>: pick the next connection and try it. The result
  is \<open>None\<close> if the UUID has no connection.
\<close>

definition tunnel_try ::
  "('c, 'w) connection \<Rightarrow> ('c, 'b) hub \<Rightarrow> string \<Rightarrow> message \<Rightarrow> 'w \<Rightarrow> panic + (send_result option \<times> ('c, 'b) hub \<times> 'w)" where
  "tunnel_try ops h capability msg w =
     (case go_deref (hub_capabilityBalancers h capability) of
        Inl e \<Rightarrow> Inl e
      | Inr balancer \<Rightarrow>
          (case Balancer_Next balancer of
             Inl e \<Rightarrow> Inl e
           | Inr (uuid, balancer') \<Rightarrow>
               (let h1 = h\<lparr>hub_capabilityBalancers := (hub_capabilityBalancers h)(capability \<mapsto> balancer')\<rparr>
                in case hub_meshConnections h1 uuid of
                     None \<Rightarrow> Inr (None, h1, w)
                   | Some handler \<Rightarrow>
                       (if ch_Conn handler = None then Inr (None, h1, w)
                        else (case connectionHandler_Send ops handler msg w of
                                Inl e \<Rightarrow> Inl e
                              | Inr (r, handler', w') \<Rightarrow>
                                  Inr (Some r, h1\<lparr>hub_meshConnections := (hub_meshConnections h1)(uuid \<mapsto> handler')\<rparr>, w'))))))"

text \<open>
  The loop, with \<open>n\<close> turns left. \<open>env\<close> is what the rest of the program has done by the time a
  blocked \<open>Send\<close> returns, the scanner's receive included, and \<open>None\<close> if the \<open>Send\<close> never returns; the lock is not held
  then.
\<close>

fun tunnel_loop ::
  "('c, 'w) connection \<Rightarrow> (('c, 'b) hub \<times> 'w \<Rightarrow> (('c, 'b) hub \<times> 'w) option) \<Rightarrow> string \<Rightarrow> message \<Rightarrow> nat \<Rightarrow> ('c, 'b) hub \<Rightarrow> 'w \<Rightarrow>
   (error option \<times> ('c, 'b) hub \<times> 'w) run" where
  "tunnel_loop ops env capability msg 0 h w = Some (Inr (Some ErrTunnelNotEstablished, h, w))"
| "tunnel_loop ops env capability msg (Suc n) h w =
     (case tunnel_try ops h capability msg w of
        Inl e \<Rightarrow> Some (Inl e)
      | Inr (Some SendOk, h', w') \<Rightarrow> Some (Inr (None, h', w'))
      | Inr (Some (SendBlocks _), h', w') \<Rightarrow>
          (case env (h', w') of
             None \<Rightarrow> None
           | Some (h'', w'') \<Rightarrow> tunnel_loop ops env capability msg n h'' w'')
      | Inr (_, h', w') \<Rightarrow> tunnel_loop ops env capability msg n h' w')"

definition hub_sendTunneledMessage ::
  "('c, 'w) connection \<Rightarrow> (('c, 'b) hub \<times> 'w \<Rightarrow> (('c, 'b) hub \<times> 'w) option) \<Rightarrow> ('c, 'b) hub \<Rightarrow> string \<Rightarrow> message \<Rightarrow> 'w \<Rightarrow>
   (error option \<times> ('c, 'b) hub \<times> 'w) run" where
  "hub_sendTunneledMessage ops env h capability msg w =
     (if hub_capabilityBalancers h capability = None then Some (Inr (Some ErrTunnelNotEstablished, h, w))
      else tunnel_loop ops env capability msg tunnelRetryCount h w)"

section \<open>Scanning, withdrawing and stopping\<close>

text \<open>
  The loop over the connections in \<open>scanFailedMeshConnections\<close>: receive an error if a goroutine
  offers one, otherwise look at the peer's flag; in both cases close and note the connection.
\<close>

fun scan_loop ::
  "('c, 'w) connection \<Rightarrow> ('c, 'b) hub \<Rightarrow> uuid list \<Rightarrow> uuid list \<Rightarrow> 'w \<Rightarrow> panic + (uuid list \<times> ('c, 'b) hub \<times> 'w)" where
  "scan_loop ops h [] toRemove w = Inr (toRemove, h, w)"
| "scan_loop ops h (uuid # uuids) toRemove w =
     (case hub_meshConnections h uuid of
        None \<Rightarrow> scan_loop ops h uuids toRemove w
      | Some conn \<Rightarrow>
          (case ch_ErrChan conn of
             err # errs \<Rightarrow>
               (case connectionHandler_Close ops conn w of
                  Inl e \<Rightarrow> Inl e
                | Inr (_, w') \<Rightarrow>
                    scan_loop ops (h\<lparr>hub_meshConnections := (hub_meshConnections h)(uuid \<mapsto> conn\<lparr>ch_ErrChan := errs\<rparr>)\<rparr>)
                      uuids (toRemove @ [ch_UUID conn]) w')
           | [] \<Rightarrow>
               (if Signaler_PeerWithdrawn (ch_Signaler conn) then
                  (case connectionHandler_Close ops conn w of
                     Inl e \<Rightarrow> Inl e
                   | Inr (_, w') \<Rightarrow> scan_loop ops h uuids (toRemove @ [ch_UUID conn]) w')
                else scan_loop ops h uuids toRemove w)))"

text \<open>One pass of the outer loop.\<close>

definition scan_pass ::
  "('c, 'w) connection \<Rightarrow> ('c, 'b) hub \<Rightarrow> uuid list \<Rightarrow> 'w \<Rightarrow> panic + (('c, 'b) hub \<times> 'w)" where
  "scan_pass ops h uuids w =
     (case scan_loop ops h uuids [] w of
        Inl e \<Rightarrow> Inl e
      | Inr (toRemove, h', w') \<Rightarrow> Inr (foldl hub_removeMeshConnection h' toRemove, w'))"

text \<open>Signalling every connection, with the lock held; \<open>None\<close> if a signal blocks.\<close>

fun signal_all :: "('c, 'b) hub \<Rightarrow> uuid list \<Rightarrow> ('c, 'b) hub run" where
  "signal_all h [] = Some (Inr h)"
| "signal_all h (uuid # uuids) =
     (case go_deref (hub_meshConnections h uuid) of
        Inl e \<Rightarrow> Some (Inl e)
      | Inr conn \<Rightarrow>
          (case Signaler_Signal (ch_Signaler conn) of
             None \<Rightarrow> None
           | Some g \<Rightarrow>
               signal_all (h\<lparr>hub_meshConnections := (hub_meshConnections h)(uuid \<mapsto> conn\<lparr>ch_Signaler := g\<rparr>)\<rparr>) uuids))"

text \<open>
  The polling goroutine: it goes round the connections and counts the done channels that have a
  value. An element of the list is one round before the timeout, and tells which channels are
  ready in it.
\<close>

fun withdraw_wait :: "uuid list \<Rightarrow> int \<Rightarrow> (uuid \<Rightarrow> bool) list \<Rightarrow> bool" where
  "withdraw_wait uuids count [] = False"
| "withdraw_wait uuids count (ready # rounds) =
     (let count' = count - int (length (filter ready uuids))
      in if count' = 0 then True else withdraw_wait uuids count' rounds)"

definition hub_withdraw ::
  "('w \<Rightarrow> 'w) option \<Rightarrow> ('c, 'b) hub \<Rightarrow> uuid list \<Rightarrow> (uuid \<Rightarrow> bool) list \<Rightarrow> 'w \<Rightarrow> (error option \<times> ('c, 'b) hub \<times> 'w) run" where
  "hub_withdraw stopDiscovery h uuids rounds w =
     (let w1 = (case stopDiscovery of None \<Rightarrow> w | Some stop \<Rightarrow> stop w)
      in case signal_all h uuids of
           None \<Rightarrow> None
         | Some (Inl e) \<Rightarrow> Some (Inl e)
         | Some (Inr h') \<Rightarrow>
             Some (Inr (if withdraw_wait uuids (int (length uuids)) rounds then None else Some ErrWaitTimeout, h', w1)))"

fun stop_loop ::
  "('c, 'w) connection \<Rightarrow> ('c, 'b) hub \<Rightarrow> uuid list \<Rightarrow> error option \<Rightarrow> 'w \<Rightarrow> panic + (error option \<times> 'w)" where
  "stop_loop ops h [] lastErr w = Inr (lastErr, w)"
| "stop_loop ops h (uuid # uuids) lastErr w =
     (case go_deref (hub_meshConnections h uuid) of
        Inl e \<Rightarrow> Inl e
      | Inr c \<Rightarrow>
          (case go_deref (ch_Conn c) of
             Inl e \<Rightarrow> Inl e
           | Inr conn \<Rightarrow>
               (case co_Close ops conn w of
                  (None, w') \<Rightarrow> stop_loop ops h uuids lastErr w'
                | (Some err, w') \<Rightarrow> stop_loop ops h uuids (Some err) w')))"

definition hub_stop :: "('c, 'w) connection \<Rightarrow> ('c, 'b) hub \<Rightarrow> uuid list \<Rightarrow> 'w \<Rightarrow> panic + (error option \<times> 'w)" where
  "hub_stop ops h uuids w = stop_loop ops h uuids None w"

end
