(* ===== verification/Hub_Mesh.thy ===== *)
theory Hub_Mesh
  imports Hub
begin

text \<open>
  The consistency of the hub: its connections are filed under the UUID of their peer, and the
  balancer of a capability holds exactly the connected peers that advertise it. Every operation
  of the hub keeps it, so it holds in every state of a hub whose operations come in any order,
  with arbitrary transports and peers. From it follow which handshakes make a connection and
  what tunnelling does.
\<close>

section \<open>Consistency\<close>

definition handler_of :: "uuid \<Rightarrow> 'c connectionHandler \<Rightarrow> bool" where
  "handler_of u c \<longleftrightarrow> ch_UUID c = u \<and> u \<noteq> '''' \<and> ch_Conn c \<noteq> None"

text \<open>How often a peer advertises a capability: as often as it stands in the balancer.\<close>

definition advertised :: "('c, 'b) hub \<Rightarrow> string \<Rightarrow> uuid \<Rightarrow> nat" where
  "advertised h cap u =
     (case hub_meshConnections h u of None \<Rightarrow> 0 | Some c \<Rightarrow> count_list (ch_Interests c) cap)"

definition hub_ok :: "('c, 'b) hub \<Rightarrow> bool" where
  "hub_ok h \<longleftrightarrow>
     (\<forall>u c. hub_meshConnections h u = Some c \<longrightarrow> handler_of u c)
   \<and> (\<forall>cap. case hub_capabilityBalancers h cap of
              None \<Rightarrow> \<forall>u. advertised h cap u = 0
            | Some b \<Rightarrow> bal_ok b \<and> (\<forall>u. count_list (bal_uuids b) u = advertised h cap u))"

lemma hub_ok_handler: "hub_ok h \<Longrightarrow> hub_meshConnections h u = Some c \<Longrightarrow> handler_of u c"
  by (simp add: hub_ok_def)

lemma hub_ok_balancer:
  "hub_ok h \<Longrightarrow> hub_capabilityBalancers h cap = Some b \<Longrightarrow>
     bal_ok b \<and> (\<forall>u. count_list (bal_uuids b) u = advertised h cap u)"
  unfolding hub_ok_def by (metis (mono_tags, lifting) option.simps(5))

lemma hub_ok_new [grav_inv]: "hub_ok (new_hub n b i)"
  by (simp add: hub_ok_def new_hub_def advertised_def)

lemma find_none: "hub_ok h \<Longrightarrow> hub_findConnection h u = None \<longleftrightarrow> hub_meshConnections h u = None"
  by (auto simp: hub_findConnection_def handler_of_def split: option.splits dest: hub_ok_handler)

text \<open>The balancers after the loop over the interests.\<close>

lemma add_capability_simps [simp]:
  "hub_meshConnections (add_capability u h c) = hub_meshConnections h"
  "hub_bridgeConnections (add_capability u h c) = hub_bridgeConnections h"
  "hub_nodeUUID (add_capability u h c) = hub_nodeUUID h"
  "hub_belongsTo (add_capability u h c) = hub_belongsTo h"
  "hub_interests (add_capability u h c) = hub_interests h"
  by (simp_all add: add_capability_def Let_def)

lemma foldl_capability_simps [simp]:
  "hub_meshConnections (foldl (add_capability u) h cs) = hub_meshConnections h"
  "hub_nodeUUID (foldl (add_capability u) h cs) = hub_nodeUUID h"
  "hub_belongsTo (foldl (add_capability u) h cs) = hub_belongsTo h"
  "hub_interests (foldl (add_capability u) h cs) = hub_interests h"
  by (induction cs arbitrary: h) simp_all

lemma add_capability_balancers:
  "hub_capabilityBalancers (add_capability u h c) =
     (hub_capabilityBalancers h)(c \<mapsto> Balancer_Add (case hub_capabilityBalancers h c of None \<Rightarrow> NewBalancer | Some b \<Rightarrow> b) u)"
  by (auto simp: add_capability_def Let_def)

text \<open>The entries of a balancer that may not exist yet.\<close>

definition entries :: "('c, 'b) hub \<Rightarrow> string \<Rightarrow> uuid list" where
  "entries h cap = (case hub_capabilityBalancers h cap of None \<Rightarrow> [] | Some b \<Rightarrow> bal_uuids b)"

definition balancers_ok :: "('c, 'b) hub \<Rightarrow> bool" where
  "balancers_ok h \<longleftrightarrow> (\<forall>cap b. hub_capabilityBalancers h cap = Some b \<longrightarrow> bal_ok b)"

lemma hub_ok_alt:
  "hub_ok h \<longleftrightarrow> (\<forall>u c. hub_meshConnections h u = Some c \<longrightarrow> handler_of u c) \<and> balancers_ok h
     \<and> (\<forall>cap u. count_list (entries h cap) u = advertised h cap u)"
  by (auto simp: hub_ok_def balancers_ok_def entries_def split: option.splits)

lemma foldl_capability_ok:
  "balancers_ok h \<Longrightarrow> balancers_ok (foldl (add_capability u) h cs)"
proof (induction cs arbitrary: h)
  case Nil
  then show ?case by simp
next
  case (Cons c cs)
  have "balancers_ok (add_capability u h c)"
    using Cons.prems by (auto simp: balancers_ok_def add_capability_balancers bal_ok_add bal_ok_new split: option.splits)
  with Cons.IH show ?case by simp
qed

lemma foldl_capability_entries:
  "entries (foldl (add_capability u) h cs) cap = entries h cap @ replicate (count_list cs cap) u"
proof (induction cs arbitrary: h)
  case Nil
  then show ?case by simp
next
  case (Cons c cs)
  have "entries (add_capability u h c) cap = entries h cap @ (if c = cap then [u] else [])"
    by (auto simp: entries_def add_capability_balancers NewBalancer_def split: option.splits)
  with Cons.IH show ?case by auto
qed

lemma count_list_replicate: "count_list (replicate n x) y = (if x = y then n else 0)"
  by (induction n) auto

lemma hub_ok_add [grav_inv]:
  assumes ok: "hub_ok h" and u: "hub_meshConnections h u = None" "u \<noteq> ''''"
  shows "hub_ok (hub_addConnection h conn u bt ints)"
proof -
  let ?handler = "\<lparr>ch_UUID = u, ch_Conn = Some conn, ch_Signaler = NewSignaler, ch_ErrChan = [],
                   ch_BelongsTo = bt, ch_Interests = ints\<rparr>"
  let ?h1 = "h\<lparr>hub_meshConnections := (hub_meshConnections h)(u \<mapsto> ?handler)\<rparr>"
  have eq: "hub_addConnection h conn u bt ints = foldl (add_capability u) ?h1 ints"
    by (simp add: hub_addConnection_def Let_def)
  have "balancers_ok ?h1" using ok by (simp add: hub_ok_alt balancers_ok_def)
  moreover have "entries ?h1 cap = entries h cap" for cap by (simp add: entries_def)
  moreover have "count_list (entries h cap) v = advertised h cap v" for cap v
    using ok by (simp add: hub_ok_alt)
  moreover have "advertised h cap u = 0" for cap using u by (simp add: advertised_def)
  ultimately show ?thesis
    using ok u unfolding eq hub_ok_alt
    by (auto simp: foldl_capability_ok foldl_capability_entries count_list_replicate handler_of_def advertised_def)
qed

lemma count_list_filter_neq: "count_list (filter (\<lambda>v. v \<noteq> u) xs) w = (if w = u then 0 else count_list xs w)"
  by (induction xs) auto

lemma hub_ok_remove [grav_inv]:
  assumes "hub_ok h"
  shows "hub_ok (hub_removeMeshConnection h u)"
proof -
  let ?h = "hub_removeMeshConnection h u"
  have "balancers_ok ?h"
    by (auto simp: balancers_ok_def hub_removeMeshConnection_def bal_ok_remove)
  moreover have "entries ?h cap = filter (\<lambda>v. v \<noteq> u) (entries h cap)" for cap
    by (simp add: entries_def hub_removeMeshConnection_def split: option.split)
  moreover have "advertised ?h cap w = (if w = u then 0 else advertised h cap w)" for cap w
    by (simp add: advertised_def hub_removeMeshConnection_def)
  moreover have "hub_meshConnections ?h = (hub_meshConnections h)(u := None)"
    by (simp add: hub_removeMeshConnection_def)
  ultimately show ?thesis
    using assms by (auto simp: hub_ok_alt count_list_filter_neq)
qed

text \<open>A handler may be replaced by one for the same peer, connection and interests.\<close>

definition same_handler :: "'c connectionHandler \<Rightarrow> 'c connectionHandler \<Rightarrow> bool" where
  "same_handler c d \<longleftrightarrow> ch_UUID c = ch_UUID d \<and> ch_Conn c = ch_Conn d \<and> ch_Interests c = ch_Interests d"

lemma hub_ok_update:
  assumes ok: "hub_ok h" and c: "hub_meshConnections h u = Some c" "same_handler d c"
  shows "hub_ok (h\<lparr>hub_meshConnections := (hub_meshConnections h)(u \<mapsto> d)\<rparr>)"
proof -
  let ?h = "h\<lparr>hub_meshConnections := (hub_meshConnections h)(u \<mapsto> d)\<rparr>"
  have "advertised ?h cap w = advertised h cap w" "entries ?h cap = entries h cap" for cap w
    using c by (auto simp: advertised_def entries_def same_handler_def)
  moreover have "handler_of u d" using hub_ok_handler [OF ok c(1)] c(2) by (simp add: handler_of_def same_handler_def)
  ultimately show ?thesis using ok by (auto simp: hub_ok_alt balancers_ok_def)
qed

lemma hub_ok_next:
  assumes ok: "hub_ok h" and b: "hub_capabilityBalancers h cap = Some b" "Balancer_Next b = Inr (u, b')"
  shows "hub_ok (h\<lparr>hub_capabilityBalancers := (hub_capabilityBalancers h)(cap \<mapsto> b')\<rparr>)" (is "hub_ok ?h")
proof -
  have "bal_ok b" using hub_ok_balancer [OF ok b(1)] by simp
  then have "bal_ok b'" "bal_uuids b' = bal_uuids b"
    using balancer_run_ok [of b "[OpNextUUID]" b'] b(2) Next_uuids by auto
  then have "balancers_ok ?h" "entries ?h c = entries h c" for c
    using ok b by (auto simp: hub_ok_alt balancers_ok_def entries_def)
  moreover have "advertised ?h c w = advertised h c w" for c w by (simp add: advertised_def)
  ultimately show ?thesis using ok by (auto simp: hub_ok_alt)
qed

section \<open>Every operation keeps it\<close>

lemma setupNew_ok [grav_inv]:
  "hub_ok h \<Longrightarrow> u \<noteq> '''' \<Longrightarrow> hub_ok (fst (hub_setupNewConnection ops h conn u bt ints w))"
  by (auto simp: hub_setupNewConnection_def find_none hub_ok_add)

lemma outgoing_cases:
  assumes "hub_setupOutgoingConnection ops h conn u w = Inr (h', w')"
  shows "h' = h \<or> (\<exists>v bt ints w1. v \<noteq> '''' \<and> hub_setupNewConnection ops h conn v bt ints w1 = (h', w'))"
  using assms
  by (auto simp: hub_setupOutgoingConnection_def Let_def go_deref_def
      split: prod.splits option.splits if_splits)

lemma outgoing_ok:
  "hub_ok h \<Longrightarrow> hub_setupOutgoingConnection ops h conn u w = Inr (h', w') \<Longrightarrow> hub_ok h'"
  by (metis outgoing_cases setupNew_ok fst_conv)

lemma incoming_ok: "hub_ok h \<Longrightarrow> hub_ok (fst (hub_handleIncomingConnection ops h conn w))"
  using setupNew_ok [of h]
  by (auto simp: hub_handleIncomingConnection_def split: prod.splits option.splits)

lemma endpoint_ok:
  "hub_ok h \<Longrightarrow> hub_connectEndpoint ops mesh h e u w = Inr (err, h', w') \<Longrightarrow> hub_ok h'"
  by (auto simp: hub_connectEndpoint_def split: option.splits prod.splits sum.splits intro: outgoing_ok)

lemma discovery_ok:
  "hub_ok h \<Longrightarrow> hub_discoveryHandler ops mesh h e u w = Inr (h', w') \<Longrightarrow> hub_ok h'"
  by (auto simp: hub_discoveryHandler_def split: if_splits sum.splits intro: endpoint_ok)

lemma Send_same:
  "connectionHandler_Send ops c msg w = Inr (r, c', w') \<Longrightarrow> same_handler c' c"
  by (auto simp: connectionHandler_Send_def same_handler_def split: if_splits sum.splits prod.splits option.splits)

lemma messageHandler_ok:
  "hub_ok h \<Longrightarrow> hub_messageHandler ops h us msg w = Inr (r, h', w') \<Longrightarrow> hub_ok h'"
proof (induction ops h us msg w rule: hub_messageHandler.induct)
  case (1 ops h msg w)
  then show ?case by simp
next
  case (2 ops h u us msg w)
  then obtain c where c: "hub_meshConnections h u = Some c"
    by (cases "hub_meshConnections h u") auto
  with 2(4) obtain s c' w1 where s: "connectionHandler_Send ops c msg w = Inr (s, c', w1)"
    by (auto split: sum.splits)
  have ok: "hub_ok (h\<lparr>hub_meshConnections := (hub_meshConnections h)(u \<mapsto> c')\<rparr>)"
    by (rule hub_ok_update [OF 2(3) c Send_same [OF s]])
  show ?case
    using 2(1,2) [OF _ s] 2(4) c s ok by (cases s) auto
qed

lemma try_ok: "hub_ok h \<Longrightarrow> tunnel_try ops h cap msg w = Inr (r, h', w') \<Longrightarrow> hub_ok h'"
proof -
  assume ok: "hub_ok h" and t: "tunnel_try ops h cap msg w = Inr (r, h', w')"
  from t obtain b u b' where b: "hub_capabilityBalancers h cap = Some b" "Balancer_Next b = Inr (u, b')"
    by (auto simp: tunnel_try_def go_deref_def split: option.splits sum.splits)
  let ?h1 = "h\<lparr>hub_capabilityBalancers := (hub_capabilityBalancers h)(cap \<mapsto> b')\<rparr>"
  have ok1: "hub_ok ?h1" by (rule hub_ok_next [OF ok b])
  show "hub_ok h'"
  proof (cases "hub_meshConnections h u")
    case None
    with t b ok1 show ?thesis by (simp add: tunnel_try_def)
  next
    case (Some c)
    have conn: "ch_Conn c \<noteq> None" using hub_ok_handler [OF ok Some] by (simp add: handler_of_def)
    with t b Some obtain c' where c': "connectionHandler_Send ops c msg w = Inr (the r, c', w')"
        "h' = ?h1\<lparr>hub_meshConnections := (hub_meshConnections ?h1)(u \<mapsto> c')\<rparr>"
      by (auto simp: tunnel_try_def Let_def split: sum.splits)
    have "hub_meshConnections ?h1 u = Some c" using Some by simp
    from hub_ok_update [OF ok1 this Send_same [OF c'(1)]] c'(2) show ?thesis by simp
  qed
qed

lemma scan_loop_ok:
  "hub_ok h \<Longrightarrow> scan_loop ops h us rm w = Inr (rm', h', w') \<Longrightarrow> hub_ok h'"
proof (induction ops h us rm w rule: scan_loop.induct)
  case (2 ops h u us rm w)
  show ?case
  proof (cases "hub_meshConnections h u")
    case None
    with 2 show ?thesis by auto
  next
    case (Some c)
    have "hub_ok (h\<lparr>hub_meshConnections := (hub_meshConnections h)(u \<mapsto> c\<lparr>ch_ErrChan := es\<rparr>)\<rparr>)" for es
      by (rule hub_ok_update [OF 2(5) Some]) (simp add: same_handler_def)
    with 2 Some show ?thesis
      by (auto split: list.splits sum.splits prod.splits if_splits)
  qed
qed simp

lemma removals_ok: "hub_ok h \<Longrightarrow> hub_ok (foldl hub_removeMeshConnection h us)"
  by (induction us arbitrary: h) (simp_all add: hub_ok_remove)

lemma scan_pass_ok: "hub_ok h \<Longrightarrow> scan_pass ops h us w = Inr (h', w') \<Longrightarrow> hub_ok h'"
  by (auto simp: scan_pass_def split: sum.splits intro: removals_ok scan_loop_ok)

lemma signal_all_ok: "hub_ok h \<Longrightarrow> signal_all h us = Some (Inr h') \<Longrightarrow> hub_ok h'"
proof (induction h us rule: signal_all.induct)
  case (2 h u us)
  then obtain c g where c: "hub_meshConnections h u = Some c" "Signaler_Signal (ch_Signaler c) = Some g"
    by (auto simp: go_deref_def split: option.splits)
  have "hub_ok (h\<lparr>hub_meshConnections := (hub_meshConnections h)(u \<mapsto> c\<lparr>ch_Signaler := g\<rparr>)\<rparr>)"
    by (rule hub_ok_update [OF 2(2) c(1)]) (simp add: same_handler_def)
  with 2 c show ?case by auto
qed simp

section \<open>The hub as a state machine\<close>

text \<open>
  The hub and the world, with the operations in any order, one after the other: none begins before the last one
  has ended (\<open>Hub_Interleaved\<close> lets them overlap). Between them the goroutines of the
  connections change their handlers' channels and flags, and the network does what it likes.
\<close>

inductive hub_step ::
  "('c, 'w) connection \<Rightarrow> ('c, 'w) meshTransport option \<Rightarrow> ('c, 'b) hub \<times> 'w \<Rightarrow> ('c, 'b) hub \<times> 'w \<Rightarrow> bool"
  for ops :: "('c, 'w) connection" and mesh :: "('c, 'w) meshTransport option" where
  incoming: "hub_step ops mesh (h, w) (hub_handleIncomingConnection ops h conn w)"
| endpoint: "hub_connectEndpoint ops mesh h e u w = Inr (err, h', w') \<Longrightarrow> hub_step ops mesh (h, w) (h', w')"
| discovered: "hub_discoveryHandler ops mesh h e u w = Inr (h', w') \<Longrightarrow> hub_step ops mesh (h, w) (h', w')"
| topic: "hub_connectBridgeTopic start bridge h t w = (err, h', w') \<Longrightarrow> hub_step ops mesh (h, w) (h', w')"
| broadcast: "hub_messageHandler ops h us msg w = Inr (r, h', w') \<Longrightarrow> hub_step ops mesh (h, w) (h', w')"
| tunnel: "tunnel_try ops h cap msg w = Inr (r, h', w') \<Longrightarrow> hub_step ops mesh (h, w) (h', w')"
| scan: "scan_pass ops h us w = Inr (h', w') \<Longrightarrow> hub_step ops mesh (h, w) (h', w')"
| signals: "signal_all h us = Some (Inr h') \<Longrightarrow> hub_step ops mesh (h, w) (h', w)"
| handler: "hub_meshConnections h u = Some c \<Longrightarrow> same_handler d c \<Longrightarrow>
     hub_step ops mesh (h, w) (h\<lparr>hub_meshConnections := (hub_meshConnections h)(u \<mapsto> d)\<rparr>, w)"
| network: "hub_step ops mesh (h, w) (h, w')"

inductive_cases hub_stepE: "hub_step ops mesh s t"

definition hub_init :: "('c, 'b) hub \<times> 'w \<Rightarrow> bool" where
  "hub_init s \<longleftrightarrow> (\<exists>n b i. fst s = new_hub n b i)"

lemma topic_ok: "hub_ok h \<Longrightarrow> hub_connectBridgeTopic start bridge h t w = (err, h', w') \<Longrightarrow> hub_ok h'"
proof -
  have same: "hub_ok (h\<lparr>hub_bridgeConnections := x\<rparr>) = hub_ok h" for x
    by (simp add: hub_ok_def advertised_def cong: option.case_cong)
  assume "hub_ok h" "hub_connectBridgeTopic start bridge h t w = (err, h', w')"
  then show "hub_ok h'"
    using same by (auto simp: hub_connectBridgeTopic_def hub_addTopicConnection_def split: option.splits prod.splits sum.splits)
qed

lemma hub_ok_step: "hub_ok (fst s) \<Longrightarrow> hub_step ops mesh s t \<Longrightarrow> hub_ok (fst t)"
proof (erule hub_stepE, goal_cases)
  case (1 h w conn)
  then show ?case by (simp add: incoming_ok)
next
  case 2
  then show ?case by (auto intro: endpoint_ok)
next
  case 3
  then show ?case by (auto intro: discovery_ok)
next
  case 4
  then show ?case by (auto intro: topic_ok)
next
  case 5
  then show ?case by (auto intro: messageHandler_ok)
next
  case 6
  then show ?case by (auto intro: try_ok)
next
  case 7
  then show ?case by (auto intro: scan_pass_ok)
next
  case 8
  then show ?case by (auto intro: signal_all_ok)
next
  case (9 h u c d w)
  then show ?case by (auto intro: hub_ok_update)
next
  case 10
  then show ?case by simp
qed

interpretation hubsys: invariant_system hub_init "hub_step ops mesh" "\<lambda>s. hub_ok (fst s)" for ops mesh
  by (unfold_locales, fastforce simp: hub_init_def hub_ok_new, rule hub_ok_step)

section \<open>What the operations do\<close>

text \<open>Equations for the two handshakes.\<close>

definition own_handshake :: "('c, 'b) hub \<Rightarrow> transportHandshake" where
  "own_handshake h = \<lparr>hs_UUID = hub_nodeUUID h, hs_BelongsTo = hub_belongsTo h, hs_Interests = hub_interests h\<rparr>"

lemma outgoing_accepted:
  assumes "co_OutgoingHandshake ops conn (own_handshake h) w = ((Some ack, None), w1)"
    and "ack_UUID ack \<noteq> ''''" and "uuid \<in> {'''', ack_UUID ack}"
  shows "hub_setupOutgoingConnection ops h conn uuid w =
    Inr (if ack_Accept ack
         then hub_setupNewConnection ops h conn (ack_UUID ack) (ack_BelongsTo ack) (ack_Interests ack) w1
         else (h, snd (co_Close ops conn w1)))"
  using assms by (auto simp: hub_setupOutgoingConnection_def own_handshake_def Let_def)

lemma incoming_read:
  assumes "co_IncomingHandshake ops conn (handshake_callback h) w = ((Some hs, None), w1)" and "hs_UUID hs \<noteq> ''''"
  shows "hub_handleIncomingConnection ops h conn w =
    (if hs_BelongsTo hs \<in> {hub_belongsTo h, ''*''}
     then hub_setupNewConnection ops h conn (hs_UUID hs) (hs_BelongsTo hs) (hs_Interests hs) w1
     else (h, snd (co_Close ops conn w1)))"
  using assms by (auto simp: hub_handleIncomingConnection_def handshake_callback_def)

lemma add_mesh [simp]:
  "hub_meshConnections (hub_addConnection h conn u bt ints) =
     (hub_meshConnections h)(u \<mapsto> \<lparr>ch_UUID = u, ch_Conn = Some conn, ch_Signaler = NewSignaler, ch_ErrChan = [],
                     ch_BelongsTo = bt, ch_Interests = ints\<rparr>)"
  "hub_nodeUUID (hub_addConnection h conn u bt ints) = hub_nodeUUID h"
  "hub_belongsTo (hub_addConnection h conn u bt ints) = hub_belongsTo h"
  "hub_interests (hub_addConnection h conn u bt ints) = hub_interests h"
  by (simp_all add: hub_addConnection_def Let_def)

lemma add_own [simp]: "own_handshake (hub_addConnection h conn u bt ints) = own_handshake h"
  "handshake_callback (hub_addConnection h conn u bt ints) hs = handshake_callback h hs"
  by (simp_all add: own_handshake_def handshake_callback_def)

lemma add_find [simp]:
  "hub_findConnection (hub_addConnection h conn u bt ints) v = (if v = u then Some conn else hub_findConnection h v)"
  by (simp add: hub_findConnection_def)

lemma find_add: "hub_findConnection h u \<noteq> None \<Longrightarrow> hub_setupNewConnection ops h conn u bt ints w = (h, snd (co_Close ops conn w))"
  "hub_findConnection h u = None \<Longrightarrow> hub_setupNewConnection ops h conn u bt ints w = (hub_addConnection h conn u bt ints, w)"
  by (simp_all add: hub_setupNewConnection_def)

text \<open>Sending never panics in a consistent hub, and a successful send leaves the handler as it is.\<close>

lemma Send_result:
  assumes "handler_of u c"
  shows "\<exists>r c' w'. connectionHandler_Send ops c msg w = Inr (r, c', w') \<and> (r = SendOk \<longrightarrow> c' = c)"
  using assms
  by (cases "co_SendMsg ops (the (ch_Conn c)) msg w"; cases "fst (co_SendMsg ops (the (ch_Conn c)) msg w)")
     (auto simp: connectionHandler_Send_def handler_of_def go_deref_def split: option.splits)

text \<open>The connections a broadcast sends to.\<close>

definition active :: "('c, 'b) hub \<Rightarrow> uuid \<Rightarrow> bool" where
  "active h u = (case hub_meshConnections h u of None \<Rightarrow> False | Some c \<Rightarrow> \<not> Signaler_PeerWithdrawn (ch_Signaler c))"

definition send_to :: "('c, 'w) connection \<Rightarrow> ('c, 'b) hub \<Rightarrow> message \<Rightarrow> 'w \<Rightarrow> uuid \<Rightarrow> 'w" where
  "send_to ops h msg w u = snd (co_SendMsg ops (the (hub_findConnection h u)) msg w)"

lemma messageHandler_all:
  assumes "hub_ok h" and "set us \<subseteq> dom (hub_meshConnections h)"
    and "\<And>conn w. fst (co_SendMsg ops conn msg w) = None"
  shows "hub_messageHandler ops h us msg w = Inr (None, h, foldl (send_to ops h msg) w (filter (active h) us))"
  using assms(2)
proof (induction us arbitrary: w)
  case Nil
  then show ?case by simp
next
  case (Cons u us)
  then obtain c where c: "hub_meshConnections h u = Some c" by auto
  obtain conn where conn: "ch_Conn c = Some conn" using hub_ok_handler [OF assms(1) c] by (auto simp: handler_of_def)
  obtain w' where w': "co_SendMsg ops conn msg w = (None, w')"
    using assms(3) [of conn w] by (cases "co_SendMsg ops conn msg w") simp
  have same: "h\<lparr>hub_meshConnections := (hub_meshConnections h)(u \<mapsto> c)\<rparr> = h"
    using c by (simp add: fun_upd_idem)
  show ?case
  proof (cases "Signaler_PeerWithdrawn (ch_Signaler c)")
    case True
    then show ?thesis using Cons c same by (simp add: connectionHandler_Send_def active_def)
  next
    case False
    then show ?thesis
      using Cons c same conn w' by (simp add: connectionHandler_Send_def active_def send_to_def hub_findConnection_def)
  qed
qed

text \<open>What a scan takes out.\<close>

definition failed :: "('c, 'b) hub \<Rightarrow> uuid \<Rightarrow> bool" where
  "failed h u = (case hub_meshConnections h u of
                   None \<Rightarrow> False
                 | Some c \<Rightarrow> ch_ErrChan c \<noteq> [] \<or> Signaler_PeerWithdrawn (ch_Signaler c))"

lemma Close_result: "handler_of u c \<Longrightarrow> \<exists>r w'. connectionHandler_Close ops c w = Inr (r, w')"
  by (cases "co_Close ops (the (ch_Conn c)) w"; cases "fst (co_Close ops (the (ch_Conn c)) w)")
     (auto simp: connectionHandler_Close_def handler_of_def go_deref_def split: option.splits)

lemma scan_loop_result:
  assumes "hub_ok h" and "distinct us"
  shows "\<exists>h' w'. scan_loop ops h us rm w = Inr (rm @ filter (failed h) us, h', w')
    \<and> hub_ok h' \<and> (\<forall>u. u \<notin> set (filter (failed h) us) \<longrightarrow> hub_meshConnections h' u = hub_meshConnections h u)"
  using assms
proof (induction us arbitrary: h rm w)
  case Nil
  then show ?case by simp
next
  case (Cons u us)
  show ?case
  proof (cases "hub_meshConnections h u")
    case None
    with Cons show ?thesis by (simp add: failed_def)
  next
    case (Some c)
    have hc: "handler_of u c" by (rule hub_ok_handler [OF Cons.prems(1) Some])
    obtain r w' where cl: "connectionHandler_Close ops c w = Inr (r, w')" using Close_result [OF hc, of ops w] by blast
    have u: "ch_UUID c = u" using hc by (simp add: handler_of_def)
    have fu: "failed h u \<longleftrightarrow> ch_ErrChan c \<noteq> [] \<or> Signaler_PeerWithdrawn (ch_Signaler c)"
      by (simp add: failed_def Some)
    show ?thesis
    proof (cases "ch_ErrChan c")
      case Nil
      obtain h' w2 where "scan_loop ops h us (rm @ (if failed h u then [u] else [])) (if failed h u then w' else w) =
          Inr ((rm @ (if failed h u then [u] else [])) @ filter (failed h) us, h', w2)" "hub_ok h'"
          "\<forall>v. v \<notin> set (filter (failed h) us) \<longrightarrow> hub_meshConnections h' v = hub_meshConnections h v"
        using Cons.IH [OF Cons.prems(1)] Cons.prems(2) by (meson distinct.simps(2))
      then show ?thesis using Some Nil cl u fu by (cases "failed h u") auto
    next
      case (Cons e es)
      note errs = this
      let ?h = "h\<lparr>hub_meshConnections := (hub_meshConnections h)(u \<mapsto> c\<lparr>ch_ErrChan := es\<rparr>)\<rparr>"
      have ok: "hub_ok ?h" by (rule hub_ok_update [OF Cons.prems(1) Some]) (simp add: same_handler_def)
      have same: "filter (failed ?h) us = filter (failed h) us"
        using Cons.prems(2) by (intro filter_cong) (auto simp: failed_def)
      obtain h' w2 where "scan_loop ops ?h us (rm @ [u]) w' = Inr ((rm @ [u]) @ filter (failed ?h) us, h', w2)" "hub_ok h'"
          "\<forall>v. v \<notin> set (filter (failed ?h) us) \<longrightarrow> hub_meshConnections h' v = hub_meshConnections ?h v"
        using Cons.IH [OF ok] Cons.prems(2) by (meson distinct.simps(2))
      then show ?thesis using Some errs cl u same fu by auto
    qed
  qed
qed

lemma removals_mesh: "hub_meshConnections (foldl hub_removeMeshConnection h us) u =
    (if u \<in> set us then None else hub_meshConnections h u)"
  by (induction us arbitrary: h) (auto simp: hub_removeMeshConnection_def)

lemma scan_pass_result:
  assumes "hub_ok h" and "distinct us" and "set us = dom (hub_meshConnections h)"
  obtains h' w' where "scan_pass ops h us w = Inr (h', w')" and "hub_ok h'"
    and "\<And>u. hub_meshConnections h' u = (if failed h u then None else hub_meshConnections h u)"
proof -
  obtain h1 w1 where sl: "scan_loop ops h us [] w = Inr (filter (failed h) us, h1, w1)" "hub_ok h1"
      "\<forall>u. u \<notin> set (filter (failed h) us) \<longrightarrow> hub_meshConnections h1 u = hub_meshConnections h u"
    using scan_loop_result [OF assms(1,2), of ops "[]" w] by auto
  have "failed h u \<longleftrightarrow> u \<in> set (filter (failed h) us)" for u
    using assms(3) by (auto simp: failed_def split: option.splits)
  then have "hub_meshConnections (foldl hub_removeMeshConnection h1 (filter (failed h) us)) u =
      (if failed h u then None else hub_meshConnections h u)" for u
    unfolding removals_mesh using sl(3) by auto
  with removals_ok [OF sl(2)] that sl(1) show thesis by (simp add: scan_pass_def)
qed

text \<open>Tunnelling: the rest of the program leaves the balancers and the working connections alone.\<close>

text \<open>The polling of \<open>withdraw\<close>, when each done channel gets at most one value.\<close>

definition done_count :: "(uuid \<Rightarrow> bool) list \<Rightarrow> uuid \<Rightarrow> nat" where
  "done_count rounds u = length (filter (\<lambda>ready. ready u) rounds)"

lemma sum_filter_length: "distinct us \<Longrightarrow> length (filter P us) = (\<Sum>u\<in>set us. if P u then 1 else (0::nat))"
  by (induction us) auto

lemma done_total:
  assumes "distinct us"
  shows "(\<Sum>u\<in>set us. done_count (r # rs) u) = length (filter r us) + (\<Sum>u\<in>set us. done_count rs u)"
  unfolding sum_filter_length [OF assms] sum.distrib [symmetric]
  by (rule sum.cong) (auto simp: done_count_def)

lemma withdraw_wait_total:
  assumes "distinct us" and "rounds \<noteq> []" and "(\<Sum>u\<in>set us. done_count rounds u) \<le> n"
  shows "withdraw_wait us (int n) rounds \<longleftrightarrow> (\<Sum>u\<in>set us. done_count rounds u) = n"
  using assms(2,3)
proof (induction rounds arbitrary: n)
  case Nil
  then show ?case by simp
next
  case (Cons r rs)
  have tot: "(\<Sum>u\<in>set us. done_count (r # rs) u) = length (filter r us) + (\<Sum>u\<in>set us. done_count rs u)"
    by (rule done_total [OF assms(1)])
  with Cons.prems(2) have le: "length (filter r us) \<le> n" by simp
  then have cnt: "int n - int (length (filter r us)) = int (n - length (filter r us))" by simp
  show ?case
  proof (cases "rs = []")
    case True
    then have "(\<Sum>u\<in>set us. done_count rs u) = 0" by (simp add: done_count_def)
    with True tot show ?thesis by (auto simp: Let_def)
  next
    case False
    show ?thesis
    proof (cases "n = length (filter r us)")
      case True
      then show ?thesis using tot Cons.prems(2) by (simp add: Let_def)
    next
      case neq: False
      have pos: "n - length (filter r us) \<noteq> 0" using neq le by simp
      have "withdraw_wait us (int n) (r # rs) = withdraw_wait us (int (n - length (filter r us))) rs"
        by (simp only: withdraw_wait.simps Let_def cnt of_nat_eq_0_iff pos if_False)
      also have "\<dots> = ((\<Sum>u\<in>set us. done_count rs u) = n - length (filter r us))"
        by (rule Cons.IH [OF False]) (use tot Cons.prems(2) in linarith)
      also have "\<dots> = (length (filter r us) + (\<Sum>u\<in>set us. done_count rs u) = n)" using le by arith
      finally show ?thesis by (simp only: tot)
    qed
  qed
qed

end
