(* ===== verification/Hub_Properties.thy ===== *)
theory Hub_Properties
  imports Hub_Mesh
begin

text \<open>
  The properties of the hub that span its operations, and a small network to try them on: every
  send succeeds, every peer answers a handshake with the same acknowledgement, and the world is
  the set of connections that have been closed.
\<close>

definition sample_conn :: "transportHandshakeAck \<Rightarrow> transportHandshake \<Rightarrow> (nat, nat set) connection" where
  "sample_conn ack hs =
     \<lparr>co_SendMsg = (\<lambda>_ _ w. (None, w)), co_ReadMsg = (\<lambda>_ w. ((None, None, Some ErrConnectionClosed), w)),
      co_OutgoingHandshake = (\<lambda>_ _ w. ((Some ack, None), w)),
      co_IncomingHandshake = (\<lambda>_ _ w. ((Some hs, None), w)),
      co_SendWithdraw = (\<lambda>_ _ w. (None, w)), co_Close = (\<lambda>c w. (None, insert c w))\<rparr>"

definition sample_mesh :: "(nat, nat set) meshTransport" where
  "sample_mesh = \<lparr>mt_Connect = (\<lambda>_ w. (Inr 0, w))\<rparr>"

definition sample_ack :: transportHandshakeAck where
  "sample_ack = \<lparr>ack_Accept = True, ack_UUID = ''b'', ack_BelongsTo = ''*'', ack_Interests = [''cap'']\<rparr>"

abbreviation sample_ops :: "(nat, nat set) connection" where
  "sample_ops \<equiv> sample_conn sample_ack \<lparr>hs_UUID = ''b'', hs_BelongsTo = ''*'', hs_Interests = [''cap'']\<rparr>"

text \<open>A hub that has dialled the peer \<open>''b''\<close>, which advertises the capability \<open>''cap''\<close>.\<close>

definition sample_hub :: "(nat, nat) hub" where
  "sample_hub = hub_addConnection (new_hub ''a'' ''*'' []) 0 ''b'' ''*'' [''cap'']"

lemma sample_reach:
  "reach hub_init (hub_step sample_ops (Some sample_mesh)) (sample_hub, {})"
proof -
  let ?h = "new_hub ''a'' ''*'' [] :: (nat, nat) hub"
  have "reach hub_init (hub_step sample_ops (Some sample_mesh)) (?h, {})"
    by (rule reach_init) (auto simp: hub_init_def)
  moreover have "hub_connectEndpoint sample_ops (Some sample_mesh) ?h ''e'' '''' {} = Inr (None, sample_hub, {})"
    by (simp add: hub_connectEndpoint_def sample_mesh_def hub_setupOutgoingConnection_def sample_conn_def
        sample_ack_def hub_setupNewConnection_def hub_findConnection_def sample_hub_def Let_def) (simp add: new_hub_def)
  then have "hub_step sample_ops (Some sample_mesh) (?h, {}) (sample_hub, {})"
    by (rule hub_step.endpoint)
  ultimately show ?thesis by (rule reach_step)
qed

lemma sample_handler:
  "hub_meshConnections sample_hub = [''b'' \<mapsto>
     \<lparr>ch_UUID = ''b'', ch_Conn = Some 0, ch_Signaler = NewSignaler, ch_ErrChan = [],
      ch_BelongsTo = ''*'', ch_Interests = [''cap'']\<rparr>]"
  by (simp add: sample_hub_def) (simp add: new_hub_def)

lemma sample_balancer:
  "hub_capabilityBalancers sample_hub ''cap'' = Some \<lparr>bal_uuids = [''b''], bal_index = 0\<rparr>"
  by (simp add: sample_hub_def hub_addConnection_def add_capability_balancers new_hub_def NewBalancer_def
      Balancer_Add_def Let_def)

section \<open>Properties\<close>

text \<open>One handshake, over a transport that carries it faithfully, between two hubs
  that do not know each other: the dialling hub and the answering hub agree on the outcome.
  Both get the connection exactly when the dialling node belongs to the same group as the
  answering one or to \<open>*\<close>; so a node of a group that dials a node of \<open>*\<close> is refused, although
  the same two nodes connect when the other one dials.\<close>

theorem dial_agreement:
  assumes "co_OutgoingHandshake ops conn (own_handshake hA) w = ((Some (handshake_callback hB (own_handshake hA)), None), w1)"
    and "co_IncomingHandshake ops conn (handshake_callback hB) w = ((Some (own_handshake hA), None), w1)"
    and "hub_nodeUUID hA \<noteq> ''''" and "hub_nodeUUID hB \<noteq> ''''" and "uuid \<in> {'''', hub_nodeUUID hB}"
    and "hub_findConnection hA (hub_nodeUUID hB) = None" and "hub_findConnection hB (hub_nodeUUID hA) = None"
  shows "\<exists>hA' wA hB' wB. hub_setupOutgoingConnection ops hA conn uuid w = Inr (hA', wA)
    \<and> hub_handleIncomingConnection ops hB conn w = (hB', wB)
    \<and> (if hub_belongsTo hA \<in> {hub_belongsTo hB, ''*''}
       then hub_findConnection hA' (hub_nodeUUID hB) = Some conn \<and> hub_findConnection hB' (hub_nodeUUID hA) = Some conn
          \<and> wA = w1 \<and> wB = w1
       else hA' = hA \<and> hB' = hB \<and> wA = snd (co_Close ops conn w1) \<and> wB = snd (co_Close ops conn w1))"
proof -
  let ?ack = "handshake_callback hB (own_handshake hA)"
  have ack: "ack_UUID ?ack = hub_nodeUUID hB" "ack_Accept ?ack = (hub_belongsTo hA \<in> {hub_belongsTo hB, ''*''})"
    by (auto simp: handshake_callback_def own_handshake_def)
  have hs: "hs_UUID (own_handshake hA) = hub_nodeUUID hA" "hs_BelongsTo (own_handshake hA) = hub_belongsTo hA"
    by (simp_all add: own_handshake_def)
  have out: "hub_setupOutgoingConnection ops hA conn uuid w =
      Inr (if ack_Accept ?ack then hub_setupNewConnection ops hA conn (ack_UUID ?ack) (ack_BelongsTo ?ack) (ack_Interests ?ack) w1
         else (hA, snd (co_Close ops conn w1)))"
    by (rule outgoing_accepted [OF assms(1)]) (use assms(4,5) ack(1) in simp_all)
  have inc: "hub_handleIncomingConnection ops hB conn w =
      (if hub_belongsTo hA \<in> {hub_belongsTo hB, ''*''}
       then hub_setupNewConnection ops hB conn (hub_nodeUUID hA) (hub_belongsTo hA) (hs_Interests (own_handshake hA)) w1
       else (hB, snd (co_Close ops conn w1)))"
    by (rule incoming_read [OF assms(2), unfolded hs, OF assms(3)])
  show ?thesis
    using out inc ack assms(6,7) by (simp add: find_add(2))
qed

theorem dial_agreement_witness:
  "let hA = (new_hub ''a'' ''g'' [] :: (nat, nat) hub); hB = (new_hub ''b'' ''*'' [] :: (nat, nat) hub);
       dial = (\<lambda>x y. sample_conn (handshake_callback y (own_handshake x)) (own_handshake x))
   in (\<exists>wA. hub_setupOutgoingConnection (dial hA hB) hA 0 '''' {} = Inr (hA, wA) \<and> 0 \<in> wA)
    \<and> (\<exists>hB' w. hub_setupOutgoingConnection (dial hB hA) hB 0 '''' {} = Inr (hB', w)
         \<and> hub_findConnection hB' ''a'' = Some 0)"
proof -
  let ?hA = "new_hub ''a'' ''g'' [] :: (nat, nat) hub" and ?hB = "new_hub ''b'' ''*'' [] :: (nat, nat) hub"
  let ?dial = "\<lambda>x y. sample_conn (handshake_callback y (own_handshake x)) (own_handshake x)"
  have names: "hub_nodeUUID ?hA = ''a''" "hub_nodeUUID ?hB = ''b''" "hub_belongsTo ?hA = ''g''" "hub_belongsTo ?hB = ''*''"
    "hub_findConnection ?hA u = None" "hub_findConnection ?hB u = None" for u
    by (simp_all add: new_hub_def hub_findConnection_def)
  have carries: "co_OutgoingHandshake (?dial x y) 0 (own_handshake x) {} = ((Some (handshake_callback y (own_handshake x)), None), {})"
    "co_IncomingHandshake (?dial x y) 0 (handshake_callback y) {} = ((Some (own_handshake x), None), {})" for x y :: "(nat, nat) hub"
    by (simp_all add: sample_conn_def)
  have "\<exists>wA. hub_setupOutgoingConnection (?dial ?hA ?hB) ?hA 0 '''' {} = Inr (?hA, wA) \<and> 0 \<in> wA"
    using dial_agreement [OF carries [of ?hB ?hA], where uuid = "''''"] by (simp add: names) (simp add: sample_conn_def)
  moreover have "\<exists>hB' w. hub_setupOutgoingConnection (?dial ?hB ?hA) ?hB 0 '''' {} = Inr (hB', w)
      \<and> hub_findConnection hB' ''a'' = Some 0"
    using dial_agreement [OF carries [of ?hA ?hB], where uuid = "''''"] by (auto simp: names)
  ultimately show ?thesis by (simp add: Let_def)
qed

text \<open>Property C35. Two nodes that dial each other at the same time can end without a connection: if
  each has answered the other's handshake before it finishes its own, each finds the other
  already connected and closes the connection it dialled, so both connections are closed,
  and each hub keeps one of the closed ones as its connection to the other.\<close>

theorem mutual_dial_closes_both:
  assumes "hub_nodeUUID hA \<noteq> ''''" and "hub_nodeUUID hB \<noteq> ''''" and "hub_belongsTo hA = hub_belongsTo hB"
    and "hub_findConnection hA (hub_nodeUUID hB) = None" and "hub_findConnection hB (hub_nodeUUID hA) = None"
    and "\<And>w. co_IncomingHandshake ops c1 (handshake_callback hB) w = ((Some (own_handshake hA), None), w)"
    and "\<And>w. co_IncomingHandshake ops c2 (handshake_callback hA) w = ((Some (own_handshake hB), None), w)"
    and "\<And>w. co_OutgoingHandshake ops c1 (own_handshake hA) w = ((Some (handshake_callback hB (own_handshake hA)), None), w)"
    and "\<And>w. co_OutgoingHandshake ops c2 (own_handshake hB) w = ((Some (handshake_callback hA (own_handshake hB)), None), w)"
    and "\<And>c w. co_Close ops c w = (None, insert c w)"
  shows "\<exists>hA' hB'. hub_handleIncomingConnection ops hB c1 {} = (hB', {})
    \<and> hub_handleIncomingConnection ops hA c2 {} = (hA', {})
    \<and> hub_setupOutgoingConnection ops hA' c1 (hub_nodeUUID hB) {} = Inr (hA', {c1})
    \<and> hub_setupOutgoingConnection ops hB' c2 (hub_nodeUUID hA) {c1} = Inr (hB', {c1, c2})
    \<and> hub_findConnection hA' (hub_nodeUUID hB) = Some c2 \<and> hub_findConnection hB' (hub_nodeUUID hA) = Some c1"
proof -
  let ?hA = "hub_addConnection hA c2 (hub_nodeUUID hB) (hub_belongsTo hB) (hub_interests hB)"
  let ?hB = "hub_addConnection hB c1 (hub_nodeUUID hA) (hub_belongsTo hA) (hub_interests hA)"
  have hs: "hs_UUID (own_handshake h) = hub_nodeUUID h" "hs_BelongsTo (own_handshake h) = hub_belongsTo h"
    "hs_Interests (own_handshake h) = hub_interests h" for h :: "('d, 'e) hub"
    by (simp_all add: own_handshake_def)
  have ack: "ack_UUID (handshake_callback h hsk) = hub_nodeUUID h" for h :: "('d, 'e) hub" and hsk
    by (simp add: handshake_callback_def)
  have out1: "co_OutgoingHandshake ops c1 (own_handshake ?hA) {} = ((Some (handshake_callback hB (own_handshake hA)), None), {})"
    using assms(8) by simp
  have out2: "co_OutgoingHandshake ops c2 (own_handshake ?hB) {c1} = ((Some (handshake_callback hA (own_handshake hB)), None), {c1})"
    using assms(9) by simp
  have close: "snd (co_Close ops c1 {}) = {c1}" "snd (co_Close ops c2 {c1}) = {c1, c2}"
    by (simp_all only: assms(10) snd_conv insert_commute)
  have "hub_handleIncomingConnection ops hB c1 {} = (?hB, {})"
    using incoming_read [OF assms(6)] assms(1,3,5) by (simp add: hs find_add(2))
  moreover have "hub_handleIncomingConnection ops hA c2 {} = (?hA, {})"
    using incoming_read [OF assms(7)] assms(2-4) by (simp add: hs find_add(2))
  moreover have "hub_setupOutgoingConnection ops ?hA c1 (hub_nodeUUID hB) {} = Inr (?hA, {c1})"
    using outgoing_accepted [OF out1, of "hub_nodeUUID hB"] assms(2) by (simp add: ack find_add(1) close)
  moreover have "hub_setupOutgoingConnection ops ?hB c2 (hub_nodeUUID hA) {c1} = Inr (?hB, {c1, c2})"
    using outgoing_accepted [OF out2, of "hub_nodeUUID hA"] assms(1) by (simp add: ack find_add(1) close)
  ultimately show ?thesis by (intro exI [of _ ?hA] exI [of _ ?hB]) simp
qed

theorem mutual_dial_closes_both_witness:
  "\<exists>ops :: (nat, nat set) connection. \<exists>hA' hB'.
     hub_handleIncomingConnection ops (new_hub ''b'' ''*'' []) 1 {} = (hB', {})
   \<and> hub_handleIncomingConnection ops (new_hub ''a'' ''*'' []) 2 {} = (hA', {})
   \<and> hub_setupOutgoingConnection ops hA' 1 ''b'' {} = Inr (hA', {1})
   \<and> hub_setupOutgoingConnection ops hB' 2 ''a'' {1} = Inr (hB' :: (nat, nat) hub, {1, 2})
   \<and> hub_findConnection (hA' :: (nat, nat) hub) ''b'' = Some 2 \<and> hub_findConnection hB' ''a'' = Some 1"
proof -
  let ?hA = "new_hub ''a'' ''*'' [] :: (nat, nat) hub" and ?hB = "new_hub ''b'' ''*'' [] :: (nat, nat) hub"
  let ?ops = "(sample_conn sample_ack (own_handshake ?hA))\<lparr>
      co_IncomingHandshake := (\<lambda>c _ w. ((Some (if c = 1 then own_handshake ?hA else own_handshake ?hB), None), w)),
      co_OutgoingHandshake := (\<lambda>c hs w. ((Some (if c = 1 then handshake_callback ?hB hs else handshake_callback ?hA hs), None), w))\<rparr>"
  have n: "hub_nodeUUID ?hA = ''a''" "hub_nodeUUID ?hB = ''b''" "hub_belongsTo ?hA = hub_belongsTo ?hB"
    "hub_findConnection ?hA u = None" "hub_findConnection ?hB u = None" for u
    by (simp_all add: new_hub_def hub_findConnection_def)
  have "\<exists>hA' hB'. hub_handleIncomingConnection ?ops ?hB 1 {} = (hB', {})
    \<and> hub_handleIncomingConnection ?ops ?hA 2 {} = (hA', {})
    \<and> hub_setupOutgoingConnection ?ops hA' 1 (hub_nodeUUID ?hB) {} = Inr (hA', {1})
    \<and> hub_setupOutgoingConnection ?ops hB' 2 (hub_nodeUUID ?hA) {1} = Inr (hB', {1, 2})
    \<and> hub_findConnection hA' (hub_nodeUUID ?hB) = Some 2 \<and> hub_findConnection hB' (hub_nodeUUID ?hA) = Some 1"
    by (rule mutual_dial_closes_both) (simp_all add: n sample_conn_def)
  then show ?thesis unfolding n by blast
qed

text \<open>Property C37. Without a node that ever advertised the capability a tunnel fails with the error
  for it; but once such nodes have been connected and all of them are gone again, the balancer
  is still there and empty, and the tunnel panics instead.\<close>

theorem tunnel_panics_without_providers:
  assumes "reach hub_init (hub_step ops mesh) (h, w)"
    and "\<And>u c. hub_meshConnections h u = Some c \<Longrightarrow> cap \<notin> set (ch_Interests c)"
  shows "hub_sendTunneledMessage ops env h cap msg w =
    (if hub_capabilityBalancers h cap = None then Some (Inr (Some ErrTunnelNotEstablished, h, w)) else Some (Inl IndexOutOfRange))"
proof (cases "hub_capabilityBalancers h cap")
  case None
  then show ?thesis by (simp add: hub_sendTunneledMessage_def)
next
  case (Some b)
  have ok: "hub_ok h" using hubsys.inv_reach [OF assms(1)] by simp
  have "count_list (bal_uuids b) u = 0" for u
    using hub_ok_balancer [OF ok Some] assms(2) by (auto simp: advertised_def count_list_0_iff split: option.split)
  then have "bal_uuids b = []" by (metis count_list_0_iff list.set_intros(1) neq_Nil_conv)
  then have "tunnel_try ops h cap msg w = Inl IndexOutOfRange"
    using Some by (simp add: tunnel_try_def Balancer_Next_empty)
  moreover obtain n where n: "tunnelRetryCount = Suc n" by (simp add: tunnelRetryCount_def)
  ultimately show ?thesis using Some by (simp add: hub_sendTunneledMessage_def n)
qed

theorem tunnel_panics_without_providers_witness:
  "\<exists>(h :: (nat, nat) hub) w. reach hub_init (hub_step sample_ops (Some sample_mesh)) (h, w)
     \<and> hub_sendTunneledMessage sample_ops Some h ''cap'' (NewMsg ''u'' 0 ''t'' []) w = Some (Inl IndexOutOfRange)"
proof -
  let ?c = "\<lparr>ch_UUID = ''b'', ch_Conn = Some 0, ch_Signaler = NewSignaler, ch_ErrChan = [],
      ch_BelongsTo = ''*'', ch_Interests = [''cap'']\<rparr> :: nat connectionHandler"
  let ?h1 = "sample_hub\<lparr>hub_meshConnections := (hub_meshConnections sample_hub)(''b'' \<mapsto> ?c\<lparr>ch_ErrChan := [ErrConnectionClosed]\<rparr>)\<rparr>"
  let ?h2 = "hub_removeMeshConnection (?h1\<lparr>hub_meshConnections := (hub_meshConnections ?h1)(''b'' \<mapsto> ?c)\<rparr>) ''b''"
  have "hub_step sample_ops (Some sample_mesh) (sample_hub, {}) (?h1, {})"
    by (rule hub_step.handler [of _ _ ?c]) (simp_all add: sample_handler same_handler_def)
  with sample_reach have r1: "reach hub_init (hub_step sample_ops (Some sample_mesh)) (?h1, {})" by (rule reach_step)
  have "scan_pass sample_ops ?h1 [''b''] {} = Inr (?h2, {0})"
    by (simp add: scan_pass_def sample_handler connectionHandler_Close_def) (simp add: sample_conn_def)
  then have "hub_step sample_ops (Some sample_mesh) (?h1, {}) (?h2, {0})" by (rule hub_step.scan)
  with r1 have r2: "reach hub_init (hub_step sample_ops (Some sample_mesh)) (?h2, {0})" by (rule reach_step)
  have none: "hub_meshConnections ?h2 = Map.empty"
    by (auto simp: hub_removeMeshConnection_def sample_handler)
  have some: "hub_capabilityBalancers ?h2 ''cap'' \<noteq> None"
    by (simp add: hub_removeMeshConnection_def sample_balancer)
  obtain h2 where h2: "h2 = ?h2" by simp
  have "hub_sendTunneledMessage sample_ops Some h2 ''cap'' (NewMsg ''u'' 0 ''t'' []) {0} =
      (if hub_capabilityBalancers h2 ''cap'' = None then Some (Inr (Some ErrTunnelNotEstablished, h2, {0})) else Some (Inl IndexOutOfRange))"
    by (rule tunnel_panics_without_providers [OF r2 [folded h2]]) (simp add: none [folded h2])
  with some [folded h2] have "hub_sendTunneledMessage sample_ops Some h2 ''cap'' (NewMsg ''u'' 0 ''t'' []) {0} = Some (Inl IndexOutOfRange)"
    by simp
  with r2 [folded h2] show ?thesis by blast
qed

text \<open>A broadcast goes to every connection whose peer has not withdrawn, each exactly
  once, in the order of the iteration, and changes nothing in the hub, if the sends succeed.\<close>

theorem broadcast_reaches_all:
  assumes "reach hub_init (hub_step ops mesh) (h, w)" and "set us = dom (hub_meshConnections h)"
    and "\<And>conn w. fst (co_SendMsg ops conn msg w) = None"
  shows "hub_messageHandler ops h us msg w = Inr (None, h, foldl (send_to ops h msg) w (filter (active h) us))"
proof -
  have "hub_ok h" using hubsys.inv_reach [OF assms(1)] by simp
  then show ?thesis by (rule messageHandler_all) (use assms(2,3) in auto)
qed

theorem broadcast_reaches_all_witness:
  "hub_messageHandler sample_ops sample_hub [''b''] (NewMsg ''u'' 0 ''t'' []) {} =
     Inr (None, sample_hub, send_to sample_ops sample_hub (NewMsg ''u'' 0 ''t'' []) {} ''b'')"
proof -
  have "hub_messageHandler sample_ops sample_hub [''b''] (NewMsg ''u'' 0 ''t'' []) {} =
      Inr (None, sample_hub, foldl (send_to sample_ops sample_hub (NewMsg ''u'' 0 ''t'' [])) {} (filter (active sample_hub) [''b'']))"
    by (rule broadcast_reaches_all [OF sample_reach]) (simp_all add: sample_handler sample_conn_def)
  moreover have "active sample_hub ''b''"
    by (simp add: active_def sample_handler Signaler_PeerWithdrawn_def NewSignaler_def)
  ultimately show ?thesis by simp
qed

text \<open>Property C38. One scan takes out exactly the connections that reported an error or whose peer
  has withdrawn: they leave the map and every balancer, and all others stay as they were. It
  never panics.\<close>

theorem scan_removes_failed:
  assumes "reach hub_init (hub_step ops mesh) (h, w)" and "distinct us" and "set us = dom (hub_meshConnections h)"
  shows "\<exists>h' w'. scan_pass ops h us w = Inr (h', w')
    \<and> (\<forall>u. hub_meshConnections h' u = (if failed h u then None else hub_meshConnections h u))
    \<and> (\<forall>cap b u. hub_capabilityBalancers h' cap = Some b \<and> failed h u \<longrightarrow> u \<notin> set (bal_uuids b))"
proof -
  have ok: "hub_ok h" using hubsys.inv_reach [OF assms(1)] by simp
  obtain h' w' where h': "scan_pass ops h us w = Inr (h', w')" "hub_ok h'"
      "\<And>u. hub_meshConnections h' u = (if failed h u then None else hub_meshConnections h u)"
    by (rule scan_pass_result [OF ok assms(2,3), of ops w]) blast
  have "u \<notin> set (bal_uuids b)" if "hub_capabilityBalancers h' cap = Some b" "failed h u" for cap b u
  proof -
    have "count_list (bal_uuids b) u = advertised h' cap u"
      using hub_ok_balancer [OF h'(2) that(1)] by simp
    also have "\<dots> = 0" using h'(3) [of u] that(2) by (simp add: advertised_def)
    finally show ?thesis by (simp add: count_list_0_iff)
  qed
  with h' show ?thesis by blast
qed

theorem scan_removes_failed_witness:
  "\<exists>h' w'. scan_pass sample_ops sample_hub [''b''] {} = Inr (h', w')
     \<and> hub_meshConnections h' ''b'' = hub_meshConnections sample_hub ''b''"
proof -
  have "distinct [''b'']" "set [''b''] = dom (hub_meshConnections sample_hub)" by (simp_all add: sample_handler)
  moreover have "\<not> failed sample_hub ''b''"
    by (simp add: failed_def sample_handler Signaler_PeerWithdrawn_def NewSignaler_def)
  ultimately show ?thesis using scan_removes_failed [OF sample_reach, of "[''b'']"] by fastforce
qed

text \<open>When each connection reports its withdraw as done at most once, \<open>Withdraw\<close>
  returns without an error exactly if every connection has reported before the timeout, in
  whatever rounds the polling goroutine saw them; otherwise it returns the timeout error.\<close>

theorem withdraw_waits_for_all:
  assumes "distinct us" and "rounds \<noteq> []" and "\<And>u. u \<in> set us \<Longrightarrow> done_count rounds u \<le> 1"
    and "signal_all h us = Some (Inr h')"
  shows "\<exists>w'. hub_withdraw stop h us rounds w =
    Some (Inr (if \<forall>u \<in> set us. \<exists>ready \<in> set rounds. ready u then None else Some ErrWaitTimeout, h', w'))"
proof -
  let ?S = "\<Sum>u\<in>set us. done_count rounds u"
  have card: "length us = (\<Sum>u\<in>set us. (1 :: nat))" using assms(1) by (simp add: distinct_card)
  then have le: "?S \<le> length us" using assms(3) by (simp only: card sum_mono)
  have "withdraw_wait us (int (length us)) rounds \<longleftrightarrow> ?S = length us"
    by (rule withdraw_wait_total [OF assms(1,2) le])
  also have "\<dots> \<longleftrightarrow> (\<forall>u \<in> set us. done_count rounds u = 1)"
  proof
    assume "?S = length us"
    show "\<forall>u \<in> set us. done_count rounds u = 1"
    proof (rule ccontr)
      assume "\<not> (\<forall>u \<in> set us. done_count rounds u = 1)"
      then obtain u where "u \<in> set us" "done_count rounds u < 1" using assms(3) by (metis nat_less_le)
      then have "?S < (\<Sum>u\<in>set us. (1 :: nat))" using assms(3) by (intro sum_strict_mono_ex1) auto
      with \<open>?S = length us\<close> card show False by simp
    qed
  qed (use card in simp)
  also have "\<dots> \<longleftrightarrow> (\<forall>u \<in> set us. \<exists>ready \<in> set rounds. ready u)"
  proof (rule ball_cong [OF refl])
    fix u assume "u \<in> set us"
    with assms(3) have "done_count rounds u = 1 \<longleftrightarrow> done_count rounds u \<noteq> 0" by fastforce
    also have "\<dots> \<longleftrightarrow> (\<exists>ready \<in> set rounds. ready u)" by (auto simp: done_count_def filter_empty_conv)
    finally show "(done_count rounds u = 1) = (\<exists>ready \<in> set rounds. ready u)" .
  qed
  finally show ?thesis using assms(4) by (simp add: hub_withdraw_def Let_def)
qed

theorem withdraw_waits_for_all_witness:
  "\<exists>h' w'. hub_withdraw None sample_hub [''b''] [\<lambda>_. False, \<lambda>u. u = ''b'', \<lambda>_. False] ({} :: nat set) =
     Some (Inr (None, h', w'))"
proof -
  let ?rounds = "[\<lambda>_. False, \<lambda>u. u = ''b'', \<lambda>_. False]"
  obtain h' where h': "signal_all sample_hub [''b''] = Some (Inr h')"
    by (simp add: sample_handler Signaler_Signal_def NewSignaler_def)
  have "\<exists>w'. hub_withdraw None sample_hub [''b''] ?rounds ({} :: nat set) =
      Some (Inr (if \<forall>u \<in> set [''b'']. \<exists>ready \<in> set ?rounds. ready u then None else Some ErrWaitTimeout, h', w'))"
    by (rule withdraw_waits_for_all [OF _ _ _ h']) (simp_all add: done_count_def)
  then show ?thesis by auto
qed

end
