(* ===== verification/Hub_Deadlock.thy ===== *)
theory Hub_Deadlock
  imports Hub_Properties
begin

text \<open>
  The hub's goroutines and its lock, step by step: the handler goroutines that run
  \<open>messageHandler\<close> with the read lock held, the reading goroutines of the connections, and the
  scanner of \<open>scanFailedMeshConnections\<close>, which takes the write lock in
  \<open>removeMeshConnection\<close>. A goroutine that offers an error on the unbuffered \<open>ErrChan\<close> of a
  connection waits for the scanner; a pending \<open>Lock\<close> keeps new readers out. A peer that has
  withdrawn is not sent to any more, and the scanner takes its connection out. The scanner's look at the map of
  connections, which takes no lock, is one step. Proved are that these steps are those of the hub's functions,
  and that a connection that breaks during a broadcast can block the hub forever.
\<close>

section \<open>States and steps\<close>

datatype sender =
    SndWait
  | SndHolding "uuid list"
  | SndBlocked uuid "uuid list"
  | SndDone

text \<open>The scanner: asleep; in its loop, with the connections left and those to remove; removing.\<close>

datatype scanner =
    ScSleep
  | ScScan "uuid list" "uuid list"
  | ScLock "uuid list"

record hub_locks =
  hl_conns :: "uuid set"
  hl_failing :: "uuid set"
  hl_readers :: "uuid set"
  hl_withdrawn :: "uuid set"
  hl_senders :: "sender list"
  hl_scanner :: scanner

fun holds_read :: "sender \<Rightarrow> bool" where
  "holds_read (SndHolding _) = True"
| "holds_read (SndBlocked _ _) = True"
| "holds_read _ = False"

definition blocked_on :: "hub_locks \<Rightarrow> uuid \<Rightarrow> bool" where
  "blocked_on s u \<longleftrightarrow> u \<in> hl_readers s \<or> (\<exists>us. SndBlocked u us \<in> set (hl_senders s))"

inductive lock_step :: "hub_locks \<Rightarrow> hub_locks \<Rightarrow> bool" where
  message: "lock_step s (s\<lparr>hl_senders := hl_senders s @ [SndWait]\<rparr>)"
| rlock: "k < length (hl_senders s) \<Longrightarrow> hl_senders s ! k = SndWait \<Longrightarrow> (\<forall>rm. hl_scanner s \<noteq> ScLock rm) \<Longrightarrow>
     set us = hl_conns s \<Longrightarrow> distinct us \<Longrightarrow>
     lock_step s (s\<lparr>hl_senders := (hl_senders s)[k := SndHolding us]\<rparr>)"
| send: "k < length (hl_senders s) \<Longrightarrow> hl_senders s ! k = SndHolding (u # us) \<Longrightarrow>
     u \<in> hl_withdrawn s \<or> u \<notin> hl_failing s \<Longrightarrow>
     lock_step s (s\<lparr>hl_senders := (hl_senders s)[k := SndHolding us]\<rparr>)"
| send_fails: "k < length (hl_senders s) \<Longrightarrow> hl_senders s ! k = SndHolding (u # us) \<Longrightarrow>
     u \<notin> hl_withdrawn s \<Longrightarrow> u \<in> hl_failing s \<Longrightarrow>
     lock_step s (s\<lparr>hl_senders := (hl_senders s)[k := SndBlocked u us]\<rparr>)"
| sent: "k < length (hl_senders s) \<Longrightarrow> hl_senders s ! k = SndHolding [] \<Longrightarrow>
     lock_step s (s\<lparr>hl_senders := (hl_senders s)[k := SndDone]\<rparr>)"
| breaks: "lock_step s (s\<lparr>hl_failing := insert u (hl_failing s)\<rparr>)"
| read_fails: "u \<in> hl_conns s \<Longrightarrow> u \<in> hl_failing s \<Longrightarrow>
     lock_step s (s\<lparr>hl_readers := insert u (hl_readers s)\<rparr>)"
| withdraws: "lock_step s (s\<lparr>hl_withdrawn := insert u (hl_withdrawn s)\<rparr>)"
| scan: "hl_scanner s = ScSleep \<Longrightarrow> set us = hl_conns s \<Longrightarrow> distinct us \<Longrightarrow>
     lock_step s (s\<lparr>hl_scanner := ScScan us []\<rparr>)"
| receive_reader: "hl_scanner s = ScScan (u # us) rm \<Longrightarrow> u \<in> hl_readers s \<Longrightarrow>
     lock_step s (s\<lparr>hl_readers := hl_readers s - {u}, hl_scanner := ScScan us (rm @ [u])\<rparr>)"
| receive_sender: "hl_scanner s = ScScan (u # us) rm \<Longrightarrow> k < length (hl_senders s) \<Longrightarrow>
     hl_senders s ! k = SndBlocked u vs \<Longrightarrow>
     lock_step s (s\<lparr>hl_senders := (hl_senders s)[k := SndHolding vs], hl_scanner := ScScan us (rm @ [u])\<rparr>)"
| peer_withdrawn: "hl_scanner s = ScScan (u # us) rm \<Longrightarrow> \<not> blocked_on s u \<Longrightarrow> u \<in> hl_withdrawn s \<Longrightarrow>
     lock_step s (s\<lparr>hl_scanner := ScScan us (rm @ [u])\<rparr>)"
| no_error: "hl_scanner s = ScScan (u # us) rm \<Longrightarrow> \<not> blocked_on s u \<Longrightarrow> u \<notin> hl_withdrawn s \<Longrightarrow>
     lock_step s (s\<lparr>hl_scanner := ScScan us rm\<rparr>)"
| scanned: "hl_scanner s = ScScan [] rm \<Longrightarrow>
     lock_step s (s\<lparr>hl_scanner := (if rm = [] then ScSleep else ScLock rm)\<rparr>)"
| remove: "hl_scanner s = ScLock (u # us) \<Longrightarrow> \<forall>x \<in> set (hl_senders s). \<not> holds_read x \<Longrightarrow>
     lock_step s (s\<lparr>hl_conns := hl_conns s - {u}, hl_scanner := (if us = [] then ScSleep else ScLock us)\<rparr>)"

section \<open>The blocked hub\<close>

text \<open>
  The scanner waits for the write lock, one sender waits for the scanner with the read lock
  held, and all other senders are waiting for the read lock.
\<close>

definition hub_blocked :: "hub_locks \<Rightarrow> bool" where
  "hub_blocked s \<longleftrightarrow> (\<exists>rm. hl_scanner s = ScLock rm) \<and> (\<exists>u us. SndBlocked u us \<in> set (hl_senders s))
     \<and> (\<forall>x \<in> set (hl_senders s). x = SndWait \<or> (\<exists>u us. x = SndBlocked u us))"

lemma blocked_step:
  "lock_step s t \<Longrightarrow> hub_blocked s \<Longrightarrow> hub_blocked t \<and> hl_conns t = hl_conns s"
proof (induction rule: lock_step.induct)
  case (remove s u us)
  then show ?case by (fastforce simp: hub_blocked_def)
next
  case (send k s u us)
  then have "SndHolding (u # us) \<in> set (hl_senders s)" by (metis nth_mem)
  with send show ?case by (fastforce simp: hub_blocked_def)
next
  case (send_fails k s u us)
  then have "SndHolding (u # us) \<in> set (hl_senders s)" by (metis nth_mem)
  with send_fails show ?case by (fastforce simp: hub_blocked_def)
next
  case (sent k s)
  then have "SndHolding [] \<in> set (hl_senders s)" by (metis nth_mem)
  with sent show ?case by (fastforce simp: hub_blocked_def)
qed (auto simp: hub_blocked_def)

lemma blocked_steps:
  "lock_step\<^sup>*\<^sup>* s t \<Longrightarrow> hub_blocked s \<Longrightarrow> hub_blocked t \<and> hl_conns t = hl_conns s"
  by (induction rule: rtranclp_induct) (auto dest: blocked_step)

text \<open>A scan of connections that nobody reports takes those whose peers have withdrawn.\<close>

lemma scan_past:
  assumes "hl_scanner s = ScScan us rm" and "\<forall>u \<in> set us. \<not> blocked_on s u"
  shows "lock_step\<^sup>*\<^sup>* s (s\<lparr>hl_scanner := ScScan [] (rm @ filter (\<lambda>u. u \<in> hl_withdrawn s) us)\<rparr>)"
  using assms
proof (induction us arbitrary: s rm)
  case Nil
  then have "s\<lparr>hl_scanner := ScScan [] rm\<rparr> = s" by simp
  then show ?case by simp
next
  case (Cons u us)
  let ?rm = "if u \<in> hl_withdrawn s then rm @ [u] else rm"
  let ?s = "s\<lparr>hl_scanner := ScScan us ?rm\<rparr>"
  have nb: "\<not> blocked_on s u" using Cons.prems(2) by simp
  have "lock_step s ?s"
    using lock_step.no_error [OF Cons.prems(1) nb] lock_step.peer_withdrawn [OF Cons.prems(1) nb] by simp
  moreover have "lock_step\<^sup>*\<^sup>* ?s (?s\<lparr>hl_scanner := ScScan [] (?rm @ filter (\<lambda>u. u \<in> hl_withdrawn ?s) us)\<rparr>)"
    by (rule Cons.IH) (use Cons.prems in \<open>auto simp: blocked_on_def\<close>)
  ultimately show ?case by (auto intro: converse_rtranclp_into_rtranclp)
qed

section \<open>The functions of the hub as runs of these steps\<close>

text \<open>What the locks see of a hub at rest: \<open>F\<close> are the connections that fail.\<close>

definition lock_view :: "uuid set \<Rightarrow> ('c, 'b) hub \<Rightarrow> hub_locks" where
  "lock_view F h =
     \<lparr>hl_conns = dom (hub_meshConnections h), hl_failing = F,
      hl_readers = {u. \<exists>c. hub_meshConnections h u = Some c \<and> ch_ErrChan c \<noteq> []},
      hl_withdrawn = {u. \<exists>c. hub_meshConnections h u = Some c \<and> Signaler_PeerWithdrawn (ch_Signaler c)},
      hl_senders = [], hl_scanner = ScSleep\<rparr>"

lemma scanner_scans:
  assumes "hl_scanner s = ScScan us rm" and "hl_senders s = []" and "distinct us"
  shows "lock_step\<^sup>*\<^sup>* s (s\<lparr>hl_readers := hl_readers s - set us,
    hl_scanner := ScScan [] (rm @ filter (\<lambda>u. u \<in> hl_readers s \<or> u \<in> hl_withdrawn s) us)\<rparr>)"
  using assms
proof (induction us arbitrary: s rm)
  case Nil
  then have "s\<lparr>hl_readers := hl_readers s - set [], hl_scanner := ScScan [] (rm @ [])\<rparr> = s" by simp
  then show ?case by simp
next
  case (Cons u us)
  let ?P = "\<lambda>s u. u \<in> hl_readers s \<or> u \<in> hl_withdrawn s"
  let ?t = "s\<lparr>hl_readers := hl_readers s - {u}, hl_scanner := ScScan us (rm @ (if ?P s u then [u] else []))\<rparr>"
  have step: "lock_step s ?t"
  proof (cases "u \<in> hl_readers s")
    case True
    with lock_step.receive_reader [OF Cons.prems(1) True] show ?thesis by simp
  next
    case False
    then have nb: "\<not> blocked_on s u" using Cons.prems(2) by (simp add: blocked_on_def)
    have "s\<lparr>hl_readers := hl_readers s - {u}\<rparr> = s" using False by simp
    with lock_step.no_error [OF Cons.prems(1) nb] lock_step.peer_withdrawn [OF Cons.prems(1) nb] False
    show ?thesis by (cases "u \<in> hl_withdrawn s") simp_all
  qed
  have same: "filter (?P ?t) us = filter (?P s) us" using Cons.prems(3) by (intro filter_cong) auto
  have "lock_step\<^sup>*\<^sup>* ?t (?t\<lparr>hl_readers := hl_readers ?t - set us,
      hl_scanner := ScScan [] ((rm @ (if ?P s u then [u] else [])) @ filter (?P ?t) us)\<rparr>)"
    by (rule Cons.IH) (use Cons.prems in simp_all)
  with step show ?case
    unfolding same by (auto simp: Diff_insert2 [symmetric] intro: converse_rtranclp_into_rtranclp)
qed

lemma scanner_removes:
  assumes "hl_scanner s = ScLock (u # us)" and "hl_senders s = []"
  shows "lock_step\<^sup>*\<^sup>* s (s\<lparr>hl_conns := hl_conns s - set (u # us), hl_scanner := ScSleep\<rparr>)"
  using assms
proof (induction us arbitrary: s u)
  case Nil
  with lock_step.remove [OF Nil(1)] show ?case by simp
next
  case (Cons v us)
  let ?t = "s\<lparr>hl_conns := hl_conns s - {u}, hl_scanner := ScLock (v # us)\<rparr>"
  have "lock_step s ?t" using lock_step.remove [OF Cons.prems(1)] Cons.prems(2) by simp
  moreover have "lock_step\<^sup>*\<^sup>* ?t (?t\<lparr>hl_conns := hl_conns ?t - set (v # us), hl_scanner := ScSleep\<rparr>)"
    by (rule Cons.IH) (use Cons.prems(2) in simp_all)
  ultimately show ?case by (auto simp: Diff_insert2 [symmetric] intro: converse_rtranclp_into_rtranclp)
qed

text \<open>The scanner alone: it goes once over the connections and back to sleep.\<close>

lemma scanner_alone:
  assumes "hl_scanner s = ScSleep" and "hl_senders s = []" and "set us = hl_conns s" and "distinct us"
    and "hl_readers s \<subseteq> hl_conns s" and "hl_withdrawn s \<subseteq> hl_conns s"
  shows "lock_step\<^sup>*\<^sup>* s (s\<lparr>hl_conns := hl_conns s - (hl_readers s \<union> hl_withdrawn s), hl_readers := {}\<rparr>)"
proof -
  let ?P = "\<lambda>u. u \<in> hl_readers s \<or> u \<in> hl_withdrawn s"
  let ?rm = "filter ?P us"
  let ?s1 = "s\<lparr>hl_scanner := ScScan us []\<rparr>"
  let ?s2 = "s\<lparr>hl_readers := {}, hl_scanner := ScScan [] ?rm\<rparr>"
  let ?s3 = "?s2\<lparr>hl_scanner := (if ?rm = [] then ScSleep else ScLock ?rm)\<rparr>"
  let ?t = "s\<lparr>hl_conns := hl_conns s - (hl_readers s \<union> hl_withdrawn s), hl_readers := {}\<rparr>"
  have rm: "set ?rm = hl_readers s \<union> hl_withdrawn s" using assms(3,5,6) by auto
  have "lock_step s ?s1" by (rule lock_step.scan [OF assms(1,3,4)])
  moreover have all: "hl_readers s - set us = {}" using assms(3,5) by auto
  have "lock_step\<^sup>*\<^sup>* ?s1 ?s2" using scanner_scans [of ?s1 us "[]"] assms(2,4) by (simp add: all)
  moreover have "lock_step ?s2 ?s3" using lock_step.scanned [of ?s2 ?rm] by simp
  moreover have "lock_step\<^sup>*\<^sup>* ?s3 ?t"
  proof (cases ?rm)
    case Nil
    then have "?s3 = ?t" using rm assms(1) by simp
    then show ?thesis by simp
  next
    case (Cons u vs)
    then have "hl_scanner ?s3 = ScLock (u # vs)" by simp
    from scanner_removes [OF this] have "lock_step\<^sup>*\<^sup>* ?s3 (?s3\<lparr>hl_conns := hl_conns s - set (u # vs), hl_scanner := ScSleep\<rparr>)"
      using assms(2) by simp
    moreover have "?s3\<lparr>hl_conns := hl_conns s - set (u # vs), hl_scanner := ScSleep\<rparr> = ?t"
      using rm assms(1) unfolding Cons by simp
    ultimately show ?thesis by simp
  qed
  ultimately show ?thesis by (meson converse_rtranclp_into_rtranclp rtranclp_trans)
qed

text \<open>A broadcast alone.\<close>

lemma sender_alone:
  assumes "hub_ok h" and "set us \<subseteq> dom (hub_meshConnections h)" and "hl_failing s = F"
    and "hl_withdrawn s = hl_withdrawn (lock_view F h)"
    and "\<And>u c conn w. hub_meshConnections h u = Some c \<Longrightarrow> ch_Conn c = Some conn \<Longrightarrow>
           fst (co_SendMsg ops conn msg w) = None \<longleftrightarrow> u \<notin> F"
    and "k < length (hl_senders s)" and "hl_senders s ! k = SndHolding us"
  shows "\<exists>r h' w' x. hub_messageHandler ops h us msg w = Inr (r, h', w')
    \<and> lock_step\<^sup>*\<^sup>* s (s\<lparr>hl_senders := (hl_senders s)[k := x]\<rparr>)
    \<and> (case r of None \<Rightarrow> x = SndDone | Some u \<Rightarrow> \<exists>vs. x = SndBlocked u vs)"
  using assms
proof (induction us arbitrary: s w)
  case Nil
  with lock_step.sent [OF Nil(6,7)] show ?case by auto
next
  case (Cons u us)
  obtain c where c: "hub_meshConnections h u = Some c" using Cons.prems(2) by auto
  obtain conn where conn: "ch_Conn c = Some conn" using hub_ok_handler [OF Cons.prems(1) c] by (auto simp: handler_of_def)
  have same: "h\<lparr>hub_meshConnections := (hub_meshConnections h)(u \<mapsto> c)\<rparr> = h" using c by (simp add: fun_upd_idem)
  have wd: "u \<in> hl_withdrawn s \<longleftrightarrow> Signaler_PeerWithdrawn (ch_Signaler c)" using Cons.prems(4) c by (simp add: lock_view_def)
  obtain e w1 where snd: "co_SendMsg ops conn msg w = (e, w1)" by fastforce
  have fail: "e = None \<longleftrightarrow> u \<notin> hl_failing s" using Cons.prems(5) [OF c conn, of w] Cons.prems(3) snd by simp
  show ?case
  proof (cases "Signaler_PeerWithdrawn (ch_Signaler c) \<or> e = None")
    case True
    let ?s = "s\<lparr>hl_senders := (hl_senders s)[k := SndHolding us]\<rparr>"
    let ?w = "if Signaler_PeerWithdrawn (ch_Signaler c) then w else w1"
    have st: "lock_step s ?s" using lock_step.send [OF Cons.prems(6,7)] True wd fail by blast
    obtain r h' w' x where "hub_messageHandler ops h us msg ?w = Inr (r, h', w')"
        "lock_step\<^sup>*\<^sup>* ?s (?s\<lparr>hl_senders := (hl_senders ?s)[k := x]\<rparr>)"
        "case r of None \<Rightarrow> x = SndDone | Some u \<Rightarrow> \<exists>vs. x = SndBlocked u vs"
      using Cons.IH [of ?s ?w] Cons.prems by auto
    moreover have "hub_messageHandler ops h (u # us) msg w = hub_messageHandler ops h us msg ?w"
      using True c conn snd same by (auto simp: connectionHandler_Send_def)
    ultimately show ?thesis using st by (auto intro: converse_rtranclp_into_rtranclp)
  next
    case False
    then have "lock_step s (s\<lparr>hl_senders := (hl_senders s)[k := SndBlocked u us]\<rparr>)"
      using lock_step.send_fails [OF Cons.prems(6,7)] wd fail by blast
    moreover have "\<exists>h' w'. hub_messageHandler ops h (u # us) msg w = Inr (Some u, h', w')"
      using False c conn snd by (auto simp: connectionHandler_Send_def)
    ultimately show ?thesis by fastforce
  qed
qed

section \<open>Properties\<close>

text \<open>The steps in which the hub can block are those of its functions: in every reachable
  hub the scanner, run alone, takes exactly the connections out that a pass of
  \<open>scanFailedMeshConnections\<close> takes out, and a broadcast with the read lock held sends to the
  connections until it is done, or is blocked by the error of one, exactly when \<open>messageHandler\<close> is.\<close>

theorem hub_functions_are_runs:
  assumes "reach hub_init (hub_step ops mesh) (h, w)" and "distinct us" and "set us = dom (hub_meshConnections h)"
    and "\<And>u c conn w. hub_meshConnections h u = Some c \<Longrightarrow> ch_Conn c = Some conn \<Longrightarrow>
           fst (co_SendMsg ops conn msg w) = None \<longleftrightarrow> u \<notin> F"
  shows "(\<exists>h' w'. scan_pass ops h us w = Inr (h', w')
      \<and> lock_step\<^sup>*\<^sup>* (lock_view F h) ((lock_view F h')\<lparr>hl_withdrawn := hl_withdrawn (lock_view F h)\<rparr>))
    \<and> (\<exists>r h' w' x. hub_messageHandler ops h us msg w = Inr (r, h', w')
      \<and> lock_step\<^sup>*\<^sup>* (lock_view F h) ((lock_view F h)\<lparr>hl_senders := [x]\<rparr>)
      \<and> (case r of None \<Rightarrow> x = SndDone | Some u \<Rightarrow> \<exists>vs. x = SndBlocked u vs))"
proof (rule conjI)
  have ok: "hub_ok h" using hubsys.inv_reach [OF assms(1)] by simp
  let ?s = "lock_view F h"
  obtain h' w' where h': "scan_pass ops h us w = Inr (h', w')"
      "\<And>u. hub_meshConnections h' u = (if failed h u then None else hub_meshConnections h u)"
    by (rule scan_pass_result [OF ok assms(2,3), of ops w]) blast
  have "lock_step\<^sup>*\<^sup>* ?s (?s\<lparr>hl_conns := hl_conns ?s - (hl_readers ?s \<union> hl_withdrawn ?s), hl_readers := {}\<rparr>)"
    by (rule scanner_alone [OF _ _ _ assms(2)]) (use assms(3) in \<open>auto simp: lock_view_def\<close>)
  moreover have "(lock_view F h')\<lparr>hl_withdrawn := hl_withdrawn ?s\<rparr> =
      ?s\<lparr>hl_conns := hl_conns ?s - (hl_readers ?s \<union> hl_withdrawn ?s), hl_readers := {}\<rparr>"
    by (auto simp: h'(2) lock_view_def failed_def dom_def split: option.splits if_splits)
  ultimately have "lock_step\<^sup>*\<^sup>* ?s ((lock_view F h')\<lparr>hl_withdrawn := hl_withdrawn ?s\<rparr>)" by (simp only:)
  with h'(1) show "\<exists>h' w'. scan_pass ops h us w = Inr (h', w')
      \<and> lock_step\<^sup>*\<^sup>* ?s ((lock_view F h')\<lparr>hl_withdrawn := hl_withdrawn ?s\<rparr>)" by blast
  let ?s1 = "?s\<lparr>hl_senders := [SndWait]\<rparr>" and ?s2 = "?s\<lparr>hl_senders := [SndHolding us]\<rparr>"
  have "lock_step ?s ?s1" using lock_step.message [of ?s] by (simp add: lock_view_def)
  moreover have "lock_step ?s1 ?s2"
    using lock_step.rlock [of 0 ?s1 us] assms(2,3) by (simp add: lock_view_def)
  moreover obtain r h' w' x where "hub_messageHandler ops h us msg w = Inr (r, h', w')"
      "lock_step\<^sup>*\<^sup>* ?s2 (?s2\<lparr>hl_senders := (hl_senders ?s2)[0 := x]\<rparr>)"
      "case r of None \<Rightarrow> x = SndDone | Some u \<Rightarrow> \<exists>vs. x = SndBlocked u vs"
    using sender_alone [where us = us and s = ?s2 and k = 0, OF ok _ _ _ assms(4)] assms(3)
    by (force simp: lock_view_def)
  ultimately show "\<exists>r h' w' x. hub_messageHandler ops h us msg w = Inr (r, h', w')
      \<and> lock_step\<^sup>*\<^sup>* ?s (?s\<lparr>hl_senders := [x]\<rparr>)
      \<and> (case r of None \<Rightarrow> x = SndDone | Some u \<Rightarrow> \<exists>vs. x = SndBlocked u vs)"
    by (intro exI [of _ r] exI [of _ h'] exI [of _ w'] exI [of _ x])
       (auto intro: converse_rtranclp_into_rtranclp)
qed

text \<open>A hub whose only connection has broken: the broadcast blocks on it.\<close>

definition broken_ops :: "(nat, nat set) connection" where
  "broken_ops = sample_ops\<lparr>co_SendMsg := \<lambda>_ _ w. (Some ErrConnectionClosed, w)\<rparr>"

lemma broken_reach: "reach hub_init (hub_step broken_ops (Some sample_mesh)) (sample_hub, {})"
proof -
  let ?h = "new_hub ''a'' ''*'' [] :: (nat, nat) hub"
  have "reach hub_init (hub_step broken_ops (Some sample_mesh)) (?h, {})"
    by (rule reach_init) (auto simp: hub_init_def)
  moreover have "hub_connectEndpoint broken_ops (Some sample_mesh) ?h ''e'' '''' {} = Inr (None, sample_hub, {})"
    by (simp add: hub_connectEndpoint_def sample_mesh_def hub_setupOutgoingConnection_def sample_conn_def broken_ops_def
        sample_ack_def hub_setupNewConnection_def hub_findConnection_def sample_hub_def Let_def) (simp add: new_hub_def)
  then have "hub_step broken_ops (Some sample_mesh) (?h, {}) (sample_hub, {})"
    by (rule hub_step.endpoint)
  ultimately show ?thesis by (rule reach_step)
qed

theorem hub_functions_are_runs_witness:
  "\<exists>h' w' vs. hub_messageHandler broken_ops sample_hub [''b''] (NewMsg ''m'' 0 ''t'' []) {} = Inr (Some ''b'', h', w')
    \<and> lock_step\<^sup>*\<^sup>* (lock_view {''b''} sample_hub) ((lock_view {''b''} sample_hub)\<lparr>hl_senders := [SndBlocked ''b'' vs]\<rparr>)"
proof -
  let ?m = "NewMsg ''m'' 0 ''t'' []"
  have us: "distinct [''b'']" "set [''b''] = dom (hub_meshConnections sample_hub)" by (simp_all add: sample_handler)
  have F: "fst (co_SendMsg broken_ops conn ?m w) = None \<longleftrightarrow> u \<notin> {''b''}"
    if "hub_meshConnections sample_hub u = Some c" for u c conn w
    using that by (simp add: sample_handler broken_ops_def split: if_splits)
  have run: "\<exists>h' w'. hub_messageHandler broken_ops sample_hub [''b''] ?m {} = Inr (Some ''b'', h', w')"
    by (simp add: sample_handler connectionHandler_Send_def broken_ops_def Signaler_PeerWithdrawn_def NewSignaler_def)
  from hub_functions_are_runs [OF broken_reach us F] run show ?thesis by (fastforce split: option.splits)
qed

text \<open>Property C22. A broken connection can block the hub for good. From every quiet hub with a
  connection \<open>u\<close> the goroutines can reach a state after which no broadcast ever completes and
  no connection is ever removed: \<open>u\<close> breaks, its reading goroutine reports the error and the
  scanner, having received it, waits for the write lock; a broadcast that already holds the
  read lock now fails to send to \<open>u\<close> and offers its error to the scanner, which cannot come
  back to receive it.\<close>

theorem broken_connection_blocks_hub:
  assumes "finite (hl_conns s)" and "u \<in> hl_conns s" and "hl_scanner s = ScSleep"
    and "hl_readers s = {}" and "hl_senders s = []" and "u \<notin> hl_withdrawn s"
  shows "\<exists>s'. lock_step\<^sup>*\<^sup>* s s' \<and> u \<in> hl_failing s'
    \<and> (\<forall>t. lock_step\<^sup>*\<^sup>* s' t \<longrightarrow> hl_conns t = hl_conns s \<and> SndDone \<notin> set (hl_senders t))"
proof -
  obtain us where us: "set us = hl_conns s - {u}" "distinct us"
    using assms(1) by (meson finite_Diff finite_distinct_list)
  then have order: "set (u # us) = hl_conns s" "distinct (u # us)" using assms(2) by auto
  let ?s1 = "s\<lparr>hl_senders := [SndWait]\<rparr>"
  let ?s2 = "?s1\<lparr>hl_senders := [SndHolding (u # us)]\<rparr>"
  let ?s3 = "?s2\<lparr>hl_failing := insert u (hl_failing s)\<rparr>"
  let ?s4 = "?s3\<lparr>hl_readers := {u}\<rparr>"
  let ?s5 = "?s4\<lparr>hl_scanner := ScScan (u # us) []\<rparr>"
  let ?s6 = "?s5\<lparr>hl_readers := {}, hl_scanner := ScScan us [u]\<rparr>"
  let ?rm = "u # filter (\<lambda>u. u \<in> hl_withdrawn s) us"
  let ?s7 = "?s6\<lparr>hl_scanner := ScScan [] ?rm\<rparr>"
  let ?s8 = "?s7\<lparr>hl_scanner := ScLock ?rm\<rparr>"
  let ?s9 = "?s8\<lparr>hl_senders := [SndBlocked u us]\<rparr>"
  have 1: "lock_step s ?s1" using lock_step.message [of s] assms(5) by simp
  have 2: "lock_step ?s1 ?s2" using lock_step.rlock [of 0 ?s1 "u # us"] order assms(3) by simp
  have 3: "lock_step ?s2 ?s3" using lock_step.breaks [of ?s2 u] by simp
  have 4: "lock_step ?s3 ?s4" using lock_step.read_fails [of u ?s3] assms(2,4) by simp
  have 5: "lock_step ?s4 ?s5" using lock_step.scan [of ?s4 "u # us"] order assms(3) by simp
  have 6: "lock_step ?s5 ?s6" using lock_step.receive_reader [of ?s5 u us "[]"] by simp
  have 7: "lock_step\<^sup>*\<^sup>* ?s6 ?s7" using scan_past [of ?s6 us "[u]"] by (simp add: blocked_on_def)
  have 8: "lock_step ?s7 ?s8" using lock_step.scanned [of ?s7 ?rm] by simp
  have 9: "lock_step ?s8 ?s9" using lock_step.send_fails [of 0 ?s8 u us] assms(6) by simp
  have "lock_step\<^sup>*\<^sup>* s ?s6"
    using 1 2 3 4 5 6 by (meson converse_rtranclp_into_rtranclp rtranclp.rtrancl_refl)
  moreover have "lock_step\<^sup>*\<^sup>* ?s7 ?s9"
    using 8 9 by (meson converse_rtranclp_into_rtranclp rtranclp.rtrancl_refl)
  ultimately have "lock_step\<^sup>*\<^sup>* s ?s9" using 7 by (meson rtranclp_trans)
  moreover have "hub_blocked ?s9" by (simp add: hub_blocked_def)
  then have "hl_conns t = hl_conns s \<and> SndDone \<notin> set (hl_senders t)" if "lock_step\<^sup>*\<^sup>* ?s9 t" for t
    using blocked_steps [OF that] by (auto simp: hub_blocked_def)
  ultimately show ?thesis by (intro exI [of _ ?s9]) simp
qed

theorem broken_connection_blocks_hub_witness:
  "\<exists>s'. lock_step\<^sup>*\<^sup>* \<lparr>hl_conns = {''a'', ''b''}, hl_failing = {}, hl_readers = {}, hl_withdrawn = {}, hl_senders = [], hl_scanner = ScSleep\<rparr> s'
    \<and> (\<forall>t. lock_step\<^sup>*\<^sup>* s' t \<longrightarrow> SndDone \<notin> set (hl_senders t))"
  using broken_connection_blocks_hub
    [of "\<lparr>hl_conns = {''a'', ''b''}, hl_failing = {}, hl_readers = {}, hl_withdrawn = {}, hl_senders = [], hl_scanner = ScSleep\<rparr>" "''a''"]
  by (simp, blast)

end
