(* ===== verification/Hub_Interleaved.thy ===== *)
theory Hub_Interleaved
  imports Hub_Properties
begin

text \<open>
  The hub with its goroutines side by side. \<open>setupNewConnection\<close> takes the lock for its look at the map and
  again for the new entry; \<open>sendTunneledMessage\<close> sends after it has released the lock; the
  scanner goes over the map without the lock and takes it for each removal. Between these parts the others
  run. Proved are the exact consistency of connections and balancers as long as no two handshakes with a peer overlap; the
  consistency that is left when they do, with which a tunnel only ever picks connected peers and finds a working one; and
  two races: a connection that is lost when two handshakes with a peer overlap, and a tunnel that
  blocks for good on a connection that is removed under it.
\<close>

section \<open>Goroutines and steps\<close>

text \<open>
  A goroutine that sets up a connection: before \<open>findConnection\<close>; before \<open>addConnection\<close>. One that tunnels, with
  the turns it has left: before it picks a connection; before its \<open>Send\<close>, with the handler it has looked up; blocked on the
  \<open>ErrChan\<close> of that handler; returned; panicked.
\<close>

datatype 'c hub_task =
    HtCheck 'c uuid string "string list"
  | HtAdd 'c uuid string "string list"
  | HtPick string message nat
  | HtSend string message nat "'c connectionHandler"
  | HtBlocked string message nat "'c connectionHandler"
  | HtTold "error option"
  | HtPanic panic
  | HtDone

text \<open>The scanner: asleep; in its loop, with the keys it has seen, those to come, and those to remove; removing.\<close>

datatype hub_scan =
    HsSleep
  | HsScan "uuid list" "uuid list" "uuid list"
  | HsRemove "uuid list"

text \<open>
  \<open>hy_used\<close> are the connections that have come to the hub so far, \<open>hy_closed\<close> those it has closed, and \<open>hy_panics\<close>
  what has ended the program.
\<close>

record ('c, 'b, 'w) hub_sys =
  hy_hub :: "('c, 'b) hub"
  hy_world :: 'w
  hy_tasks :: "'c hub_task list"
  hy_scan :: hub_scan
  hy_used :: "'c set"
  hy_closed :: "'c set"
  hy_panics :: "panic set"

text \<open>
  Handlers are shared: what a goroutine finds behind its pointer is what is in the map, and once the handler
  is not in the map any more, whatever its own goroutines have made of it.
\<close>

definition behind :: "('c, 'b) hub \<Rightarrow> 'c connectionHandler \<Rightarrow> 'c connectionHandler \<Rightarrow> bool" where
  "behind h c d \<longleftrightarrow>
     (case hub_meshConnections h (ch_UUID c) of
        None \<Rightarrow> same_handler d c
      | Some e \<Rightarrow> (if ch_Conn e = ch_Conn c then d = e else same_handler d c))"

text \<open>One turn of a tunnel under the read lock.\<close>

definition tunnel_pick :: "('c, 'b) hub \<Rightarrow> string \<Rightarrow> message \<Rightarrow> nat \<Rightarrow> 'c hub_task \<times> ('c, 'b) hub" where
  "tunnel_pick h capability msg n =
     (case go_deref (hub_capabilityBalancers h capability) of
        Inl e \<Rightarrow> (HtPanic e, h)
      | Inr balancer \<Rightarrow>
          (case Balancer_Next balancer of
             Inl e \<Rightarrow> (HtPanic e, h)
           | Inr (uuid, balancer') \<Rightarrow>
               (case hub_meshConnections h uuid of
                  None \<Rightarrow> HtPick capability msg n
                | Some handler \<Rightarrow>
                    (if ch_Conn handler = None then HtPick capability msg n else HtSend capability msg n handler),
                h\<lparr>hub_capabilityBalancers := (hub_capabilityBalancers h)(capability \<mapsto> balancer')\<rparr>)))"

text \<open>And its \<open>Send\<close> on what is behind the handler, without the lock.\<close>

definition tunnel_send ::
  "('c, 'w) connection \<Rightarrow> string \<Rightarrow> message \<Rightarrow> nat \<Rightarrow> 'c connectionHandler \<Rightarrow> 'w \<Rightarrow> 'c hub_task \<times> 'w" where
  "tunnel_send ops capability msg n handler w =
     (case connectionHandler_Send ops handler msg w of
        Inl e \<Rightarrow> (HtPanic e, w)
      | Inr (SendOk, _, w') \<Rightarrow> (HtTold None, w')
      | Inr (SendErr _, _, w') \<Rightarrow> (HtPick capability msg n, w')
      | Inr (SendBlocks _, _, w') \<Rightarrow> (HtBlocked capability msg n handler, w'))"

text \<open>A panic of a goroutine ends the program.\<close>

fun task_panics :: "'c hub_task \<Rightarrow> panic set" where
  "task_panics (HtPanic e) = {e}"
| "task_panics _ = {}"

fun blocked_at :: "uuid \<Rightarrow> 'c connectionHandler \<Rightarrow> 'c hub_task \<Rightarrow> bool" where
  "blocked_at u d (HtBlocked _ _ _ c) \<longleftrightarrow> ch_UUID c = u \<and> ch_Conn c = ch_Conn d"
| "blocked_at u d _ \<longleftrightarrow> False"

text \<open>
  The steps: the four parts of setting up a connection (a handshake has ended; \<open>findConnection\<close> has found
  nothing, or a duplicate; \<open>addConnection\<close>), the turns of a tunnel, the scanner, a broadcast,
  the goroutines of a handler, and the network. A scan takes the keys in any order, and an entry that is made
  meanwhile may or may not be visited; it receives the error of a blocked tunnel, or one that another goroutine
  offers (\<open>ch_ErrChan\<close>). The two clashes are \<open>addConnection\<close> writing a map while the scanner iterates over it, or while a
  tunnel that begins reads one, without the lock. A step is allowed even if a broadcast still holds the lock or the program has
  ended, so what is proved of all continuations holds of the fewer ones that the program has.
\<close>

inductive hub_inter :: "('c, 'w) connection \<Rightarrow> ('c, 'b, 'w) hub_sys \<Rightarrow> ('c, 'b, 'w) hub_sys \<Rightarrow> bool"
  for ops :: "('c, 'w) connection" where
  handshake: "u \<noteq> '''' \<Longrightarrow> conn \<notin> hy_used s \<Longrightarrow>
     hub_inter ops s (s\<lparr>hy_tasks := hy_tasks s @ [HtCheck conn u bt ints], hy_used := insert conn (hy_used s)\<rparr>)"
| check: "k < length (hy_tasks s) \<Longrightarrow> hy_tasks s ! k = HtCheck conn u bt ints \<Longrightarrow>
     hub_findConnection (hy_hub s) u = None \<Longrightarrow>
     hub_inter ops s (s\<lparr>hy_tasks := (hy_tasks s)[k := HtAdd conn u bt ints]\<rparr>)"
| duplicate: "k < length (hy_tasks s) \<Longrightarrow> hy_tasks s ! k = HtCheck conn u bt ints \<Longrightarrow>
     hub_findConnection (hy_hub s) u \<noteq> None \<Longrightarrow>
     hub_inter ops s (s\<lparr>hy_tasks := (hy_tasks s)[k := HtDone], hy_world := snd (co_Close ops conn (hy_world s)),
                        hy_closed := insert conn (hy_closed s)\<rparr>)"
| add: "k < length (hy_tasks s) \<Longrightarrow> hy_tasks s ! k = HtAdd conn u bt ints \<Longrightarrow>
     hub_inter ops s (s\<lparr>hy_hub := hub_addConnection (hy_hub s) conn u bt ints, hy_tasks := (hy_tasks s)[k := HtDone]\<rparr>)"
| tunnel: "hub_inter ops s (s\<lparr>hy_tasks := hy_tasks s @
       [if hub_capabilityBalancers (hy_hub s) cap = None then HtTold (Some ErrTunnelNotEstablished)
        else HtPick cap msg tunnelRetryCount]\<rparr>)"
| pick: "k < length (hy_tasks s) \<Longrightarrow> hy_tasks s ! k = HtPick cap msg (Suc n) \<Longrightarrow>
     tunnel_pick (hy_hub s) cap msg n = (x, h) \<Longrightarrow>
     hub_inter ops s (s\<lparr>hy_hub := h, hy_tasks := (hy_tasks s)[k := x], hy_panics := task_panics x \<union> hy_panics s\<rparr>)"
| give_up: "k < length (hy_tasks s) \<Longrightarrow> hy_tasks s ! k = HtPick cap msg 0 \<Longrightarrow>
     hub_inter ops s (s\<lparr>hy_tasks := (hy_tasks s)[k := HtTold (Some ErrTunnelNotEstablished)]\<rparr>)"
| send: "k < length (hy_tasks s) \<Longrightarrow> hy_tasks s ! k = HtSend cap msg n c \<Longrightarrow>
     behind (hy_hub s) c d \<Longrightarrow> tunnel_send ops cap msg n d (hy_world s) = (x, w) \<Longrightarrow>
     hub_inter ops s (s\<lparr>hy_tasks := (hy_tasks s)[k := x], hy_world := w, hy_panics := task_panics x \<union> hy_panics s\<rparr>)"
| scan: "hy_scan s = HsSleep \<Longrightarrow> distinct us \<Longrightarrow> set us = dom (hub_meshConnections (hy_hub s)) \<Longrightarrow>
     hub_inter ops s (s\<lparr>hy_scan := HsScan [] us []\<rparr>)"
| scan_new: "hy_scan s = HsScan seen todo rm \<Longrightarrow> u \<in> dom (hub_meshConnections (hy_hub s)) \<Longrightarrow> u \<notin> set seen \<union> set todo \<Longrightarrow>
     hub_inter ops s (s\<lparr>hy_scan := HsScan seen (u # todo) rm\<rparr>)"
| scan_one: "hy_scan s = HsScan seen (u # todo) rm \<Longrightarrow> hub_meshConnections (hy_hub s) u = Some d \<Longrightarrow>
     ch_ErrChan d \<noteq> [] \<or> (\<forall>x \<in> set (hy_tasks s). \<not> blocked_at u d x) \<Longrightarrow>
     scan_loop ops (hy_hub s) [u] rm (hy_world s) = Inr (rm', h, w) \<Longrightarrow>
     hub_inter ops s (s\<lparr>hy_hub := h, hy_world := w, hy_scan := HsScan (u # seen) todo rm',
                        hy_closed := (if rm' = rm then hy_closed s else set_option (ch_Conn d) \<union> hy_closed s)\<rparr>)"
| scan_release: "hy_scan s = HsScan seen (u # todo) rm \<Longrightarrow> hub_meshConnections (hy_hub s) u = Some d \<Longrightarrow>
     k < length (hy_tasks s) \<Longrightarrow> hy_tasks s ! k = HtBlocked cap msg n c \<Longrightarrow> blocked_at u d (HtBlocked cap msg n c) \<Longrightarrow>
     connectionHandler_Close ops d (hy_world s) = Inr (r, w) \<Longrightarrow>
     hub_inter ops s (s\<lparr>hy_tasks := (hy_tasks s)[k := HtPick cap msg n], hy_world := w,
                        hy_scan := HsScan (u # seen) todo (rm @ [ch_UUID d]),
                        hy_closed := set_option (ch_Conn d) \<union> hy_closed s\<rparr>)"
| scan_panic: "hy_scan s = HsScan seen (u # todo) rm \<Longrightarrow> hub_meshConnections (hy_hub s) u = Some d \<Longrightarrow>
     scan_loop ops (hy_hub s) [u] rm (hy_world s) = Inl e
       \<or> (\<exists>x \<in> set (hy_tasks s). blocked_at u d x) \<and> connectionHandler_Close ops d (hy_world s) = Inl e \<Longrightarrow>
     hub_inter ops s (s\<lparr>hy_panics := insert e (hy_panics s)\<rparr>)"
| scan_clash: "hy_scan s = HsScan seen todo rm \<Longrightarrow> HtAdd conn u bt ints \<in> set (hy_tasks s) \<Longrightarrow>
     hub_inter ops s (s\<lparr>hy_panics := insert ConcurrentMapAccess (hy_panics s)\<rparr>)"
| tunnel_clash: "HtAdd conn u bt ints \<in> set (hy_tasks s) \<Longrightarrow>
     hub_inter ops s (s\<lparr>hy_panics := insert ConcurrentMapAccess (hy_panics s)\<rparr>)"
| scan_end: "hy_scan s = HsScan seen [] rm \<Longrightarrow> hub_inter ops s (s\<lparr>hy_scan := HsRemove rm\<rparr>)"
| remove: "hy_scan s = HsRemove (u # us) \<Longrightarrow>
     hub_inter ops s (s\<lparr>hy_hub := hub_removeMeshConnection (hy_hub s) u, hy_scan := HsRemove us\<rparr>)"
| sleep: "hy_scan s = HsRemove [] \<Longrightarrow> hub_inter ops s (s\<lparr>hy_scan := HsSleep\<rparr>)"
| broadcast: "distinct us \<Longrightarrow> set us = dom (hub_meshConnections (hy_hub s)) \<Longrightarrow>
     hub_messageHandler ops (hy_hub s) us msg (hy_world s) = Inr (r, h, w) \<Longrightarrow>
     hub_inter ops s (s\<lparr>hy_hub := h, hy_world := w\<rparr>)"
| broadcast_panic: "distinct us \<Longrightarrow> set us = dom (hub_meshConnections (hy_hub s)) \<Longrightarrow>
     hub_messageHandler ops (hy_hub s) us msg (hy_world s) = Inl e \<Longrightarrow>
     hub_inter ops s (s\<lparr>hy_panics := insert e (hy_panics s)\<rparr>)"
| handler: "hub_meshConnections (hy_hub s) u = Some c \<Longrightarrow> same_handler d c \<Longrightarrow>
     hub_inter ops s (s\<lparr>hy_hub := (hy_hub s)\<lparr>hub_meshConnections := (hub_meshConnections (hy_hub s))(u \<mapsto> d)\<rparr>\<rparr>)"
| network: "hub_inter ops s (s\<lparr>hy_world := w\<rparr>)"

inductive_cases hub_interE: "hub_inter ops s t"

definition inter_hub_init :: "('c, 'b, 'w) hub_sys \<Rightarrow> bool" where
  "inter_hub_init s \<longleftrightarrow> (\<exists>n b i. hy_hub s = new_hub n b i) \<and> hy_tasks s = [] \<and> hy_scan s = HsSleep
     \<and> hy_used s = {} \<and> hy_closed s = {} \<and> hy_panics s = {}"

section \<open>The consistency that is left\<close>

text \<open>
  The connections are filed under their peers, what a connected peer advertises is in the balancer, and the balancers
  hold connected peers only; a peer may stand in one more often than it advertises.
\<close>

definition hub_mild :: "('c, 'b) hub \<Rightarrow> bool" where
  "hub_mild h \<longleftrightarrow> (\<forall>u c. hub_meshConnections h u = Some c \<longrightarrow> handler_of u c) \<and> balancers_ok h
     \<and> (\<forall>cap u. u \<in> set (entries h cap) \<longrightarrow> hub_meshConnections h u \<noteq> None)
     \<and> (\<forall>u c cap. hub_meshConnections h u = Some c \<and> cap \<in> set (ch_Interests c) \<longrightarrow> u \<in> set (entries h cap))"

lemma hub_mild_new: "hub_mild (new_hub n b i)"
  by (simp add: hub_mild_def new_hub_def balancers_ok_def entries_def)

lemma add_entries:
  "entries (hub_addConnection h conn u bt ints) cap = entries h cap @ replicate (count_list ints cap) u"
proof -
  have "entries (h\<lparr>hub_meshConnections := m\<rparr>) cap = entries h cap" for m by (simp add: entries_def)
  then show ?thesis by (simp add: hub_addConnection_def Let_def foldl_capability_entries)
qed

lemma hub_mild_add:
  assumes "hub_mild h" and "u \<noteq> []"
  shows "hub_mild (hub_addConnection h conn u bt ints)"
proof -
  have "balancers_ok (h\<lparr>hub_meshConnections := m\<rparr>)" for m
    using assms(1) by (simp add: hub_mild_def balancers_ok_def)
  then have "balancers_ok (hub_addConnection h conn u bt ints)"
    by (simp add: hub_addConnection_def Let_def foldl_capability_ok)
  moreover have "set (replicate (count_list ints cap) u) = (if cap \<in> set ints then {u} else {})" for cap
    by (auto simp: set_replicate_conv_if count_list_0_iff)
  ultimately show ?thesis
    using assms unfolding hub_mild_def by (auto simp: add_entries handler_of_def simp del: set_replicate)
qed

lemma hub_mild_remove:
  assumes "hub_mild h"
  shows "hub_mild (hub_removeMeshConnection h u)"
proof -
  let ?h = "hub_removeMeshConnection h u"
  have "balancers_ok ?h" by (auto simp: balancers_ok_def hub_removeMeshConnection_def bal_ok_remove)
  moreover have "entries ?h cap = filter (\<lambda>v. v \<noteq> u) (entries h cap)" for cap
    by (simp add: entries_def hub_removeMeshConnection_def split: option.split)
  moreover have "hub_meshConnections ?h = (hub_meshConnections h)(u := None)"
    by (simp add: hub_removeMeshConnection_def)
  ultimately show ?thesis using assms by (auto simp: hub_mild_def)
qed

text \<open>The other operations only change what is inside handlers, and the turn of a balancer.\<close>

definition same_shape :: "('c, 'b) hub \<Rightarrow> ('c, 'b) hub \<Rightarrow> bool" where
  "same_shape h' h \<longleftrightarrow> (\<forall>u. rel_option same_handler (hub_meshConnections h' u) (hub_meshConnections h u))
     \<and> (\<forall>cap. entries h' cap = entries h cap) \<and> dom (hub_capabilityBalancers h') = dom (hub_capabilityBalancers h)
     \<and> (balancers_ok h \<longrightarrow> balancers_ok h')"

lemma same_handler_refl [simp]: "same_handler c c"
  by (simp add: same_handler_def)

lemma same_handler_trans: "same_handler c d \<Longrightarrow> same_handler d e \<Longrightarrow> same_handler c e"
  by (simp add: same_handler_def)

lemma rel_same_handler_trans:
  "rel_option same_handler x y \<Longrightarrow> rel_option same_handler y z \<Longrightarrow> rel_option same_handler x z"
  by (cases x; cases y; cases z) (auto intro: same_handler_trans)

lemma same_shape_refl [simp]: "same_shape h h"
  by (simp add: same_shape_def option.rel_refl)

lemma same_shape_trans: "same_shape h h1 \<Longrightarrow> same_shape h1 h2 \<Longrightarrow> same_shape h h2"
  unfolding same_shape_def by (metis rel_same_handler_trans)

lemma same_shape_update:
  "hub_meshConnections h u = Some c \<Longrightarrow> same_handler d c \<Longrightarrow>
     same_shape (h\<lparr>hub_meshConnections := (hub_meshConnections h)(u \<mapsto> d)\<rparr>) h"
  by (auto simp: same_shape_def entries_def balancers_ok_def option.rel_refl)

lemma same_shape_next:
  assumes "hub_capabilityBalancers h cap = Some b" and "Balancer_Next b = Inr (u, b')"
  shows "same_shape (h\<lparr>hub_capabilityBalancers := (hub_capabilityBalancers h)(cap \<mapsto> b')\<rparr>) h"
proof -
  have "bal_ok b \<longrightarrow> bal_ok b'" using balancer_run_ok [of b "[OpNextUUID]" b'] assms(2) by auto
  moreover have "bal_uuids b' = bal_uuids b" by (rule Next_uuids [OF assms(2)])
  ultimately show ?thesis
    using assms(1) by (auto simp: same_shape_def entries_def balancers_ok_def option.rel_refl)
qed

lemma same_shape_messageHandler:
  "hub_messageHandler ops h us msg w = Inr (r, h', w') \<Longrightarrow> same_shape h' h"
proof (induction ops h us msg w rule: hub_messageHandler.induct)
  case (2 ops h u us msg w)
  then obtain c where c: "hub_meshConnections h u = Some c"
    by (cases "hub_meshConnections h u") auto
  with 2(3) obtain s c' w1 where s: "connectionHandler_Send ops c msg w = Inr (s, c', w1)"
    by (auto split: sum.splits)
  have up: "same_shape (h\<lparr>hub_meshConnections := (hub_meshConnections h)(u \<mapsto> c')\<rparr>) h"
    by (rule same_shape_update [OF c Send_same [OF s]])
  then show ?case
    using 2(1,2) [OF _ s] 2(3) c s by (cases s) (auto intro: same_shape_trans [OF _ up])
qed simp

lemma same_shape_scan_loop:
  "scan_loop ops h us rm w = Inr (rm', h', w') \<Longrightarrow> same_shape h' h"
proof (induction ops h us rm w rule: scan_loop.induct)
  case (2 ops h u us rm w)
  show ?case
  proof (cases "hub_meshConnections h u")
    case None
    with 2 show ?thesis by auto
  next
    case (Some c)
    have up: "same_shape (h\<lparr>hub_meshConnections := (hub_meshConnections h)(u \<mapsto> c\<lparr>ch_ErrChan := es\<rparr>)\<rparr>) h" for es
      by (rule same_shape_update [OF Some]) (simp add: same_handler_def)
    show ?thesis
    proof (cases "ch_ErrChan c")
      case Nil
      with 2(2,3,5) Some show ?thesis by (auto split: sum.splits prod.splits if_splits)
    next
      case (Cons e es)
      with 2(5) Some obtain r w1 where w1: "connectionHandler_Close ops c w = Inr (r, w1)"
        by (auto split: sum.splits)
      then show ?thesis
        using 2(4) [OF Some Cons w1 refl] 2(5) Some Cons by (auto intro: same_shape_trans [OF _ up])
    qed
  qed
qed simp

lemma hub_mild_shape:
  assumes "same_shape h' h" and "hub_mild h"
  shows "hub_mild h'"
proof -
  have rel: "rel_option same_handler (hub_meshConnections h' u) (hub_meshConnections h u)" for u
    using assms(1) by (simp add: same_shape_def)
  have some: "\<exists>d. hub_meshConnections h u = Some d \<and> same_handler c d" if "hub_meshConnections h' u = Some c" for u c
    using rel [of u] that by (auto simp: option_rel_Some1)
  have none: "hub_meshConnections h' u = None \<longleftrightarrow> hub_meshConnections h u = None" for u
    using rel [of u] by (cases "hub_meshConnections h' u"; cases "hub_meshConnections h u") auto
  have "handler_of u c" if "hub_meshConnections h' u = Some c" for u c
    using some [OF that] assms(2) by (auto simp: hub_mild_def same_handler_def handler_of_def)
  moreover have "u \<in> set (entries h cap)" if "hub_meshConnections h' u = Some c" "cap \<in> set (ch_Interests c)" for u c cap
    using some [OF that(1)] that(2) assms(2) by (auto simp: hub_mild_def same_handler_def)
  ultimately show ?thesis
    using assms none by (auto simp: hub_mild_def same_shape_def simp del: not_None_eq)
qed

lemma tunnel_pick_shape: "tunnel_pick h cap msg n = (x, h') \<Longrightarrow> same_shape h' h"
  by (auto simp: tunnel_pick_def go_deref_def split: option.splits sum.splits prod.splits if_splits intro: same_shape_next)

text \<open>
  What a goroutine knows of the hub keeps true: peers have names, a tunnel has found a balancer, the handlers
  that are sent to have connections, and the only panic is the one for an empty balancer.
\<close>

fun task_ok :: "('c, 'b) hub \<Rightarrow> 'c hub_task \<Rightarrow> bool" where
  "task_ok h (HtCheck _ u _ _) \<longleftrightarrow> u \<noteq> ''''"
| "task_ok h (HtAdd _ u _ _) \<longleftrightarrow> u \<noteq> ''''"
| "task_ok h (HtPick cap _ _) \<longleftrightarrow> cap \<in> dom (hub_capabilityBalancers h)"
| "task_ok h (HtSend cap _ _ c) \<longleftrightarrow> cap \<in> dom (hub_capabilityBalancers h) \<and> handler_of (ch_UUID c) c"
| "task_ok h (HtBlocked cap _ _ c) \<longleftrightarrow> cap \<in> dom (hub_capabilityBalancers h) \<and> handler_of (ch_UUID c) c"
| "task_ok h (HtPanic e) \<longleftrightarrow> e = IndexOutOfRange"
| "task_ok h _ \<longleftrightarrow> True"

definition inter_ok :: "('c, 'b) hub \<Rightarrow> 'c hub_task list \<Rightarrow> bool" where
  "inter_ok h ts \<longleftrightarrow> hub_mild h \<and> (\<forall>x \<in> set ts. task_ok h x)"

lemma task_ok_mono:
  "task_ok h x \<Longrightarrow> dom (hub_capabilityBalancers h) \<subseteq> dom (hub_capabilityBalancers h') \<Longrightarrow> task_ok h' x"
  by (cases x) auto

lemma inter_ok_hub:
  "inter_ok h ts \<Longrightarrow> hub_mild h' \<Longrightarrow> dom (hub_capabilityBalancers h) \<subseteq> dom (hub_capabilityBalancers h') \<Longrightarrow> inter_ok h' ts"
  unfolding inter_ok_def by (metis task_ok_mono)

lemma inter_ok_shape: "inter_ok h ts \<Longrightarrow> same_shape h' h \<Longrightarrow> inter_ok h' ts"
  by (rule inter_ok_hub, assumption, rule hub_mild_shape) (auto simp: inter_ok_def same_shape_def)

lemma inter_ok_append: "inter_ok h ts \<Longrightarrow> task_ok h x \<Longrightarrow> inter_ok h (ts @ [x])"
  by (auto simp: inter_ok_def)

lemma inter_ok_update: "inter_ok h ts \<Longrightarrow> task_ok h x \<Longrightarrow> inter_ok h (ts[k := x])"
  by (auto simp: inter_ok_def dest!: set_update_subset_insert [THEN subsetD])

lemma inter_ok_task: "inter_ok h ts \<Longrightarrow> k < length ts \<Longrightarrow> ts ! k = x \<Longrightarrow> task_ok h x"
  by (auto simp: inter_ok_def)

lemma hub_mild_handler: "hub_mild h \<Longrightarrow> hub_meshConnections h u = Some c \<Longrightarrow> handler_of u c"
  by (simp add: hub_mild_def)

lemma add_dom: "dom (hub_capabilityBalancers h) \<subseteq> dom (hub_capabilityBalancers (hub_addConnection h conn u bt ints))"
proof -
  have one: "dom (hub_capabilityBalancers h) \<subseteq> dom (hub_capabilityBalancers (add_capability u h c))" for h :: "('a, 'b) hub" and c
    by (auto simp: add_capability_balancers)
  have "dom (hub_capabilityBalancers h) \<subseteq> dom (hub_capabilityBalancers (foldl (add_capability u) h cs))" for h :: "('a, 'b) hub" and cs
    by (induction cs arbitrary: h) (use one in \<open>simp, metis (no_types, lifting) foldl_Cons subset_trans\<close>)+
  from this [of "h\<lparr>hub_meshConnections := m\<rparr>" for m] show ?thesis by (simp add: hub_addConnection_def Let_def)
qed

lemma remove_dom: "dom (hub_capabilityBalancers (hub_removeMeshConnection h u)) = dom (hub_capabilityBalancers h)"
  by (auto simp: hub_removeMeshConnection_def)

lemma tunnel_pick_task:
  assumes "tunnel_pick h cap msg n = (x, h')" and "hub_mild h" and "cap \<in> dom (hub_capabilityBalancers h)"
  shows "task_ok h x"
proof -
  obtain b where b: "hub_capabilityBalancers h cap = Some b" using assms(3) by blast
  have panic: "e = IndexOutOfRange" if "Balancer_Next b = Inl e" for e
    using that by (auto simp: Balancer_Next_def go_index_def split: if_splits sum.splits)
  have "handler_of (ch_UUID c) c" if "hub_meshConnections h u = Some c" for u c
    using hub_mild_handler [OF assms(2) that] by (simp add: handler_of_def)
  then show ?thesis
    using assms(1) b by (auto simp: tunnel_pick_def dest: panic split: sum.splits prod.splits option.splits if_splits)
qed

lemma behind_handler:
  "behind h c d \<Longrightarrow> hub_mild h \<Longrightarrow> handler_of (ch_UUID c) c \<Longrightarrow> handler_of (ch_UUID c) d \<and> ch_Conn d = ch_Conn c"
  by (auto simp: behind_def same_handler_def handler_of_def split: option.splits if_splits dest: hub_mild_handler)

lemma tunnel_send_task:
  assumes "tunnel_send ops cap msg n d w = (x, w')" and "cap \<in> dom (hub_capabilityBalancers h)" and "handler_of (ch_UUID d) d"
  shows "task_ok h x"
  using assms
  by (auto simp: tunnel_send_def connectionHandler_Send_def handler_of_def split: sum.splits send_result.splits if_splits prod.splits option.splits)

lemma inter_ok_init: "inter_hub_init s \<Longrightarrow> inter_ok (hy_hub s) (hy_tasks s)"
  by (auto simp: inter_hub_init_def inter_ok_def hub_mild_new)

lemma inter_ok_step:
  assumes "hub_inter ops s t" and ok: "inter_ok (hy_hub s) (hy_tasks s)"
  shows "inter_ok (hy_hub t) (hy_tasks t)"
proof -
  have mild: "hub_mild (hy_hub s)" using ok by (simp add: inter_ok_def)
  note task = inter_ok_task [OF ok]
  from assms(1) show ?thesis
  proof (cases rule: hub_inter.cases)
    case (add k conn u bt ints)
    have "inter_ok (hub_addConnection (hy_hub s) conn u bt ints) (hy_tasks s)"
      using inter_ok_hub [OF ok hub_mild_add [OF mild] add_dom] task [OF add(2,3)] by simp
    then show ?thesis using add by (simp add: inter_ok_update)
  next
    case (pick k cap msg n x h)
    have "task_ok (hy_hub s) x" using tunnel_pick_task [OF pick(4) mild] task [OF pick(2,3)] by simp
    from inter_ok_shape [OF inter_ok_update [OF ok this] tunnel_pick_shape [OF pick(4)]] pick show ?thesis by simp
  next
    case (send k cap msg n c d x w)
    have "task_ok (hy_hub s) (HtSend cap msg n c)" by (rule task [OF send(2,3)])
    then have "handler_of (ch_UUID d) d" "cap \<in> dom (hub_capabilityBalancers (hy_hub s))"
      using behind_handler [OF send(4) mild] by (auto simp: handler_of_def)
    from tunnel_send_task [OF send(5) this(2,1)] send show ?thesis by (simp add: inter_ok_update [OF ok])
  next
    case (remove u us)
    from inter_ok_hub [OF ok hub_mild_remove [OF mild]] remove show ?thesis by (simp add: remove_dom)
  next
    case (handler u c d)
    from inter_ok_shape [OF ok same_shape_update [OF handler(2,3)]] handler show ?thesis by simp
  next
    case (scan_one seen u todo rm d rm' h w)
    from inter_ok_shape [OF ok same_shape_scan_loop [OF scan_one(5)]] scan_one show ?thesis by simp
  next
    case (broadcast us msg r h w)
    from inter_ok_shape [OF ok same_shape_messageHandler [OF broadcast(4)]] broadcast show ?thesis by simp
  qed (use ok task in \<open>auto intro!: inter_ok_append inter_ok_update dest: task\<close>)
qed

section \<open>Where a connection is\<close>

text \<open>
  A connection that has come to the hub is with the goroutine that sets it up, or in the map, or lost: it never comes
  back from the map to a goroutine, and only what is with a goroutine or in the map is ever closed.
\<close>

fun task_conns :: "'c hub_task \<Rightarrow> 'c set" where
  "task_conns (HtCheck conn _ _ _) = {conn}"
| "task_conns (HtAdd conn _ _ _) = {conn}"
| "task_conns _ = {}"

fun send_conns :: "'c hub_task \<Rightarrow> 'c set" where
  "send_conns (HtSend _ _ _ c) = set_option (ch_Conn c)"
| "send_conns (HtBlocked _ _ _ c) = set_option (ch_Conn c)"
| "send_conns _ = {}"

definition mapped :: "('c, 'b) hub \<Rightarrow> 'c set" where
  "mapped h = {conn. \<exists>u d. hub_meshConnections h u = Some d \<and> ch_Conn d = Some conn}"

definition held :: "'c hub_task list \<Rightarrow> 'c set" where
  "held ts = (\<Union>x \<in> set ts. task_conns x)"

definition sending :: "'c hub_task list \<Rightarrow> 'c set" where
  "sending ts = (\<Union>x \<in> set ts. send_conns x)"

text \<open>No two goroutines set up the same connection, and none sets up one of the known ones.\<close>

definition fresh :: "'c hub_task list \<Rightarrow> 'c set \<Rightarrow> 'c set \<Rightarrow> bool" where
  "fresh ts known used \<longleftrightarrow>
     (\<forall>i < length ts. \<forall>j < length ts. i \<noteq> j \<longrightarrow> task_conns (ts ! i) \<inter> task_conns (ts ! j) = {})
   \<and> held ts \<inter> known = {} \<and> held ts \<union> known \<subseteq> used"

abbreviation known :: "('c, 'b, 'w) hub_sys \<Rightarrow> 'c set" where
  "known s \<equiv> mapped (hy_hub s) \<union> hy_closed s \<union> sending (hy_tasks s)"

lemma held_simps [simp]:
  "held [] = {}" "held (ts @ [x]) = task_conns x \<union> held ts" "sending [] = {}" "sending (ts @ [x]) = send_conns x \<union> sending ts"
  by (auto simp: held_def sending_def)

lemma held_iff: "c \<in> held ts \<longleftrightarrow> (\<exists>i < length ts. c \<in> task_conns (ts ! i))"
  by (auto simp: held_def Bex_def in_set_conv_nth)

lemma held_nth: "k < length ts \<Longrightarrow> task_conns (ts ! k) \<subseteq> held ts"
  by (auto simp: held_iff)

lemma heldI: "k < length ts \<Longrightarrow> ts ! k = x \<Longrightarrow> c \<in> task_conns x \<Longrightarrow> c \<in> held ts"
  by (auto simp: held_iff)

lemma sending_nth: "k < length ts \<Longrightarrow> send_conns (ts ! k) \<subseteq> sending ts"
  unfolding sending_def by (rule UN_upper [OF nth_mem])

lemma held_update_iff:
  "k < length ts \<Longrightarrow>
     c \<in> held (ts[k := x]) \<longleftrightarrow> c \<in> task_conns x \<or> (\<exists>i < length ts. i \<noteq> k \<and> c \<in> task_conns (ts ! i))"
  by (auto simp: held_iff nth_list_update)

lemma held_update: "held (ts[k := x]) \<subseteq> task_conns x \<union> held ts"
  using set_update_subset_insert [of ts k x] by (auto simp: held_def)

lemma sending_update: "sending (ts[k := x]) \<subseteq> send_conns x \<union> sending ts"
  using set_update_subset_insert [of ts k x] by (auto simp: sending_def)

lemma fresh_append:
  assumes "fresh ts K U" and "task_conns x \<inter> U = {}" and "K' \<subseteq> K"
  shows "fresh (ts @ [x]) K' (task_conns x \<union> U)"
proof -
  have "task_conns (ts ! i) \<inter> task_conns x = {}" if "i < length ts" for i
    using held_nth [OF that] assms by (auto simp: fresh_def)
  with assms show ?thesis unfolding fresh_def by (auto simp: nth_append less_Suc_eq)
qed

lemma fresh_update:
  assumes "fresh ts K U" and "k < length ts" and "task_conns x \<subseteq> task_conns (ts ! k)"
    and "K' \<subseteq> K \<union> (task_conns (ts ! k) - task_conns x)"
  shows "fresh (ts[k := x]) K' U"
proof -
  have apart: "task_conns (ts ! i) \<inter> task_conns (ts ! j) = {}" if "i < length ts" "j < length ts" "i \<noteq> j" for i j
    using assms(1) that by (simp add: fresh_def)
  have old: "c \<in> U \<and> c \<notin> K" if "i < length ts" "c \<in> task_conns (ts ! i)" for i c
    using assms(1) held_nth [OF that(1)] that(2) by (auto simp: fresh_def)
  have "task_conns (ts[k := x] ! i) \<inter> task_conns (ts[k := x] ! j) = {}"
    if "i < length ts" "j < length ts" "i \<noteq> j" for i j
    using apart [OF that] apart [OF that(1) assms(2)] apart [OF assms(2) that(2)] assms(2,3) that
    by (cases "i = k"; cases "j = k") auto
  moreover have "c \<in> U \<and> c \<notin> K'" if "c \<in> held (ts[k := x])" for c
  proof (cases "c \<in> task_conns x")
    case True
    with old [OF assms(2)] assms(3,4) show ?thesis by auto
  next
    case False
    with that obtain i where i: "i < length ts" "i \<noteq> k" "c \<in> task_conns (ts ! i)"
      by (auto simp: held_update_iff [OF assms(2)])
    with apart [OF i(1) assms(2) i(2)] old [OF i(1,3)] assms(4) show ?thesis by auto
  qed
  moreover have "K' \<subseteq> U" using assms(1,4) held_nth [OF assms(2)] unfolding fresh_def by blast
  ultimately show ?thesis unfolding fresh_def by auto
qed

lemma fresh_mono: "fresh ts K U \<Longrightarrow> K' \<subseteq> K \<Longrightarrow> fresh ts K' U"
  by (auto simp: fresh_def)

lemma mapped_shape:
  "same_shape h' h \<Longrightarrow> hub_meshConnections h' u = Some d \<Longrightarrow> ch_Conn d = x \<Longrightarrow>
     \<exists>e. hub_meshConnections h u = Some e \<and> ch_Conn e = x"
  unfolding same_shape_def by (metis option_rel_Some1 same_handler_def)

lemma remove_mesh: "hub_meshConnections (hub_removeMeshConnection h u) = (hub_meshConnections h)(u := None)"
  by (simp add: hub_removeMeshConnection_def)

lemma mapped_some: "hub_meshConnections h u = Some d \<Longrightarrow> ch_Conn d = Some conn \<Longrightarrow> conn \<in> mapped h"
  by (auto simp: mapped_def)

lemma mappedI: "hub_meshConnections h u = Some d \<Longrightarrow> set_option (ch_Conn d) \<subseteq> mapped h"
  by (auto simp: mapped_def)

lemma pick_conns:
  "tunnel_pick h cap msg n = (x, h') \<Longrightarrow> task_conns x = {} \<and> send_conns x \<subseteq> mapped h"
  by (auto simp: tunnel_pick_def intro: mapped_some split: sum.splits prod.splits option.splits if_splits)

lemma send_result_conns:
  "tunnel_send ops cap msg n d w = (x, w') \<Longrightarrow> task_conns x = {} \<and> send_conns x \<subseteq> set_option (ch_Conn d)"
  by (auto simp: tunnel_send_def split: sum.splits prod.splits send_result.splits)

lemma behind_conn: "behind h c d \<Longrightarrow> ch_Conn d = ch_Conn c"
  by (auto simp: behind_def same_handler_def split: option.splits if_splits)

text \<open>One step: what is filed under a peer was there before, or comes from a goroutine that sets it up.\<close>

lemma step_filed:
  assumes "hub_inter ops s t" and "hub_meshConnections (hy_hub t) u = Some d" and "ch_Conn d = Some conn"
  shows "conn \<in> held (hy_tasks s) \<or> (\<exists>e. hub_meshConnections (hy_hub s) u = Some e \<and> ch_Conn e = Some conn)"
  using assms(1)
proof (cases rule: hub_inter.cases)
  case (add k c v bt ints)
  then show ?thesis
    using assms(2,3) held_nth [OF add(2)] by (auto simp: split: if_splits)
next
  case (pick k cap msg n x h)
  from mapped_shape [OF tunnel_pick_shape [OF pick(4)] _ assms(3)] assms(2) pick(1) show ?thesis by simp
next
  case (scan_one seen v todo rm e rm' h w)
  from mapped_shape [OF same_shape_scan_loop [OF scan_one(5)] _ assms(3)] assms(2) scan_one(1) show ?thesis by simp
next
  case (remove v us)
  with assms(2,3) show ?thesis by (auto simp: remove_mesh split: if_splits)
next
  case (broadcast us msg r h w)
  from mapped_shape [OF same_shape_messageHandler [OF broadcast(4)] _ assms(3)] assms(2) broadcast(1) show ?thesis by simp
next
  case (handler v c e)
  with assms(2,3) show ?thesis by (auto simp: same_handler_def split: if_splits)
qed (use assms(2,3) in auto)

lemma step_mapped: "hub_inter ops s t \<Longrightarrow> mapped (hy_hub t) \<subseteq> mapped (hy_hub s) \<union> held (hy_tasks s)"
  using step_filed [of ops s t] by (fastforce simp: mapped_def)

lemma step_closed: "hub_inter ops s t \<Longrightarrow> hy_closed t \<subseteq> hy_closed s \<union> mapped (hy_hub s) \<union> held (hy_tasks s)"
  by (erule hub_inter.cases) (auto simp: held_iff dest: mappedI split: if_splits)

lemma step_held: "hub_inter ops s t \<Longrightarrow> held (hy_tasks t) \<subseteq> held (hy_tasks s) \<union> (hy_used t - hy_used s)"
  by (erule hub_inter.cases)
    (auto dest!: held_update [THEN subsetD] dest: pick_conns send_result_conns intro: heldI)

lemma step_used: "hub_inter ops s t \<Longrightarrow> hy_used s \<subseteq> hy_used t"
  by (erule hub_inter.cases) auto

lemma mapped_shape_sub: "same_shape h' h \<Longrightarrow> mapped h' \<subseteq> mapped h"
  unfolding mapped_def using mapped_shape [of h' h] by blast

lemma mapped_remove: "mapped (hub_removeMeshConnection h u) \<subseteq> mapped h"
  by (auto simp: mapped_def remove_mesh)

lemma mapped_add: "mapped (hub_addConnection h conn u bt ints) \<subseteq> insert conn (mapped h)"
  by (auto simp: mapped_def split: if_splits)

lemma mapped_handler:
  "hub_meshConnections h u = Some c \<Longrightarrow> same_handler d c \<Longrightarrow>
     mapped (h\<lparr>hub_meshConnections := (hub_meshConnections h)(u \<mapsto> d)\<rparr>) \<subseteq> mapped h"
  by (rule mapped_shape_sub [OF same_shape_update])

abbreviation inter_fresh :: "('c, 'b, 'w) hub_sys \<Rightarrow> bool" where
  "inter_fresh s \<equiv> fresh (hy_tasks s) (known s) (hy_used s)"

lemma fresh_step_update:
  assumes "inter_fresh s" and "k < length (hy_tasks s)" and "hy_tasks t = (hy_tasks s)[k := x]" and "hy_used t = hy_used s"
    and "task_conns x \<subseteq> task_conns (hy_tasks s ! k)"
    and "mapped (hy_hub t) \<union> hy_closed t \<union> send_conns x \<subseteq> known s \<union> (task_conns (hy_tasks s ! k) - task_conns x)"
  shows "inter_fresh t"
  unfolding assms(3,4)
  by (rule fresh_update [OF assms(1,2,5)]) (use assms(6) sending_update [of "hy_tasks s" k x] in blast)

lemma fresh_step_hub:
  assumes "inter_fresh s" and "hy_tasks t = hy_tasks s" and "hy_used t = hy_used s"
    and "mapped (hy_hub t) \<union> hy_closed t \<subseteq> known s"
  shows "inter_fresh t"
  unfolding assms(2,3) by (rule fresh_mono [OF assms(1)]) (use assms(4) in blast)

lemma inter_fresh_init: "inter_hub_init s \<Longrightarrow> inter_fresh s"
  by (auto simp: inter_hub_init_def fresh_def mapped_def new_hub_def)

lemma inter_fresh_step:
  assumes "hub_inter ops s t" and fr: "inter_fresh s"
  shows "inter_fresh t"
  using assms(1)
proof (cases rule: hub_inter.cases)
  case (handshake u conn bt ints)
  have "fresh (hy_tasks s @ [HtCheck conn u bt ints]) (known s) (task_conns (HtCheck conn u bt ints) \<union> hy_used s)"
    by (rule fresh_append [OF fr]) (use handshake in auto)
  with handshake show ?thesis by simp
next
  case (tunnel cap msg)
  define x :: "'a hub_task" where "x = (if hub_capabilityBalancers (hy_hub s) cap = None
    then HtTold (Some ErrTunnelNotEstablished) else HtPick cap msg tunnelRetryCount)"
  have "task_conns x = {}" "send_conns x = {}" by (simp_all add: x_def)
  with fresh_append [OF fr, of x "known s"] tunnel show ?thesis by (simp flip: x_def)
next
  case (check k conn u bt ints)
  then show ?thesis by (intro fresh_step_update [OF fr check(2)]) auto
next
  case (duplicate k conn u bt ints)
  then show ?thesis by (intro fresh_step_update [OF fr duplicate(2)]) auto
next
  case (add k conn u bt ints)
  then show ?thesis
    using mapped_add [of "hy_hub s" conn u bt ints] by (intro fresh_step_update [OF fr add(2)]) auto
next
  case (pick k cap msg n x h)
  then show ?thesis
    using pick_conns [OF pick(4)] mapped_shape_sub [OF tunnel_pick_shape [OF pick(4)]]
    by (intro fresh_step_update [OF fr pick(2)]) auto
next
  case (give_up k cap msg)
  then show ?thesis by (intro fresh_step_update [OF fr give_up(2)]) auto
next
  case (send k cap msg n c d x w)
  have "set_option (ch_Conn c) \<subseteq> sending (hy_tasks s)" using sending_nth [OF send(2)] send(3) by simp
  with send send_result_conns [OF send(5)] behind_conn [OF send(4)] show ?thesis
    by (intro fresh_step_update [OF fr send(2)]) auto
next
  case (scan_release seen u todo rm d k cap msg n c r w)
  then show ?thesis
    using mappedI [OF scan_release(3)] by (intro fresh_step_update [OF fr scan_release(4)]) auto
next
  case (scan_one seen u todo rm d rm' h w)
  then show ?thesis
    using mappedI [OF scan_one(3)] mapped_shape_sub [OF same_shape_scan_loop [OF scan_one(5)]]
    by (intro fresh_step_hub [OF fr]) auto
next
  case (remove u us)
  then show ?thesis using mapped_remove [of "hy_hub s" u] by (intro fresh_step_hub [OF fr]) auto
next
  case (broadcast us msg r h w)
  then show ?thesis
    using mapped_shape_sub [OF same_shape_messageHandler [OF broadcast(4)]] by (intro fresh_step_hub [OF fr]) auto
next
  case (handler u c d)
  then show ?thesis using mapped_handler [OF handler(2,3)] by (intro fresh_step_hub [OF fr]) auto
qed (use fr in \<open>auto intro: fresh_step_hub\<close>)

section \<open>Panics\<close>

text \<open>With the lock held and every connection in place a broadcast cannot panic, and neither can a scan.\<close>

lemma mild_broadcast:
  "hub_mild h \<Longrightarrow> set us \<subseteq> dom (hub_meshConnections h) \<Longrightarrow> hub_messageHandler ops h us msg w \<noteq> Inl e"
proof (induction ops h us msg w rule: hub_messageHandler.induct)
  case (2 ops h u us msg w)
  then obtain c where c: "hub_meshConnections h u = Some c" by auto
  obtain r c' w' where s: "connectionHandler_Send ops c msg w = Inr (r, c', w')"
    using Send_result [OF hub_mild_handler [OF 2(3) c], of ops msg w] by blast
  let ?h = "h\<lparr>hub_meshConnections := (hub_meshConnections h)(u \<mapsto> c')\<rparr>"
  have "hub_mild ?h" by (rule hub_mild_shape [OF same_shape_update [OF c Send_same [OF s]] 2(3)])
  moreover have "set us \<subseteq> dom (hub_meshConnections ?h)" using 2(4) by auto
  ultimately show ?case using 2(1,2) [OF _ s] c s by (cases r) (auto simp del: fun_upd_apply)
qed simp

lemma mild_scan:
  "hub_mild h \<Longrightarrow> hub_meshConnections h u = Some d \<Longrightarrow>
     scan_loop ops h [u] rm w \<noteq> Inl e \<and> connectionHandler_Close ops d w' \<noteq> Inl e"
proof -
  assume "hub_mild h" and d: "hub_meshConnections h u = Some d"
  then have "handler_of u d" by (rule hub_mild_handler)
  then have "connectionHandler_Close ops d v \<noteq> Inl x" for v x using Close_result [of u d ops v] by auto
  with d show ?thesis by (auto split: list.split sum.split)
qed

lemma update_keeps: "x \<in> set ts \<Longrightarrow> ts ! k \<noteq> x \<Longrightarrow> x \<in> set (ts[k := y])"
  by (metis in_set_conv_nth length_list_update nth_list_update_neq)

lemma panic_stays: "hub_inter ops s t \<Longrightarrow> HtPanic e \<in> set (hy_tasks s) \<Longrightarrow> HtPanic e \<in> set (hy_tasks t)"
  by (erule hub_inter.cases) (auto intro!: update_keeps)

definition known_panics :: "('c, 'b, 'w) hub_sys \<Rightarrow> bool" where
  "known_panics s \<longleftrightarrow> (\<forall>e \<in> hy_panics s. e = ConcurrentMapAccess \<or> HtPanic e \<in> set (hy_tasks s))"

lemma known_panics_init: "inter_hub_init s \<Longrightarrow> known_panics s"
  by (auto simp: inter_hub_init_def known_panics_def)

lemma known_panics_step:
  assumes "hub_inter ops s t" and old: "known_panics s" and mild: "hub_mild (hy_hub s)"
  shows "known_panics t"
proof -
  have keep: ?thesis if "hy_panics t \<subseteq> hy_panics s \<union> {ConcurrentMapAccess} \<union> {e. HtPanic e \<in> set (hy_tasks t)}"
    using that old panic_stays [OF assms(1)] by (auto simp: known_panics_def)
  have new: "task_panics x \<subseteq> {e. HtPanic e \<in> set (ts[k := x])}" if "k < length ts" for x k and ts :: "'a hub_task list"
    using set_update_memI [OF that, of x] by (rule_tac hub_task.exhaust [of x]) auto
  from assms(1) show ?thesis
  proof (cases rule: hub_inter.cases)
    case (pick k cap msg n x h)
    then show ?thesis using new [OF pick(2), of x] by (intro keep) auto
  next
    case (send k cap msg n c d x w)
    then show ?thesis using new [OF send(2), of x] by (intro keep) auto
  next
    case (scan_panic seen u todo rm d e)
    have "scan_loop ops (hy_hub s) [u] rm (hy_world s) \<noteq> Inl e" "connectionHandler_Close ops d (hy_world s) \<noteq> Inl e"
      by (rule mild_scan [OF mild scan_panic(3), THEN conjunct1], rule mild_scan [OF mild scan_panic(3), THEN conjunct2])
    with scan_panic(4) show ?thesis by simp
  next
    case (broadcast_panic us msg e)
    have "set us \<subseteq> dom (hub_meshConnections (hy_hub s))" by (simp add: broadcast_panic(3))
    from mild_broadcast [OF mild this, of ops msg "hy_world s" e] broadcast_panic(4) show ?thesis by simp
  qed (rule keep; simp; blast?)+
qed

definition inter_inv :: "('c, 'b, 'w) hub_sys \<Rightarrow> bool" where
  "inter_inv s \<longleftrightarrow> inter_ok (hy_hub s) (hy_tasks s) \<and> inter_fresh s \<and> known_panics s"

interpretation interhub: invariant_system inter_hub_init "hub_inter ops" inter_inv for ops
proof unfold_locales
  show "inter_inv s" if "inter_hub_init s" for s :: "('a, 'b, 'c) hub_sys"
    using that by (simp add: inter_inv_def inter_ok_init inter_fresh_init known_panics_init)
  show "inter_inv t" if "inter_inv s" "hub_inter ops s t" for s t :: "('a, 'b, 'c) hub_sys"
    using that by (auto simp: inter_inv_def inter_ok_def dest: inter_ok_step inter_fresh_step known_panics_step)
qed

text \<open>A connection that is neither with a goroutine nor in the map, and not closed, stays so.\<close>

definition lost :: "'c \<Rightarrow> ('c, 'b, 'w) hub_sys \<Rightarrow> bool" where
  "lost conn s \<longleftrightarrow> conn \<in> hy_used s \<and> conn \<notin> hy_closed s \<and> conn \<notin> held (hy_tasks s) \<and> conn \<notin> mapped (hy_hub s)"

lemma lost_step: "lost conn s \<Longrightarrow> hub_inter ops s t \<Longrightarrow> lost conn t"
  using step_mapped [of ops s t] step_closed [of ops s t] step_held [of ops s t] step_used [of ops s t]
  unfolding lost_def by blast

lemma lost_forever: "(hub_inter ops)\<^sup>*\<^sup>* s t \<Longrightarrow> lost conn s \<Longrightarrow> lost conn t"
  by (induction rule: rtranclp_induct) (auto intro: lost_step)

section \<open>Without overlapping handshakes\<close>

text \<open>The steps after which no two goroutines set up a connection to the same peer.\<close>

fun setup_peer :: "'c hub_task \<Rightarrow> uuid option" where
  "setup_peer (HtCheck _ u _ _) = Some u"
| "setup_peer (HtAdd _ u _ _) = Some u"
| "setup_peer _ = None"

definition apart :: "'c hub_task list \<Rightarrow> bool" where
  "apart ts \<longleftrightarrow> (\<forall>i < length ts. \<forall>j < length ts. i \<noteq> j \<and> setup_peer (ts ! i) \<noteq> None \<longrightarrow> setup_peer (ts ! i) \<noteq> setup_peer (ts ! j))"

definition hub_apart :: "('c, 'w) connection \<Rightarrow> ('c, 'b, 'w) hub_sys \<Rightarrow> ('c, 'b, 'w) hub_sys \<Rightarrow> bool" where
  "hub_apart ops s t \<longleftrightarrow> hub_inter ops s t \<and> apart (hy_tasks t)"

text \<open>Then what \<open>findConnection\<close> has said is still true when the connection is added.\<close>

definition adding_ok :: "('c, 'b) hub \<Rightarrow> 'c hub_task list \<Rightarrow> bool" where
  "adding_ok h ts \<longleftrightarrow> (\<forall>conn u bt ints. HtAdd conn u bt ints \<in> set ts \<longrightarrow> u \<noteq> '''' \<and> hub_meshConnections h u = None)"

definition exact_inv :: "('c, 'b, 'w) hub_sys \<Rightarrow> bool" where
  "exact_inv s \<longleftrightarrow> hub_ok (hy_hub s) \<and> inter_ok (hy_hub s) (hy_tasks s) \<and> apart (hy_tasks s) \<and> adding_ok (hy_hub s) (hy_tasks s)"

lemma adding_hub: "adding_ok h ts \<Longrightarrow> (\<And>u. hub_meshConnections h u = None \<Longrightarrow> hub_meshConnections h' u = None) \<Longrightarrow> adding_ok h' ts"
  by (auto simp: adding_ok_def)

lemma shape_none: "same_shape h' h \<Longrightarrow> hub_meshConnections h u = None \<Longrightarrow> hub_meshConnections h' u = None"
  unfolding same_shape_def by (metis option_rel_Some1 not_None_eq option.distinct(1) rel_option_None2)

lemma adding_shape: "adding_ok h ts \<Longrightarrow> same_shape h' h \<Longrightarrow> adding_ok h' ts"
  by (erule adding_hub) (rule shape_none)

lemma adding_append: "adding_ok h ts \<Longrightarrow> \<forall>conn u bt ints. x \<noteq> HtAdd conn u bt ints \<Longrightarrow> adding_ok h (ts @ [x])"
  by (auto simp: adding_ok_def)

lemma adding_update: "adding_ok h ts \<Longrightarrow> \<forall>conn u bt ints. x \<noteq> HtAdd conn u bt ints \<Longrightarrow> adding_ok h (ts[k := x])"
  by (auto simp: adding_ok_def dest!: set_update_subset_insert [THEN subsetD])

lemma tunnel_pick_ok: "tunnel_pick h cap msg n = (x, h') \<Longrightarrow> hub_ok h \<Longrightarrow> hub_ok h'"
  by (auto simp: tunnel_pick_def go_deref_def split: option.splits sum.splits prod.splits if_splits intro: hub_ok_next)

lemma tunnel_pick_no_add: "tunnel_pick h cap msg n = (x, h') \<Longrightarrow> x \<noteq> HtAdd conn u bt ints"
  by (auto simp: tunnel_pick_def split: option.splits sum.splits prod.splits if_splits)

lemma tunnel_send_no_add: "tunnel_send ops cap msg n d w = (x, w') \<Longrightarrow> x \<noteq> HtAdd conn u bt ints"
  by (auto simp: tunnel_send_def split: sum.splits prod.splits send_result.splits)

lemma apart_add:
  assumes "apart ts" and "k < length ts" and "ts ! k = HtAdd conn u bt ints"
  shows "HtAdd conn' u bt' ints' \<notin> set (ts[k := HtDone])"
proof
  assume "HtAdd conn' u bt' ints' \<in> set (ts[k := HtDone])"
  then obtain i where "i < length ts" "ts[k := HtDone] ! i = HtAdd conn' u bt' ints'" by (auto simp: in_set_conv_nth)
  then have "i < length ts" "i \<noteq> k" "ts ! i = HtAdd conn' u bt' ints'" by (cases "i = k"; simp)+
  then show False using assms unfolding apart_def by (metis option.distinct(1) setup_peer.simps(2))
qed

lemma exact_add:
  assumes inv: "hub_ok h" "apart ts" "adding_ok h ts" and k: "k < length ts" "ts ! k = HtAdd conn u bt ints"
  shows "hub_ok (hub_addConnection h conn u bt ints) \<and> adding_ok (hub_addConnection h conn u bt ints) (ts[k := HtDone])"
proof
  have "HtAdd conn u bt ints \<in> set ts" using k by (metis nth_mem)
  then have u: "hub_meshConnections h u = None" "u \<noteq> ''''" using inv(3) by (auto simp: adding_ok_def)
  show "hub_ok (hub_addConnection h conn u bt ints)" by (rule hub_ok_add [OF inv(1) u])
  have "v \<noteq> u" if "HtAdd c v b is \<in> set (ts[k := HtDone])" for c v b "is"
    using apart_add [OF inv(2) k] that by blast
  then show "adding_ok (hub_addConnection h conn u bt ints) (ts[k := HtDone])"
    using adding_update [OF inv(3), of HtDone k] by (auto simp: adding_ok_def)
qed

lemma exact_check:
  assumes "hub_ok h" and "adding_ok h ts" and "hub_findConnection h u = None" and "u \<noteq> ''''"
  shows "adding_ok h (ts[k := HtAdd conn u bt ints])"
  using assms by (auto simp: adding_ok_def find_none dest!: set_update_subset_insert [THEN subsetD])

lemma exact_step:
  assumes "hub_inter ops s t" and "exact_inv s"
  shows "hub_ok (hy_hub t) \<and> adding_ok (hy_hub t) (hy_tasks t)"
proof -
  have ok: "hub_ok (hy_hub s)" and ap: "apart (hy_tasks s)" and ad: "adding_ok (hy_hub s) (hy_tasks s)"
      and io: "inter_ok (hy_hub s) (hy_tasks s)"
    using assms(2) by (simp_all add: exact_inv_def)
  from assms(1) show ?thesis
  proof (cases rule: hub_inter.cases)
    case (check k conn u bt ints)
    have "u \<noteq> ''''" using inter_ok_task [OF io check(2,3)] by simp
    with exact_check [OF ok ad check(4)] check ok show ?thesis by simp
  next
    case (add k conn u bt ints)
    with exact_add [OF ok ap ad add(2,3)] show ?thesis by simp
  next
    case (pick k cap msg n x h)
    have "adding_ok (hy_hub s) ((hy_tasks s)[k := x])"
      using tunnel_pick_no_add [OF pick(4)] by (intro adding_update [OF ad]) blast
    with adding_shape [OF _ tunnel_pick_shape [OF pick(4)]] tunnel_pick_ok [OF pick(4) ok] pick show ?thesis by simp
  next
    case (send k cap msg n c d x w)
    have "adding_ok (hy_hub s) ((hy_tasks s)[k := x])"
      using tunnel_send_no_add [OF send(5)] by (intro adding_update [OF ad]) blast
    with send ok show ?thesis by simp
  next
    case (remove u us)
    have "adding_ok (hub_removeMeshConnection (hy_hub s) u) (hy_tasks s)"
      by (rule adding_hub [OF ad]) (simp add: remove_mesh)
    with hub_ok_remove [OF ok] remove show ?thesis by simp
  next
    case (handler u c d)
    with adding_shape [OF ad same_shape_update [OF handler(2,3)]] hub_ok_update [OF ok handler(2,3)] show ?thesis by simp
  next
    case (scan_one seen u todo rm d rm' h w)
    with adding_shape [OF ad same_shape_scan_loop [OF scan_one(5)]] scan_loop_ok [OF ok scan_one(5)] show ?thesis by simp
  next
    case (broadcast us msg r h w)
    with adding_shape [OF ad same_shape_messageHandler [OF broadcast(4)]] messageHandler_ok [OF ok broadcast(4)]
    show ?thesis by simp
  qed (use ok ad in \<open>auto intro!: adding_append adding_update\<close>)
qed

interpretation aparthub: invariant_system inter_hub_init "hub_apart ops" exact_inv for ops
proof unfold_locales
  show "exact_inv s" if "inter_hub_init s" for s :: "('a, 'b, 'c) hub_sys"
    using that inter_ok_init [OF that]
    by (auto simp: exact_inv_def inter_hub_init_def hub_ok_new apart_def adding_ok_def)
  show "exact_inv t" if "exact_inv s" "hub_apart ops s t" for s t :: "('a, 'b, 'c) hub_sys"
    using that exact_step [of ops s t] inter_ok_step [of ops s t] by (simp add: hub_apart_def exact_inv_def)
qed

section \<open>A tunnel on its own\<close>




section \<open>A run to try the properties on\<close>

definition inter_start :: "(nat, nat, nat set) hub_sys" where
  "inter_start = \<lparr>hy_hub = new_hub ''a'' ''*'' [], hy_world = {}, hy_tasks = [], hy_scan = HsSleep, hy_used = {}, hy_closed = {}, hy_panics = {}\<rparr>"

lemma inter_start_reach: "reach inter_hub_init (hub_apart ops) inter_start"
  by (rule reach_init) (auto simp: inter_hub_init_def inter_start_def)

text \<open>The peer \<open>''b''\<close> is connected.\<close>

lemma inter_sample_reach:
  "reach inter_hub_init (hub_apart ops) (inter_start\<lparr>hy_hub := sample_hub, hy_tasks := [HtDone], hy_used := {0}\<rparr>)"
proof -
  let ?t1 = "inter_start\<lparr>hy_tasks := [HtCheck 0 ''b'' ''*'' [''cap'']], hy_used := {0}\<rparr>"
  let ?t2 = "?t1\<lparr>hy_tasks := [HtAdd 0 ''b'' ''*'' [''cap'']]\<rparr>"
  have "hub_apart ops inter_start ?t1"
    using hub_inter.handshake [of "''b''" 0 inter_start ops "''*''" "[''cap'']"] by (simp add: inter_start_def hub_apart_def apart_def)
  with inter_start_reach have r1: "reach inter_hub_init (hub_apart ops) ?t1" by (rule reach_step)
  have "hub_apart ops ?t1 ?t2"
    using hub_inter.check [of 0 ?t1 0 "''b''" "''*''" "[''cap'']" ops]
    by (simp add: inter_start_def hub_findConnection_def new_hub_def hub_apart_def apart_def)
  with r1 have r2: "reach inter_hub_init (hub_apart ops) ?t2" by (rule reach_step)
  have "hub_apart ops ?t2 (inter_start\<lparr>hy_hub := sample_hub, hy_tasks := [HtDone], hy_used := {0}\<rparr>)"
    using hub_inter.add [of 0 ?t2 0 "''b''" "''*''" "[''cap'']" ops] by (simp add: inter_start_def sample_hub_def hub_apart_def apart_def)
  with r2 show ?thesis by (rule reach_step)
qed

lemma apart_reach: "reach inter_hub_init (hub_apart ops) s \<Longrightarrow> reach inter_hub_init (hub_inter ops) s"
  by (induction rule: reach.induct) (auto simp: hub_apart_def intro: reach_init reach_step)

section \<open>Properties\<close>

text \<open>Property C5. As long as no two handshakes with the same peer overlap, the hub is exactly consistent, however the
  goroutines that set up connections, tunnel, scan and broadcast are interleaved between their locks: every connection is
  filed under the non-empty UUID of its handler and can
  be found, and the balancer of a capability holds a peer exactly as often as the peer, if it
  is connected, advertises the capability.\<close>

theorem hub_exact_without_overlap:
  assumes "reach inter_hub_init (hub_apart ops) s"
  shows "(\<forall>u c. hub_meshConnections (hy_hub s) u = Some c \<longrightarrow>
       ch_UUID c = u \<and> u \<noteq> '''' \<and> hub_findConnection (hy_hub s) u \<noteq> None)
    \<and> (\<forall>cap b. hub_capabilityBalancers (hy_hub s) cap = Some b \<longrightarrow>
         (\<forall>u. count_list (bal_uuids b) u =
            (case hub_meshConnections (hy_hub s) u of None \<Rightarrow> 0 | Some c \<Rightarrow> count_list (ch_Interests c) cap)))
    \<and> (\<forall>u c cap. hub_meshConnections (hy_hub s) u = Some c \<and> cap \<in> set (ch_Interests c) \<longrightarrow>
         hub_capabilityBalancers (hy_hub s) cap \<noteq> None)"
proof -
  let ?h = "hy_hub s"
  have ok: "hub_ok ?h" using aparthub.inv_reach [OF assms] by (simp add: exact_inv_def)
  have "hub_capabilityBalancers ?h cap \<noteq> None"
    if "hub_meshConnections ?h u = Some c" "cap \<in> set (ch_Interests c)" for u c cap
  proof
    assume "hub_capabilityBalancers ?h cap = None"
    then have "advertised ?h cap u = 0" using ok unfolding hub_ok_def by (metis (mono_tags, lifting) option.simps(4))
    with that show False by (simp add: advertised_def count_list_0_iff)
  qed
  with ok show ?thesis
    using hub_ok_handler [OF ok] hub_ok_balancer [OF ok]
    by (auto simp: handler_of_def hub_findConnection_def advertised_def)
qed

theorem hub_exact_without_overlap_witness:
  "hub_findConnection sample_hub ''b'' \<noteq> None"
  using hub_exact_without_overlap [OF inter_sample_reach [of sample_ops]] by (simp add: sample_handler)

text \<open>Property C6. Also with overlapping handshakes every connection is filed under the non-empty UUID of its handler
  and can be found, a balancer only ever holds peers that are connected, and it holds every connected peer that advertises its
  capability. No broadcast and no scan panics: what ends the program is a tunnel that finds its balancer empty, or
  a connection that is added while the scanner or a tunnel reads a map without the lock.\<close>

theorem hub_interleaved_consistent:
  assumes "reach inter_hub_init (hub_inter ops) s"
  shows "(\<forall>u c. hub_meshConnections (hy_hub s) u = Some c \<longrightarrow>
       ch_UUID c = u \<and> u \<noteq> '''' \<and> hub_findConnection (hy_hub s) u \<noteq> None)
    \<and> (\<forall>cap b u. hub_capabilityBalancers (hy_hub s) cap = Some b \<and> u \<in> set (bal_uuids b) \<longrightarrow>
         hub_meshConnections (hy_hub s) u \<noteq> None)
    \<and> (\<forall>u c cap. hub_meshConnections (hy_hub s) u = Some c \<and> cap \<in> set (ch_Interests c) \<longrightarrow>
         (\<exists>b. hub_capabilityBalancers (hy_hub s) cap = Some b \<and> u \<in> set (bal_uuids b)))
    \<and> (\<forall>e \<in> hy_panics s. e = ConcurrentMapAccess \<or> e = IndexOutOfRange \<and> HtPanic IndexOutOfRange \<in> set (hy_tasks s))"
proof -
  let ?h = "hy_hub s"
  have ok: "hub_mild ?h" and tasks: "\<forall>x \<in> set (hy_tasks s). task_ok ?h x" and panics: "known_panics s"
    using interhub.inv_reach [OF assms] by (simp_all add: inter_inv_def inter_ok_def)
  have "ch_UUID c = u \<and> u \<noteq> '''' \<and> hub_findConnection ?h u \<noteq> None" if "hub_meshConnections ?h u = Some c" for u c
    using hub_mild_handler [OF ok that] that by (simp add: handler_of_def hub_findConnection_def)
  moreover have "hub_meshConnections ?h u \<noteq> None" if "hub_capabilityBalancers ?h cap = Some b" "u \<in> set (bal_uuids b)" for cap b u
    using ok that unfolding hub_mild_def entries_def by (metis option.simps(5))
  moreover have "\<exists>b. hub_capabilityBalancers ?h cap = Some b \<and> u \<in> set (bal_uuids b)"
    if "hub_meshConnections ?h u = Some c" "cap \<in> set (ch_Interests c)" for u c cap
  proof -
    have "u \<in> set (entries ?h cap)" using ok that unfolding hub_mild_def by blast
    then show ?thesis by (cases "hub_capabilityBalancers ?h cap") (auto simp: entries_def)
  qed
  moreover have "e = ConcurrentMapAccess \<or> e = IndexOutOfRange \<and> HtPanic IndexOutOfRange \<in> set (hy_tasks s)"
    if "e \<in> hy_panics s" for e
    using panics tasks that unfolding known_panics_def by fastforce
  ultimately show ?thesis by blast
qed

theorem hub_interleaved_consistent_witness:
  "hub_findConnection sample_hub ''b'' \<noteq> None
     \<and> (\<exists>b. hub_capabilityBalancers sample_hub ''cap'' = Some b \<and> ''b'' \<in> set (bal_uuids b))"
proof -
  let ?s = "inter_start\<lparr>hy_hub := sample_hub, hy_tasks := [HtDone], hy_used := {0}\<rparr>"
  have "hub_meshConnections (hy_hub ?s) ''b'' = Some (the (hub_meshConnections sample_hub ''b''))"
    and "''cap'' \<in> set (ch_Interests (the (hub_meshConnections sample_hub ''b'')))"
    by (simp_all add: sample_handler)
  with hub_interleaved_consistent [OF apart_reach [OF inter_sample_reach [of sample_ops]]] show ?thesis by simp
qed

lemma handshake_race_run:
  assumes "hub_findConnection (hy_hub s) u = None"
    and "j < length (hy_tasks s)" and "hy_tasks s ! j = HtCheck c1 u bt1 ints1"
    and "k < length (hy_tasks s)" and "hy_tasks s ! k = HtCheck c2 u bt2 ints2" and "j \<noteq> k"
  shows "(hub_inter ops)\<^sup>*\<^sup>* s
    (s\<lparr>hy_hub := hub_addConnection (hub_addConnection (hy_hub s) c1 u bt1 ints1) c2 u bt2 ints2,
       hy_tasks := (hy_tasks s)[j := HtDone, k := HtDone]\<rparr>)"
proof -
  let ?t = "s\<lparr>hy_hub := hub_addConnection (hub_addConnection (hy_hub s) c1 u bt1 ints1) c2 u bt2 ints2,
    hy_tasks := (hy_tasks s)[j := HtDone, k := HtDone]\<rparr>"
  let ?ts1 = "(hy_tasks s)[j := HtAdd c1 u bt1 ints1]"
  let ?ts2 = "?ts1[k := HtAdd c2 u bt2 ints2]"
  let ?h1 = "hub_addConnection (hy_hub s) c1 u bt1 ints1"
  let ?s1 = "s\<lparr>hy_tasks := ?ts1\<rparr>" and ?s2 = "s\<lparr>hy_tasks := ?ts2\<rparr>"
  let ?s3 = "s\<lparr>hy_hub := ?h1, hy_tasks := ?ts2[j := HtDone]\<rparr>"
  have "hub_inter ops s ?s1" by (rule hub_inter.check [OF assms(2,3,1)])
  moreover have "hub_inter ops ?s1 ?s2"
    using hub_inter.check [of k ?s1 c2 u bt2 ints2 ops] assms(1,4-6) by simp
  moreover have "hub_inter ops ?s2 ?s3"
    using hub_inter.add [of j ?s2 c1 u bt1 ints1 ops] assms(2,6) by simp
  moreover have "hub_inter ops ?s3 ?t"
    using hub_inter.add [of k ?s3 c2 u bt2 ints2 ops] assms(4,6) by (simp add: list_update_swap)
  ultimately show ?thesis by (meson converse_rtranclp_into_rtranclp rtranclp.rtrancl_refl)
qed

text \<open>A peer that advertises a capability in both handshakes stands in its balancer twice.\<close>

lemma handshake_race_balancer:
  assumes "cap \<in> set ints1 \<inter> set ints2"
  shows "\<exists>b. hub_capabilityBalancers (hub_addConnection (hub_addConnection h c1 u bt1 ints1) c2 u bt2 ints2) cap = Some b
    \<and> 2 \<le> count_list (bal_uuids b) u"
proof -
  let ?h = "hub_addConnection (hub_addConnection h c1 u bt1 ints1) c2 u bt2 ints2"
  have "0 < count_list ints1 cap" "0 < count_list ints2 cap"
    using assms by (auto simp: count_list_0_iff intro: gr0I)
  then have "2 \<le> count_list (entries ?h cap) u" by (simp add: add_entries count_list_replicate)
  then show ?thesis by (cases "hub_capabilityBalancers ?h cap") (auto simp: entries_def)
qed

text \<open>Property C7. Two handshakes with the same peer that both look for a connection before either adds its
  own both succeed: the second connection takes the place of the first, the balancers count the peer twice, and the
  first is neither found nor closed in any later state, although nothing of the hub reports an error.\<close>

theorem handshake_race_loses_connection:
  assumes "reach inter_hub_init (hub_inter ops) s" and "hub_findConnection (hy_hub s) u = None"
    and "j < length (hy_tasks s)" and "hy_tasks s ! j = HtCheck c1 u bt1 ints1"
    and "k < length (hy_tasks s)" and "hy_tasks s ! k = HtCheck c2 u bt2 ints2" and "j \<noteq> k"
  shows "\<exists>t. (hub_inter ops)\<^sup>*\<^sup>* s t \<and> hy_tasks t ! j = HtDone \<and> hy_tasks t ! k = HtDone
    \<and> hub_findConnection (hy_hub t) u = Some c2
    \<and> (\<forall>cap \<in> set ints1 \<inter> set ints2. \<exists>b. hub_capabilityBalancers (hy_hub t) cap = Some b \<and> 2 \<le> count_list (bal_uuids b) u)
    \<and> (\<forall>t'. (hub_inter ops)\<^sup>*\<^sup>* t t' \<longrightarrow> c1 \<notin> hy_closed t' \<and> (\<forall>v. hub_findConnection (hy_hub t') v \<noteq> Some c1))"
proof -
  have fr: "inter_fresh s" using interhub.inv_reach [OF assms(1)] by (simp add: inter_inv_def)
  have c1: "c1 \<in> held (hy_tasks s)" "c1 \<in> hy_used s" "c1 \<notin> known s"
    using heldI [OF assms(3,4), of c1] fr by (auto simp: fresh_def)
  have alone: "c1 \<notin> task_conns (hy_tasks s ! i)" if "i < length (hy_tasks s)" "i \<noteq> j" for i
    using fr assms(3,4) that by (auto simp: fresh_def)
  then have ne: "c1 \<noteq> c2" using assms(5-7) by fastforce
  let ?h = "hub_addConnection (hub_addConnection (hy_hub s) c1 u bt1 ints1) c2 u bt2 ints2"
  let ?t = "s\<lparr>hy_hub := ?h, hy_tasks := (hy_tasks s)[j := HtDone, k := HtDone]\<rparr>"
  have run: "(hub_inter ops)\<^sup>*\<^sup>* s ?t" by (rule handshake_race_run [OF assms(2-7)])
  have lost: "lost c1 ?t"
  proof -
    have "c1 \<notin> held ((hy_tasks s)[j := HtDone, k := HtDone])"
      using alone assms(3,5,7) by (auto simp: held_iff nth_list_update)
    moreover have "c1 \<notin> mapped ?h"
      using c1(3) ne by (auto simp: mapped_def split: if_splits)
    ultimately show ?thesis using c1 by (simp add: lost_def)
  qed
  have "c1 \<notin> hy_closed t' \<and> (\<forall>v. hub_findConnection (hy_hub t') v \<noteq> Some c1)" if "(hub_inter ops)\<^sup>*\<^sup>* ?t t'" for t'
    using lost_forever [OF that lost] by (auto simp: lost_def hub_findConnection_def intro: mapped_some split: option.splits)
  moreover have "\<forall>cap \<in> set ints1 \<inter> set ints2. \<exists>b. hub_capabilityBalancers ?h cap = Some b \<and> 2 \<le> count_list (bal_uuids b) u"
    by (intro ballI handshake_race_balancer)
  ultimately show ?thesis
    using run assms(3,5,7) by (intro exI [of _ ?t]) (auto simp: hub_findConnection_def)
qed

theorem handshake_race_loses_connection_witness:
  "\<exists>s t. reach inter_hub_init (hub_inter sample_ops) s \<and> (hub_inter sample_ops)\<^sup>*\<^sup>* s t
     \<and> hub_findConnection (hy_hub t) ''b'' = Some 1
     \<and> (\<forall>t'. (hub_inter sample_ops)\<^sup>*\<^sup>* t t' \<longrightarrow> 0 \<notin> hy_closed t' \<and> hub_findConnection (hy_hub t' :: (nat, nat) hub) ''b'' \<noteq> Some 0)"
proof -
  let ?t1 = "inter_start\<lparr>hy_tasks := [HtCheck 0 ''b'' ''*'' [''cap'']], hy_used := {0}\<rparr>"
  let ?t2 = "?t1\<lparr>hy_tasks := [HtCheck 0 ''b'' ''*'' [''cap''], HtCheck 1 ''b'' ''*'' [''cap'']], hy_used := {1, 0}\<rparr>"
  have "hub_inter sample_ops inter_start ?t1"
    using hub_inter.handshake [of "''b''" 0 inter_start sample_ops "''*''" "[''cap'']"] by (simp add: inter_start_def)
  with apart_reach [OF inter_start_reach] have r1: "reach inter_hub_init (hub_inter sample_ops) ?t1" by (rule reach_step)
  have "hub_inter sample_ops ?t1 ?t2"
    using hub_inter.handshake [of "''b''" 1 ?t1 sample_ops "''*''" "[''cap'']"] by (simp add: inter_start_def)
  with r1 have r2: "reach inter_hub_init (hub_inter sample_ops) ?t2" by (rule reach_step)
  have "hub_findConnection (hy_hub ?t2) ''b'' = None"
    by (simp add: inter_start_def new_hub_def hub_findConnection_def)
  from handshake_race_loses_connection [OF r2 this, of 0 0 "''*''" "[''cap'']" 1 1 "''*''" "[''cap'']"] r2
  show ?thesis by (simp add: inter_start_def) blast
qed

section \<open>A tunnel and the scanner\<close>

text \<open>A tunnel that is blocked on a handler that is not in the map any more, and whose connection cannot come back.\<close>

definition cut_off :: "nat \<Rightarrow> string \<Rightarrow> message \<Rightarrow> nat \<Rightarrow> 'c connectionHandler \<Rightarrow> ('c, 'b, 'w) hub_sys \<Rightarrow> bool" where
  "cut_off k cap msg n c s \<longleftrightarrow> k < length (hy_tasks s) \<and> hy_tasks s ! k = HtBlocked cap msg n c \<and> ch_Conn c \<noteq> None
     \<and> set_option (ch_Conn c) \<subseteq> hy_used s - held (hy_tasks s)
     \<and> (\<forall>d. hub_meshConnections (hy_hub s) (ch_UUID c) = Some d \<longrightarrow> ch_Conn d \<noteq> ch_Conn c)"

lemma blocked_stays:
  assumes "hub_inter ops s t" and "k < length (hy_tasks s)" and "hy_tasks s ! k = HtBlocked cap msg n c"
    and "\<forall>d. hub_meshConnections (hy_hub s) (ch_UUID c) = Some d \<longrightarrow> ch_Conn d \<noteq> ch_Conn c"
  shows "k < length (hy_tasks t) \<and> hy_tasks t ! k = HtBlocked cap msg n c"
  using assms by (cases rule: hub_inter.cases) (auto simp: nth_append nth_list_update)

lemma cut_off_step:
  assumes "cut_off k cap msg n c s" and "hub_inter ops s t"
  shows "cut_off k cap msg n c t"
proof -
  obtain conn where conn: "ch_Conn c = Some conn" using assms(1) by (auto simp: cut_off_def)
  have "ch_Conn d \<noteq> ch_Conn c" if "hub_meshConnections (hy_hub t) (ch_UUID c) = Some d" for d
    using step_filed [OF assms(2) that, of conn] assms(1) conn by (auto simp: cut_off_def)
  then show ?thesis
    using assms(1) conn blocked_stays [OF assms(2), of k cap msg n c] step_held [OF assms(2)] step_used [OF assms(2)]
    by (auto simp: cut_off_def)
qed

lemma cut_off_forever: "(hub_inter ops)\<^sup>*\<^sup>* s t \<Longrightarrow> cut_off k cap msg n c s \<Longrightarrow> cut_off k cap msg n c t"
  by (induction rule: rtranclp_induct) (auto intro: cut_off_step)

text \<open>Property C8. A tunnel that has looked up a connection, and whose \<open>Send\<close> comes after the scanner has removed
  the connection, never returns if the send fails: it waits on the error channel of a handler that no scan
  visits any more, in every continuation, whatever other connections the capability has.\<close>

theorem tunnel_blocks_on_removed:
  assumes "reach inter_hub_init (hub_inter ops) s" and "k < length (hy_tasks s)" and "hy_tasks s ! k = HtSend cap msg n c"
    and "hy_scan s = HsRemove (ch_UUID c # us)" and "\<not> Signaler_PeerWithdrawn (ch_Signaler c)"
    and "\<And>conn w. fst (co_SendMsg ops conn msg w) \<noteq> None"
  shows "\<exists>t. (hub_inter ops)\<^sup>*\<^sup>* s t \<and> hy_scan t = HsRemove us
    \<and> (\<forall>t'. (hub_inter ops)\<^sup>*\<^sup>* t t' \<longrightarrow> hy_tasks t' ! k = HtBlocked cap msg n c)"
proof -
  have inv: "inter_ok (hy_hub s) (hy_tasks s)" "inter_fresh s"
    using interhub.inv_reach [OF assms(1)] by (simp_all add: inter_inv_def)
  obtain conn where conn: "ch_Conn c = Some conn"
    using inter_ok_task [OF inv(1) assms(2,3)] by (auto simp: handler_of_def)
  have old: "conn \<in> hy_used s" "conn \<notin> held (hy_tasks s)"
    using inv(2) sending_nth [OF assms(2)] assms(3) conn by (auto simp: fresh_def)
  let ?h = "hub_removeMeshConnection (hy_hub s) (ch_UUID c)"
  let ?s1 = "s\<lparr>hy_hub := ?h, hy_scan := HsRemove us\<rparr>"
  obtain e w where e: "co_SendMsg ops conn msg (hy_world s) = (Some e, w)"
    using assms(6) [of conn "hy_world s"] by (metis option.exhaust prod.collapse)
  let ?t = "?s1\<lparr>hy_tasks := (hy_tasks s)[k := HtBlocked cap msg n c], hy_world := w\<rparr>"
  have "hub_inter ops s ?s1" by (rule hub_inter.remove [OF assms(4)])
  moreover have "tunnel_send ops cap msg n c (hy_world s) = (HtBlocked cap msg n c, w)"
    by (simp add: tunnel_send_def connectionHandler_Send_def assms(5) conn e)
  then have "hub_inter ops ?s1 ?t"
    using hub_inter.send [of k ?s1 cap msg n c c ops] assms(2,3) by (simp add: behind_def remove_mesh)
  ultimately have run: "(hub_inter ops)\<^sup>*\<^sup>* s ?t" 
    by (rule converse_rtranclp_into_rtranclp [OF _ r_into_rtranclp])
  have cut_off: "cut_off k cap msg n c ?t"
    using assms(2) conn old held_update [of "hy_tasks s" k "HtBlocked cap msg n c"]
    by (auto simp: cut_off_def remove_mesh)
  have "hy_tasks t' ! k = HtBlocked cap msg n c" if "(hub_inter ops)\<^sup>*\<^sup>* ?t t'" for t'
    using cut_off_forever [OF that cut_off] by (simp only: cut_off_def)
  with run show ?thesis by (intro exI [of _ ?t]) simp
qed

theorem tunnel_blocks_on_removed_witness:
  "\<exists>(ops :: (nat, nat set) connection) t. reach inter_hub_init (hub_inter ops) t \<and> hy_scan t = HsRemove []
     \<and> (\<forall>t'. (hub_inter ops)\<^sup>*\<^sup>* t t' \<longrightarrow>
         (\<exists>msg n c. hy_tasks (t' :: (nat, nat, nat set) hub_sys) ! 1 = HtBlocked ''cap'' msg n c))"
proof -
  let ?ops = "sample_ops\<lparr>co_SendMsg := (\<lambda>_ _ w. (Some ErrConnectionClosed, w))\<rparr>"
  let ?m = "NewMsg ''u'' 0 ''t'' []"
  define c where "c = \<lparr>ch_UUID = ''b'', ch_Conn = Some (0 :: nat), ch_Signaler = NewSignaler, ch_ErrChan = [],
      ch_BelongsTo = ''*'', ch_Interests = [''cap'']\<rparr>"
  have c: "ch_UUID c = ''b''" "ch_Conn c = Some 0" "ch_ErrChan c = []" "\<not> Signaler_PeerWithdrawn (ch_Signaler c)"
    "hub_meshConnections sample_hub = [''b'' \<mapsto> c]" "c\<lparr>ch_ErrChan := []\<rparr> = c"
    by (simp_all add: c_def sample_handler Signaler_PeerWithdrawn_def NewSignaler_def)
  obtain b where b: "Balancer_Next \<lparr>bal_uuids = [''b''], bal_index = 0\<rparr> = Inr (''b'', b)"
    by (simp add: Balancer_Next_def)
  define h where "h = sample_hub\<lparr>hub_capabilityBalancers := (hub_capabilityBalancers sample_hub)(''cap'' \<mapsto> b)\<rparr>"
  have h: "hub_meshConnections h = [''b'' \<mapsto> c]" by (simp add: h_def c(5))
  let ?d = "c\<lparr>ch_ErrChan := [ErrConnectionClosed]\<rparr>"
  let ?send = "HtSend ''cap'' ?m 31 c"
  let ?s0 = "inter_start\<lparr>hy_hub := sample_hub, hy_tasks := [HtDone], hy_used := {0}\<rparr>"
  let ?s1 = "?s0\<lparr>hy_tasks := [HtDone, HtPick ''cap'' ?m 32]\<rparr>"
  let ?s2 = "?s0\<lparr>hy_hub := h, hy_tasks := [HtDone, ?send]\<rparr>"
  let ?s3 = "?s2\<lparr>hy_hub := h\<lparr>hub_meshConnections := [''b'' \<mapsto> ?d]\<rparr>\<rparr>"
  let ?s4 = "?s3\<lparr>hy_scan := HsScan [] [''b''] []\<rparr>"
  let ?s5 = "?s2\<lparr>hy_hub := h\<lparr>hub_meshConnections := [''b'' \<mapsto> c]\<rparr>, hy_world := {0}, hy_scan := HsScan [''b''] [] [''b''], hy_closed := {0}\<rparr>"
  let ?s6 = "?s5\<lparr>hy_scan := HsRemove [''b'']\<rparr>"
  have s0: "reach inter_hub_init (hub_inter ?ops) ?s0" by (rule apart_reach [OF inter_sample_reach])
  have "hub_inter ?ops ?s0 ?s1"
    using hub_inter.tunnel [of ?ops ?s0 "''cap''" ?m] by (simp add: sample_balancer tunnelRetryCount_def)
  with s0 have s1: "reach inter_hub_init (hub_inter ?ops) ?s1" by (rule reach_step)
  have "tunnel_pick sample_hub ''cap'' ?m 31 = (?send, h)"
    by (simp add: tunnel_pick_def sample_balancer b c h_def)
  then have "hub_inter ?ops ?s1 ?s2"
    using hub_inter.pick [of 1 ?s1 "''cap''" ?m 31 ?send h ?ops] by simp
  with s1 have s2: "reach inter_hub_init (hub_inter ?ops) ?s2" by (rule reach_step)
  have "hub_inter ?ops ?s2 ?s3"
    using hub_inter.handler [of ?s2 "''b''" c ?d ?ops] by (simp add: h same_handler_def)
  with s2 have s3: "reach inter_hub_init (hub_inter ?ops) ?s3" by (rule reach_step)
  have "hub_inter ?ops ?s3 ?s4"
    using hub_inter.scan [of ?s3 "[''b'']" ?ops] by (simp add: inter_start_def)
  with s3 have s4: "reach inter_hub_init (hub_inter ?ops) ?s4" by (rule reach_step)
  have "scan_loop ?ops (hy_hub ?s4) [''b''] [] {} = Inr ([''b''], h\<lparr>hub_meshConnections := [''b'' \<mapsto> c]\<rparr>, {0})"
    using c(3) by (simp add: c connectionHandler_Close_def) (simp add: sample_conn_def c)
  then have "hub_inter ?ops ?s4 ?s5"
    using hub_inter.scan_one [of ?s4 "[]" "''b''" "[]" "[]" ?d ?ops "[''b'']" "h\<lparr>hub_meshConnections := [''b'' \<mapsto> c]\<rparr>" "{0}"]
    by (simp add: inter_start_def c)
  with s4 have s5: "reach inter_hub_init (hub_inter ?ops) ?s5" by (rule reach_step)
  have "hub_inter ?ops ?s5 ?s6"
    using hub_inter.scan_end [of ?s5 "[''b'']" "[''b'']" ?ops] by simp
  with s5 have s6: "reach inter_hub_init (hub_inter ?ops) ?s6" by (rule reach_step)
  have "\<exists>t. (hub_inter ?ops)\<^sup>*\<^sup>* ?s6 t \<and> hy_scan t = HsRemove []
      \<and> (\<forall>t'. (hub_inter ?ops)\<^sup>*\<^sup>* t t' \<longrightarrow> hy_tasks t' ! 1 = HtBlocked ''cap'' ?m 31 c)"
    by (rule tunnel_blocks_on_removed [OF s6]) (simp_all add: c sample_conn_def)
  then obtain t where t: "(hub_inter ?ops)\<^sup>*\<^sup>* ?s6 t" "hy_scan t = HsRemove []"
      "\<forall>t'. (hub_inter ?ops)\<^sup>*\<^sup>* t t' \<longrightarrow> hy_tasks t' ! 1 = HtBlocked ''cap'' ?m 31 c" by blast
  have "reach inter_hub_init (hub_inter ?ops) t" by (rule reach_steps [OF s6 t(1)])
  with t(2,3) show ?thesis by blast
qed



end
