(* ===== verification/Grav.thy ===== *)
theory Grav
  imports Hub_Mesh Options Bus_Interleaved Pod
begin

text \<open>
  The instance of \<open>grav/grav.go\<close> with \<open>initHub\<close> of \<open>grav/hub.go\<close>: the bus, the hub with its
  pod, and the operations that connect pods and delegate to the hub. The node's UUID, which a
  third-party package draws, is an argument of \<open>New\<close>.
\<close>

section \<open>State and operations\<close>

type_synonym ('c, 'b, 'w) grav_options = "(('c, 'w) meshTransport, ('b, 'w) bridgeTransport, 'w \<Rightarrow> 'w) options"

record ('c, 'b, 'w) grav =
  g_NodeUUID :: uuid
  g_BelongsTo :: string
  g_Interests :: "string list"
  g_bus :: messageBus
  g_hub :: "('c, 'b) hub"
  g_hubPod :: pod
  g_mesh :: "('c, 'w) meshTransport option"
  g_bridge :: "('b, 'w) bridgeTransport option"
  g_discovery :: "('w \<Rightarrow> 'w) option"

text \<open>\<open>connectWithOpts\<close>: a new pod, and the bus with its connection.\<close>

definition connectWithOpts :: "messageBus \<Rightarrow> bool \<Rightarrow> panic + (pod \<times> messageBus)" where
  "connectWithOpts bus wantsReplay =
     (let pod = newPod wantsReplay
      in case messageBus_addPod bus (pod_busChans pod) of Inl e \<Rightarrow> Inl e | Inr bus' \<Rightarrow> Inr (pod, bus'))"

definition Grav_Connect :: "messageBus \<Rightarrow> panic + (pod \<times> messageBus)" where
  "Grav_Connect bus = connectWithOpts bus False"

definition Grav_ConnectWithReplay :: "messageBus \<Rightarrow> panic + (pod \<times> messageBus)" where
  "Grav_ConnectWithReplay bus = connectWithOpts bus True"

text \<open>
  \<open>initHub\<close> connects the hub's own pod first; the plugins are kept for the later calls. The
  goroutines it starts are run by \<open>meshSetup_goroutine\<close> below, and their loops in \<open>Hub\<close>.
\<close>

definition New :: "uuid \<Rightarrow> ('c, 'b, 'w) grav_options \<Rightarrow> panic + ('c, 'b, 'w) grav" where
  "New nodeUUID options =
     (case Grav_Connect newMessageBus of
        Inl e \<Rightarrow> Inl e
      | Inr (pod, bus) \<Rightarrow>
          Inr \<lparr>g_NodeUUID = nodeUUID, g_BelongsTo = opt_BelongsTo options, g_Interests = opt_Interests options,
               g_bus = bus, g_hub = new_hub nodeUUID (opt_BelongsTo options) (opt_Interests options), g_hubPod = pod,
               g_mesh = opt_MeshTransport options, g_bridge = opt_BridgeTransport options,
               g_discovery = opt_Discovery options\<rparr>)"

text \<open>
  The goroutine that sets up the mesh transport: \<open>setup\<close> is the result of the plugin's
  \<open>Setup\<close>, an error or nil, and \<open>None\<close> if it never returns. Only after it has returned does the
  hub's pod get its function.
\<close>

definition meshSetup_goroutine :: "pod \<Rightarrow> msgFunc \<Rightarrow> error option option \<Rightarrow> pod option" where
  "meshSetup_goroutine pod messageHandler setup =
     (case setup of
        None \<Rightarrow> None
      | Some err \<Rightarrow> pod_On pod (Some messageHandler))"

definition Grav_ConnectEndpoint ::
  "('c, 'w) connection \<Rightarrow> ('c, 'b, 'w) grav \<Rightarrow> string \<Rightarrow> 'w \<Rightarrow> panic + (error option \<times> ('c, 'b, 'w) grav \<times> 'w)" where
  "Grav_ConnectEndpoint ops g endpoint w =
     (case hub_connectEndpoint ops (g_mesh g) (g_hub g) endpoint '''' w of
        Inl e \<Rightarrow> Inl e
      | Inr (err, h, w') \<Rightarrow> Inr (err, g\<lparr>g_hub := h\<rparr>, w'))"

text \<open>\<open>start\<close> is the bridge connection's \<open>Start\<close>, given a new pod of the bus.\<close>

definition Grav_ConnectBridgeTopic ::
  "('b \<Rightarrow> 'w \<Rightarrow> 'w) \<Rightarrow> ('c, 'b, 'w) grav \<Rightarrow> string \<Rightarrow> 'w \<Rightarrow> error option \<times> ('c, 'b, 'w) grav \<times> 'w" where
  "Grav_ConnectBridgeTopic start g topic w =
     (case hub_connectBridgeTopic start (g_bridge g) (g_hub g) topic w of (err, h, w') \<Rightarrow> (err, g\<lparr>g_hub := h\<rparr>, w'))"

definition Grav_Tunnel ::
  "('c, 'w) connection \<Rightarrow> (('c, 'b) hub \<times> 'w \<Rightarrow> (('c, 'b) hub \<times> 'w) option) \<Rightarrow> ('c, 'b, 'w) grav \<Rightarrow> string \<Rightarrow> message \<Rightarrow> 'w \<Rightarrow>
   (error option \<times> ('c, 'b, 'w) grav \<times> 'w) run" where
  "Grav_Tunnel ops env g capability msg w =
     (case hub_sendTunneledMessage ops env (g_hub g) capability msg w of
        None \<Rightarrow> None
      | Some (Inl e) \<Rightarrow> Some (Inl e)
      | Some (Inr (err, h, w')) \<Rightarrow> Some (Inr (err, g\<lparr>g_hub := h\<rparr>, w')))"

definition Grav_Withdraw ::
  "('c, 'b, 'w) grav \<Rightarrow> uuid list \<Rightarrow> (uuid \<Rightarrow> bool) list \<Rightarrow> 'w \<Rightarrow> (error option \<times> ('c, 'b, 'w) grav \<times> 'w) run" where
  "Grav_Withdraw g uuids rounds w =
     (case hub_withdraw (g_discovery g) (g_hub g) uuids rounds w of
        None \<Rightarrow> None
      | Some (Inl e) \<Rightarrow> Some (Inl e)
      | Some (Inr (err, h, w')) \<Rightarrow> Some (Inr (err, g\<lparr>g_hub := h\<rparr>, w')))"

definition Grav_Stop :: "('c, 'w) connection \<Rightarrow> ('c, 'b, 'w) grav \<Rightarrow> uuid list \<Rightarrow> 'w \<Rightarrow> panic + (error option \<times> 'w)" where
  "Grav_Stop ops g uuids w = hub_stop ops (g_hub g) uuids w"

section \<open>The bus of an instance under load\<close>

text \<open>
  What happens to the bus of an instance: pods connect, the pod of the connection at an address
  writes feedback, and the bus goroutine handles a message.
\<close>

datatype instance_op = IConnect bool | IFeedback addr feedback | IMessage message

definition write_feedback :: "messageBus \<Rightarrow> addr \<Rightarrow> feedback \<Rightarrow> messageBus" where
  "write_feedback b a f =
     (case pl_heap (bus_pool b) a of
        None \<Rightarrow> b
      | Some c \<Rightarrow>
          (if length (pc_feedbackChan c) < defaultPodChanSize
           then b\<lparr>bus_pool := store (bus_pool b) a (c\<lparr>pc_feedbackChan := pc_feedbackChan c @ [f]\<rparr>)\<rparr> else b))"

fun instance_run :: "messageBus \<Rightarrow> instance_op list \<Rightarrow> messageBus run" where
  "instance_run b [] = Some (Inr b)"
| "instance_run b (IConnect wants # ops) =
     (case connectWithOpts b wants of Inl e \<Rightarrow> Some (Inl e) | Inr (_, b') \<Rightarrow> instance_run b' ops)"
| "instance_run b (IFeedback a f # ops) = instance_run (write_feedback b a f) ops"
| "instance_run b (IMessage m # ops) =
     (case messageBus_handle b m of
        None \<Rightarrow> None
      | Some (Inl e) \<Rightarrow> Some (Inl e)
      | Some (Inr b') \<Rightarrow> instance_run b' ops)"

text \<open>The hub's pod, at address 0, only ever reports successes: its function never fails.\<close>

fun hub_pod_op :: "instance_op \<Rightarrow> bool" where
  "hub_pod_op (IFeedback a f) = (a = 0 \<longrightarrow> f = FbSuccess)"
| "hub_pod_op _ = True"

definition instance_inv :: "messageBus \<Rightarrow> nat \<Rightarrow> bool" where
  "instance_inv b n \<longleftrightarrow> (\<exists>as. bus_ok b as \<and> 0 \<in> set as)
     \<and> failures (conn_at (bus_pool b) 0) = [] \<and> FbDisconnect \<notin> set (pc_feedbackChan (conn_at (bus_pool b) 0))
     \<and> unat (pl_maxID (bus_pool b)) + n < 2 ^ 64"

lemma instance_connect:
  assumes inv: "instance_inv b (Suc n)"
  shows "\<exists>pod b'. connectWithOpts b wants = Inr (pod, b') \<and> instance_inv b' n"
proof -
  obtain as where as: "bus_ok b as" "0 \<in> set as" using inv by (auto simp: instance_inv_def)
  then have ok: "pool_ok (bus_pool b) as" and mb: "mb_ok (bus_buffer b)" by (simp_all add: bus_ok_def)
  have bound: "unat (pl_maxID (bus_pool b)) + 1 < 2 ^ 64" using inv by (simp add: instance_inv_def)
  let ?chans = "pod_busChans (newPod wants :: pod)"
  obtain p where p: "connectionPool_insert (bus_pool b) ?chans = Inr p"
      "pool_ok p (spec_insert (pl_fresh (bus_pool b)) as)"
      "\<forall>a \<in> set as. \<exists>n. conn_at p a = (conn_at (bus_pool b) a)\<lparr>pc_next := n\<rparr>"
      "pl_maxID p = pl_maxID (bus_pool b) + 1"
    using insert_ok [OF ok bound, of ?chans] by blast
  let ?b = "b\<lparr>bus_pool := p\<rparr>"
  obtain x where x: "conn_at p 0 = (conn_at (bus_pool b) 0)\<lparr>pc_next := x\<rparr>" using p(3) as(2) by blast
  have "0 \<in> set (spec_insert (pl_fresh (bus_pool b)) as)"
    using as(2) by (cases as) (auto simp: spec_insert_def)
  moreover have "unat (pl_maxID (bus_pool b) + 1) = unat (pl_maxID (bus_pool b)) + 1"
    using bound by (simp add: unat_word_ariths)
  ultimately have "instance_inv ?b n"
    using inv p(2,4) mb x by (auto simp: instance_inv_def bus_ok_def)
  with p(1) show ?thesis by (simp add: connectWithOpts_def Let_def messageBus_addPod_def)
qed

lemma instance_feedback:
  assumes inv: "instance_inv b n" and f: "a = 0 \<longrightarrow> f = FbSuccess"
  shows "instance_inv (write_feedback b a f) n"
proof (cases "pl_heap (bus_pool b) a")
  case None
  then show ?thesis using inv by (simp add: write_feedback_def)
next
  case (Some c)
  obtain as where as: "bus_ok b as" "0 \<in> set as" using inv by (auto simp: instance_inv_def)
  let ?c = "c\<lparr>pc_feedbackChan := pc_feedbackChan c @ [f]\<rparr>"
  let ?p = "store (bus_pool b) a ?c"
  have c: "conn_at (bus_pool b) a = c" using Some by (simp add: conn_at_def)
  have ok: "pool_ok (bus_pool b) as" using as(1) by (simp add: bus_ok_def)
  have "pool_ok ?p as"
  proof (cases "a \<in> set as")
    case True
    then have "live c" using ok c by (auto simp: pool_ok_def dest: ring_live)
    then show ?thesis using True c by (intro update_ok [OF ok]) (simp_all add: live_def)
  next
    case False
    have links: "links ?p x y = links (bus_pool b) x y" for x y
      using Some by (auto simp: links_def)
    have "chain ?p xs = chain (bus_pool b) xs" for xs
      by (induction ?p xs rule: chain.induct) (simp_all add: links del: links_simps)
    then have "ring ?p as" using ok False by (auto simp: pool_ok_def ring_def split: list.splits)
    moreover have "ids_ok ?p as"
      by (rule ids_ok_cong [of "bus_pool b" as]) (use ok False Some in \<open>auto simp: pool_ok_def\<close>)
    ultimately show ?thesis by (simp add: pool_ok_def)
  qed
  then have "instance_inv (b\<lparr>bus_pool := ?p\<rparr>) n"
    using inv as f c by (auto simp: instance_inv_def bus_ok_def failures_def)
  then show ?thesis using inv Some by (simp add: write_feedback_def)
qed

lemma instance_message:
  assumes inv: "instance_inv b n"
  shows "\<exists>b'. messageBus_handle b m = Some (Inr b') \<and> instance_inv b' n"
proof -
  obtain as where as: "bus_ok b as" "0 \<in> set as" using inv by (auto simp: instance_inv_def)
  have hub: "\<not> doomed (conn_at (bus_pool b) 0)"
    using inv by (auto simp: instance_inv_def doomed_def highWaterMark_def)
  then obtain b' as' where b': "messageBus_handle b m = Some (Inr b')" and H: "handled m b as b' as'"
    using handle_ok [OF as(1), of m] as(2) by blast
  have "0 \<in> set as'" using H hub as(2) by (auto simp: handled_def)
  moreover from this have "undisturbed (conn_at (bus_pool b) 0) (conn_at (bus_pool b') 0)"
    using H by (simp add: handled_def)
  ultimately have "instance_inv b' n"
    using inv H by (auto simp: instance_inv_def handled_def undisturbed_def)
  with b' show ?thesis by blast
qed

lemma instance_run_ok:
  "instance_inv b (length ops) \<Longrightarrow> \<forall>x \<in> set ops. hub_pod_op x \<Longrightarrow>
     \<exists>b' as. instance_run b ops = Some (Inr b') \<and> bus_ok b' as \<and> 0 \<in> set as"
proof (induction b ops rule: instance_run.induct)
  case (1 b)
  then show ?case by (auto simp: instance_inv_def)
next
  case (2 b wants ops)
  have "instance_inv b (Suc (length ops))" using 2(2) by simp
  then obtain pod b' where b': "connectWithOpts b wants = Inr (pod, b')" "instance_inv b' (length ops)"
    using instance_connect [of b "length ops" wants] by blast
  with 2(1) [OF b'(1) refl b'(2)] 2(3) show ?case by simp
next
  case (3 b a f ops)
  have "instance_inv b (length ops)" using 3(2) by (auto simp: instance_inv_def)
  then have "instance_inv (write_feedback b a f) (length ops)" by (rule instance_feedback) (use 3(3) in simp)
  with 3 show ?case by simp
next
  case (4 b m ops)
  have "instance_inv b (length ops)" using 4(2) by (auto simp: instance_inv_def)
  then obtain b' where "messageBus_handle b m = Some (Inr b')" "instance_inv b' (length ops)"
    using instance_message by blast
  with 4 show ?case by simp
qed

lemma new_instance:
  "\<exists>pod b. Grav_Connect newMessageBus = Inr (pod, b) \<and> (n + 1 < 2 ^ 64 \<longrightarrow> instance_inv b n)"
proof -
  obtain b where b: "messageBus_addPod newMessageBus ([], []) = Inr b" "bus_ok b [0]" "pl_maxID (bus_pool b) = 1"
      "conn_at (bus_pool b) 0 = (newPodConnection 1 ([], []))\<lparr>pc_next := Some 0\<rparr>"
    using one_pod_bus by blast
  then show ?thesis
    by (auto simp: Grav_Connect_def connectWithOpts_def pod_busChans_def newPod_def instance_inv_def
        newPodConnection_def failures_def intro: exI [of _ "[0]"])
qed

section \<open>Property\<close>

text \<open>With its messages handled one at a time, the bus of an instance handles every one of them, whatever pods
  connect, disconnect or fail.\<close>

theorem instance_bus_survives:
  assumes "New nodeUUID options = Inr g" and "\<forall>x \<in> set ops. hub_pod_op x" and "length ops + 1 < 2 ^ 64"
  shows "\<exists>b' as. instance_run (g_bus g) ops = Some (Inr b') \<and> bus_ok b' as \<and> 0 \<in> set as"
proof -
  obtain pod b where b: "Grav_Connect newMessageBus = Inr (pod, b)" "instance_inv b (length ops)"
    using new_instance [of "length ops"] assms(3) by blast
  then have "g_bus g = b" using assms(1) by (auto simp: New_def)
  with instance_run_ok [OF b(2) assms(2)] show ?thesis by simp
qed

theorem instance_bus_survives_witness:
  "\<exists>(g :: (nat, nat, nat) grav) b'. New ''a'' defaultOptions = Inr g
    \<and> instance_run (g_bus g) [IConnect False, IFeedback 1 FbDisconnect, IMessage (NewMsg ''u'' 0 ''t'' [])] = Some (Inr b')"
proof -
  let ?ops = "[IConnect False, IFeedback 1 FbDisconnect, IMessage (NewMsg ''u'' 0 ''t'' [])]"
  obtain g :: "(nat, nat, nat) grav" where g: "New ''a'' defaultOptions = Inr g"
    using new_instance [of 0] by (auto simp: New_def)
  have "\<forall>x \<in> set ?ops. hub_pod_op x" "length ?ops + 1 < 2 ^ 64" by simp_all
  from instance_bus_survives [OF g this] g show ?thesis by blast
qed

text \<open>The bus of a new instance, with its goroutine at the receive.\<close>

definition bus_of :: "messageBus \<Rightarrow> bus_sys" where
  "bus_of b = \<lparr>bs_bus = b, bs_phase = BpReceive, bs_sent = [], bs_mark = 0\<rparr>"

lemma New_bus: "New nodeUUID options = Inr g \<Longrightarrow> bus_of (g_bus g) = start_sys"
  using start_sys_bus
  by (auto simp: New_def Grav_Connect_def connectWithOpts_def pod_busChans_def newPod_def Let_def bus_of_def
      start_sys_def split: sum.splits)

text \<open>Property C9. The bus of an instance never crashes, in any interleaving: the bus goroutine, pods that
  are connected, disconnect or fail in between any two of its steps, and messages sent meanwhile. The
  connection of the hub's pod, which reports no failure and is never disconnected, stays in the
  ring, and the ring stays well formed.\<close>

theorem instance_bus_interleaved:
  assumes "New nodeUUID options = Inr g" and "(inter_step {0})\<^sup>*\<^sup>* (bus_of (g_bus g)) s"
  shows "(\<forall>e. bs_phase s \<noteq> BpCrashed e)
    \<and> (\<exists>as. ring (bus_pool (bs_bus s)) as \<and> 0 \<in> set as
          \<and> inj_on (\<lambda>a. pc_ID (conn_at (bus_pool (bs_bus s)) a)) (set as))"
proof -
  have "reach (inter_init 0) (inter_step {0}) (bus_of (g_bus g))"
    using start_sys_init New_bus [OF assms(1)] by (auto intro: reach_init)
  then show ?thesis by (intro survives reach_steps [OF _ assms(2)])
qed

theorem instance_bus_interleaved_witness:
  "\<exists>(g :: (nat, nat, nat) grav) s. New ''a'' defaultOptions = Inr g
    \<and> interleave (race_schedule (NewMsg ''u'' 0 ''t'' [])) (bus_of (g_bus g)) = Some s
    \<and> bs_sent s = [1, 0, 1] \<and> (\<forall>e. bs_phase s \<noteq> BpCrashed e)"
proof -
  obtain g :: "(nat, nat, nat) grav" where g: "New ''a'' defaultOptions = Inr g"
    using new_instance [of 0] by (auto simp: New_def)
  obtain s where s: "interleave (race_schedule (NewMsg ''u'' 0 ''t'' [])) (bus_of (g_bus g)) = Some s" "bs_sent s = [1, 0, 1]"
    using race_run New_bus [OF g] by auto
  have "(inter_step {0})\<^sup>*\<^sup>* (bus_of (g_bus g)) s"
    using schedules_allowed by (intro interleave_steps [OF _ s(1)]) blast
  from instance_bus_interleaved [OF g this] g s show ?thesis by blast
qed

end
