(* ===== verification/Websocket.thy ===== *)
theory Websocket
  imports Message_Codec Connection_Handler
begin

text \<open>
  The websocket transport of \<open>transport/websocket/transport.go\<close>. The connections of the package
  gorilla/websocket are a parameter: a record of functions on connections \<open>'k\<close> and the state
  \<open>'w\<close> of the network, with the source of fresh UUIDs and times that \<open>grav.NewMsg\<close> uses. Its error
  \<open>ErrCloseSent\<close> is a field as well.
\<close>

section \<open>State\<close>

datatype frame_type = TextMessage | BinaryMessage

record ('k, 'w) gorilla =
  ws_ReadMessage :: "'k \<Rightarrow> 'w \<Rightarrow> (frame_type \<times> byte list \<times> error option) \<times> 'w"
  ws_WriteMessage :: "'k \<Rightarrow> frame_type \<Rightarrow> byte list \<Rightarrow> 'w \<Rightarrow> error option \<times> 'w"
  ws_Close :: "'k \<Rightarrow> 'w \<Rightarrow> error option \<times> 'w"
  ws_ErrCloseSent :: error
  ws_fresh :: "'w \<Rightarrow> uuid \<times> time"

record 'k wsConn =
  wc_nodeUUID :: uuid
  wc_conn :: 'k

definition MsgTypeWebsocketMessage :: string where
  "MsgTypeWebsocketMessage = ''websocket.message''"

definition withdrawMessage :: string where
  "withdrawMessage = ''WITHDRAW''"

definition withdrawAckMessage :: string where
  "withdrawAckMessage = ''WITHDRAW ACK''"

text \<open>\<open>errors.Is\<close>: the error itself or one that it wraps.\<close>

fun errors_Is :: "error \<Rightarrow> error \<Rightarrow> bool" where
  "errors_Is (Wrapped e s) target = (Wrapped e s = target \<or> errors_Is e target)"
| "errors_Is e target = (e = target)"

section \<open>Operations of a connection\<close>

definition Conn_WriteMessage ::
  "('k, 'w) gorilla \<Rightarrow> 'k wsConn \<Rightarrow> frame_type \<Rightarrow> byte list \<Rightarrow> 'w \<Rightarrow> error option \<times> 'w" where
  "Conn_WriteMessage ops c messageType data w = ws_WriteMessage ops (wc_conn c) messageType data w"

definition Conn_SendMsg ::
  "marshalEnv \<Rightarrow> ('k, 'w) gorilla \<Rightarrow> 'k wsConn \<Rightarrow> message \<Rightarrow> 'w \<Rightarrow> error option \<times> 'w" where
  "Conn_SendMsg env ops c msg w =
     (case message_Marshal env msg of
        Inl err \<Rightarrow> (Some (Wrapped err ''[transport-websocket] failed to Marshal message''), w)
      | Inr msgBytes \<Rightarrow>
          (case Conn_WriteMessage ops c BinaryMessage msgBytes w of
             (None, w') \<Rightarrow> (None, w')
           | (Some err, w') \<Rightarrow>
               (if errors_Is err (ws_ErrCloseSent ops) then (Some ErrConnectionClosed, w')
                else if err = ErrNodeWithdrawn then (Some err, w')
                else (Some (Wrapped err ''[transport-websocket] failed to WriteMessage''), w'))))"

definition Conn_ReadMsg ::
  "('k, 'w) gorilla \<Rightarrow> 'k wsConn \<Rightarrow> 'w \<Rightarrow> (msg_ref \<times> withdraw option \<times> error option) \<times> 'w" where
  "Conn_ReadMsg ops c w =
     (case ws_ReadMessage ops (wc_conn c) w of
        ((_, _, Some err), w') \<Rightarrow>
          ((None, None, Some (Wrapped err ''[transport-websocket] failed to ReadMessage, closing'')), w')
      | ((msgType, msg, None), w') \<Rightarrow>
          (if msgType = TextMessage \<and> of_bytes msg = withdrawMessage then
             ((None, Some \<lparr>wd_Ack = False\<rparr>, None), w')
           else if msgType = TextMessage \<and> of_bytes msg = withdrawAckMessage then
             ((None, Some \<lparr>wd_Ack = True\<rparr>, None), w')
           else (case MsgFromBytes msg of
                   Inr m \<Rightarrow> ((Some m, None, None), w')
                 | Inl _ \<Rightarrow>
                     (let (u, now) = ws_fresh ops w'
                      in ((Some (NewMsg u now MsgTypeWebsocketMessage msg), None, None), w')))))"

definition Conn_OutgoingHandshake ::
  "marshalEnv \<Rightarrow> ('k, 'w) gorilla \<Rightarrow> 'k wsConn \<Rightarrow> transportHandshake \<Rightarrow> 'w \<Rightarrow>
   (transportHandshakeAck option \<times> error option) \<times> 'k wsConn \<times> 'w" where
  "Conn_OutgoingHandshake env ops c handshake w =
     (case Conn_WriteMessage ops c BinaryMessage (handshake_Marshal env handshake) w of
        (Some err, w1) \<Rightarrow> ((None, Some (Wrapped err ''failed to WriteMessage handshake'')), c, w1)
      | (None, w1) \<Rightarrow>
          (case ws_ReadMessage ops (wc_conn c) w1 of
             ((_, _, Some err), w2) \<Rightarrow>
               ((None, Some (Wrapped err ''failed to ReadMessage for handshake ack, terminating connection'')), c, w2)
           | ((mt, msg, None), w2) \<Rightarrow>
               (if mt \<noteq> BinaryMessage then
                  ((None, Some (ErrorText ''first message recieved was not handshake ack'')), c, w2)
                else (case ack_Unmarshal msg of
                        Inl err \<Rightarrow> ((None, Some (Wrapped err ''failed to Unmarshal handshake ack'')), c, w2)
                      | Inr ack \<Rightarrow> ((Some ack, None), c\<lparr>wc_nodeUUID := ack_UUID ack\<rparr>, w2)))))"

text \<open>
  The handshake that was passed to the callback, if any, and the error. The callback is a pure
  function; what it stores is read off the handshake it was given.
\<close>

definition Conn_IncomingHandshake ::
  "marshalEnv \<Rightarrow> ('k, 'w) gorilla \<Rightarrow> 'k wsConn \<Rightarrow> (transportHandshake \<Rightarrow> transportHandshakeAck) \<Rightarrow> 'w \<Rightarrow>
   (transportHandshake option \<times> error option) \<times> 'k wsConn \<times> 'w" where
  "Conn_IncomingHandshake env ops c handshakeCallback w =
     (case ws_ReadMessage ops (wc_conn c) w of
        ((_, _, Some err), w1) \<Rightarrow>
          ((None, Some (Wrapped err ''failed to ReadMessage for handshake, terminating connection'')), c, w1)
      | ((mt, msg, None), w1) \<Rightarrow>
          (if mt \<noteq> BinaryMessage then
             ((None, Some (ErrorText ''first message recieved was not handshake'')), c, w1)
           else (case handshake_Unmarshal msg of
                   Inl err \<Rightarrow> ((None, Some (Wrapped err ''failed to Unmarshal handshake'')), c, w1)
                 | Inr handshake \<Rightarrow>
                     (let ack = handshakeCallback handshake
                      in case Conn_WriteMessage ops c BinaryMessage (ack_Marshal env ack) w1 of
                           (Some err, w2) \<Rightarrow>
                             ((Some handshake, Some (Wrapped err ''failed to WriteMessage handshake ack'')), c, w2)
                         | (None, w2) \<Rightarrow>
                             ((Some handshake, None), c\<lparr>wc_nodeUUID := hs_UUID handshake\<rparr>, w2)))))"

definition Conn_SendWithdraw :: "('k, 'w) gorilla \<Rightarrow> 'k wsConn \<Rightarrow> withdraw \<Rightarrow> 'w \<Rightarrow> error option \<times> 'w" where
  "Conn_SendWithdraw ops c withdraw w =
     (let msg = (if wd_Ack withdraw then withdrawAckMessage else withdrawMessage)
      in case Conn_WriteMessage ops c TextMessage (to_bytes msg) w of
           (Some err, w') \<Rightarrow> (Some (Wrapped err ''[transport-websocket] failed to WriteMessage for withdraw''), w')
         | (None, w') \<Rightarrow> (None, w'))"

definition Conn_Close :: "('k, 'w) gorilla \<Rightarrow> 'k wsConn \<Rightarrow> 'w \<Rightarrow> error option \<times> 'w" where
  "Conn_Close ops c w =
     (case ws_Close ops (wc_conn c) w of
        (Some err, w') \<Rightarrow> (Some (Wrapped err ''[transport-websocket] failed to Close connection''), w')
      | (None, w') \<Rightarrow> (None, w'))"

section \<open>The transport\<close>

text \<open>
  \<open>wt_connectionFunc\<close> tells whether \<open>Setup\<close> has stored a function for incoming connections; the hub's
  function is called by \<open>HTTPHandlerFunc\<close> with the new connection.
\<close>

record wsTransport =
  wt_connectionFunc :: bool

definition ws_New :: wsTransport where
  "ws_New = \<lparr>wt_connectionFunc = False\<rparr>"

definition ws_Setup :: "wsTransport \<Rightarrow> bool \<Rightarrow> wsTransport" where
  "ws_Setup t connFunc = t\<lparr>wt_connectionFunc := connFunc\<rparr>"

text \<open>The endpoint that is parsed and dialled. \<open>dial\<close> is \<open>url.Parse\<close> and \<open>DefaultDialer.Dial\<close>.\<close>

definition dial_endpoint :: "string \<Rightarrow> string" where
  "dial_endpoint endpoint = (if take 2 endpoint \<noteq> ''ws'' then ''ws://'' @ endpoint else endpoint)"

definition ws_Connect ::
  "(string \<Rightarrow> error + string) \<Rightarrow> (string \<Rightarrow> 'w \<Rightarrow> (error + 'k) \<times> 'w) \<Rightarrow> string \<Rightarrow> 'w \<Rightarrow> (error + 'k wsConn) \<times> 'w" where
  "ws_Connect url_Parse dial endpoint w =
     (case url_Parse (dial_endpoint endpoint) of
        Inl err \<Rightarrow> (Inl err, w)
      | Inr endpointURL \<Rightarrow>
          (case dial endpointURL w of
             (Inl err, w') \<Rightarrow> (Inl (Wrapped err ''[transport-websocket] failed to Dial endpoint''), w')
           | (Inr c, w') \<Rightarrow> (Inr \<lparr>wc_nodeUUID = [], wc_conn = c\<rparr>, w')))"

text \<open>What the HTTP handler does: an error status, a failed upgrade, or a connection for the hub.\<close>

datatype 'k http_result = InternalServerError | UpgradeFailed | Accepted "'k wsConn"

definition HTTPHandlerFunc :: "wsTransport \<Rightarrow> ('w \<Rightarrow> (error + 'k) \<times> 'w) \<Rightarrow> 'w \<Rightarrow> 'k http_result \<times> 'w" where
  "HTTPHandlerFunc t upgrade w =
     (if \<not> wt_connectionFunc t then (InternalServerError, w)
      else (case upgrade w of
              (Inl _, w') \<Rightarrow> (UpgradeFailed, w')
            | (Inr c, w') \<Rightarrow> (Accepted \<lparr>wc_nodeUUID = [], wc_conn = c\<rparr>, w')))"

section \<open>The connection the hub sees\<close>

text \<open>
  The hub holds a pointer to a connection. The world is the store of the connections and the
  network; \<open>None\<close> in the store does not happen to a pointer the hub holds.
\<close>

type_synonym ('k, 'w) ws_world = "(addr \<rightharpoonup> 'k wsConn) \<times> 'w"

definition on_conn :: "addr \<Rightarrow> ('k wsConn \<Rightarrow> 'w \<Rightarrow> 'r \<times> 'w) \<Rightarrow> ('k, 'w) ws_world \<Rightarrow> 'r \<times> ('k, 'w) ws_world" where
  "on_conn a f s = (let (r, w') = f (the (fst s a)) (snd s) in (r, (fst s, w')))"

definition update_conn ::
  "addr \<Rightarrow> ('k wsConn \<Rightarrow> 'w \<Rightarrow> 'r \<times> 'k wsConn \<times> 'w) \<Rightarrow> ('k, 'w) ws_world \<Rightarrow> 'r \<times> ('k, 'w) ws_world" where
  "update_conn a f s = (let (r, c, w') = f (the (fst s a)) (snd s) in (r, ((fst s)(a \<mapsto> c), w')))"

definition websocket_connection :: "marshalEnv \<Rightarrow> ('k, 'w) gorilla \<Rightarrow> (addr, ('k, 'w) ws_world) connection" where
  "websocket_connection env ops =
     \<lparr>co_SendMsg = (\<lambda>a msg. on_conn a (\<lambda>c. Conn_SendMsg env ops c msg)),
      co_ReadMsg = (\<lambda>a. on_conn a (Conn_ReadMsg ops)),
      co_OutgoingHandshake = (\<lambda>a hs. update_conn a (\<lambda>c. Conn_OutgoingHandshake env ops c hs)),
      co_IncomingHandshake = (\<lambda>a cb. update_conn a (\<lambda>c. Conn_IncomingHandshake env ops c cb)),
      co_SendWithdraw = (\<lambda>a wd. on_conn a (\<lambda>c. Conn_SendWithdraw ops c wd)),
      co_Close = (\<lambda>a. on_conn a (Conn_Close ops))\<rparr>"

end
