(* ===== verification/Websocket_Properties.thy ===== *)
theory Websocket_Properties
  imports Websocket
begin

text \<open>
  What the websocket transport promises to the handlers of the mesh: the handshake, the link
  from the sender of one node to the reader of another, and the error cases. What is assumed
  of the websocket itself is that frames arrive as they were written, in order (\<open>writes\<close>, \<open>receives\<close>).
\<close>

type_synonym frame = "frame_type \<times> byte list"

section \<open>The websocket as a sequence of frames\<close>

text \<open>An open connection takes every frame; \<open>out\<close> are the frames written so far.\<close>

definition writes :: "('k, 'w) gorilla \<Rightarrow> 'k \<Rightarrow> ('w \<Rightarrow> frame list) \<Rightarrow> bool" where
  "writes ops k out \<longleftrightarrow>
     (\<forall>mt d w. \<exists>w'. ws_WriteMessage ops k mt d w = (None, w') \<and> out w' = out w @ [(mt, d)])"

text \<open>The frames that have arrived are read in order.\<close>

definition receives :: "('k, 'w) gorilla \<Rightarrow> 'k \<Rightarrow> ('w \<Rightarrow> frame list) \<Rightarrow> bool" where
  "receives ops k inb \<longleftrightarrow>
     (\<forall>w f r. inb w = f # r \<longrightarrow> (\<exists>w'. ws_ReadMessage ops k w = ((fst f, snd f, None), w') \<and> inb w' = r))"

text \<open>A websocket that keeps its frames in lists: the frames to read and the frames written.\<close>

definition list_socket :: "(unit, frame list \<times> frame list) gorilla" where
  "list_socket =
     \<lparr>ws_ReadMessage = (\<lambda>_ w. case fst w of
          [] \<Rightarrow> ((BinaryMessage, [], Some (ErrorText ''EOF'')), w)
        | f # r \<Rightarrow> ((fst f, snd f, None), (r, snd w))),
      ws_WriteMessage = (\<lambda>_ mt d w. (None, (fst w, snd w @ [(mt, d)]))),
      ws_Close = (\<lambda>_ w. (None, w)),
      ws_ErrCloseSent = ErrorText ''websocket: close sent'',
      ws_fresh = (\<lambda>_. (''fresh'', 0))\<rparr>"

lemma list_socket_ok: "writes list_socket k snd" "receives list_socket k fst"
  by (auto simp: writes_def receives_def list_socket_def)

section \<open>Frames\<close>

text \<open>The frame of a message and the frame of a withdraw.\<close>

definition message_frame :: "marshalEnv \<Rightarrow> message \<Rightarrow> frame" where
  "message_frame env m = (BinaryMessage, case message_Marshal env m of Inl _ \<Rightarrow> [] | Inr bytes \<Rightarrow> bytes)"

definition withdraw_frame :: frame where
  "withdraw_frame = (TextMessage, to_bytes withdrawMessage)"

lemma Marshal_frame:
  "year_ok env (msg_Timestamp m) \<Longrightarrow> message_Marshal env m = Inr (snd (message_frame env m))"
  using Marshal_ok_iff [of env m] by (auto simp: message_frame_def)

lemma SendMsg_frame:
  assumes "writes ops (wc_conn c) out" and "year_ok env (msg_Timestamp m)"
  shows "\<exists>w'. Conn_SendMsg env ops c m w = (None, w') \<and> out w' = out w @ [message_frame env m]"
proof -
  obtain w' where "ws_WriteMessage ops (wc_conn c) BinaryMessage (snd (message_frame env m)) w = (None, w')"
      "out w' = out w @ [(BinaryMessage, snd (message_frame env m))]"
    using assms(1) unfolding writes_def by blast
  moreover have "(BinaryMessage, snd (message_frame env m)) = message_frame env m" by (simp add: message_frame_def)
  ultimately show ?thesis
    using Marshal_frame [OF assms(2)] by (simp add: Conn_SendMsg_def Conn_WriteMessage_def)
qed

lemma ReadMsg_message_frame:
  assumes "receives ops (wc_conn c) inb" and "env_ok env" and "year_ok env (msg_Timestamp m)"
    and "inb w = message_frame env m # r"
  shows "\<exists>w'. Conn_ReadMsg ops c w = ((Some (valid_message m), None, None), w') \<and> inb w' = r"
proof -
  obtain w' where "ws_ReadMessage ops (wc_conn c) w = ((BinaryMessage, snd (message_frame env m), None), w')" "inb w' = r"
    using assms(1,4) by (fastforce simp: receives_def message_frame_def)
  then show ?thesis
    using MsgFromBytes_Marshal [OF assms(2) Marshal_frame [OF assms(3)]] by (simp add: Conn_ReadMsg_def)
qed

lemma ReadMsg_withdraw_frame:
  assumes "receives ops (wc_conn c) inb" and "inb w = withdraw_frame # r"
  shows "\<exists>w'. Conn_ReadMsg ops c w = ((None, Some \<lparr>wd_Ack = False\<rparr>, None), w') \<and> inb w' = r"
  using assms by (fastforce simp: receives_def withdraw_frame_def Conn_ReadMsg_def)

section \<open>The link between two handlers\<close>

text \<open>A handler sends messages one after the other.\<close>

fun send_seq ::
  "('c, 'w) connection \<Rightarrow> 'c connectionHandler \<Rightarrow> message list \<Rightarrow> 'w \<Rightarrow>
   panic + (send_result list \<times> 'c connectionHandler \<times> 'w)" where
  "send_seq ops c [] w = Inr ([], c, w)"
| "send_seq ops c (m # ms) w =
     (case connectionHandler_Send ops c m w of
        Inl e \<Rightarrow> Inl e
      | Inr (r, c', w') \<Rightarrow>
          (case send_seq ops c' ms w' of
             Inl e \<Rightarrow> Inl e
           | Inr (rs, c'', w'') \<Rightarrow> Inr (r # rs, c'', w'')))"

lemma send_seq_frames:
  assumes "ch_Conn h = Some a" and "\<not> Signaler_PeerWithdrawn (ch_Signaler h)"
    and "writes ops (wc_conn c) out" and "conns a = Some c"
  shows "\<forall>m \<in> set ms. year_ok env (msg_Timestamp m) \<Longrightarrow>
     \<exists>w'. send_seq (websocket_connection env ops) h ms (conns, w) =
         Inr (replicate (length ms) SendOk, h, (conns, w'))
       \<and> out w' = out w @ map (message_frame env) ms"
proof (induction ms arbitrary: w)
  case Nil
  then show ?case by simp
next
  case (Cons m ms)
  obtain w1 where w1: "Conn_SendMsg env ops c m w = (None, w1)" "out w1 = out w @ [message_frame env m]"
    using SendMsg_frame [OF assms(3)] Cons.prems by fastforce
  then have "connectionHandler_Send (websocket_connection env ops) h m (conns, w) = Inr (SendOk, h, (conns, w1))"
    using assms by (simp add: connectionHandler_Send_def websocket_connection_def on_conn_def)
  with Cons.IH [of w1] Cons.prems w1(2) show ?case by auto
qed

lemma delivers_frames:
  assumes "receives ops (wc_conn c) inb" and "env_ok env" and "conns a = Some c"
  shows "\<forall>m \<in> set ms. year_ok env (msg_Timestamp m) \<Longrightarrow> inb w = map (message_frame env) ms @ withdraw_frame # r \<Longrightarrow>
     \<exists>w'. delivers (websocket_connection env' ops) a (map InMsg (map valid_message ms) @ [InWithdraw]) (conns, w) (conns, w')
       \<and> inb w' = r"
proof (induction ms arbitrary: w)
  case Nil
  then obtain w' where "Conn_ReadMsg ops c w = ((None, Some \<lparr>wd_Ack = False\<rparr>, None), w')" "inb w' = r"
    using ReadMsg_withdraw_frame [OF assms(1)] by auto
  then show ?case using assms(3) by (auto simp: websocket_connection_def on_conn_def incoming_result_def)
next
  case (Cons m ms)
  obtain w1 where w1: "Conn_ReadMsg ops c w = ((Some (valid_message m), None, None), w1)"
      "inb w1 = map (message_frame env) ms @ withdraw_frame # r"
    using ReadMsg_message_frame [OF assms(1,2)] Cons.prems by fastforce
  obtain w' where "delivers (websocket_connection env' ops) a (map InMsg (map valid_message ms) @ [InWithdraw]) (conns, w1) (conns, w')"
      "inb w' = r"
    using Cons.IH [of w1] Cons.prems(1) w1(2) by auto
  then show ?case using w1(1) assms(3)
    by (auto simp: websocket_connection_def on_conn_def incoming_result_def)
qed

text \<open>Property C14. Over a websocket that keeps frames and their order, what the handler of one node sends
  reaches the bus of the other: every \<open>Send\<close> succeeds, and when the sender has withdrawn, the
  reading goroutine of the peer has put exactly these messages on its bus, in order (with strings
  in valid UTF-8), has recorded the withdraw and has ended without an error; none of the messages
  will be sent back.\<close>

theorem websocket_link:
  assumes "env_ok env" and "\<forall>m \<in> set msgs. year_ok env (msg_Timestamp m)"
    and "ch_Conn hA = Some a" and "\<not> Signaler_PeerWithdrawn (ch_Signaler hA)"
    and "connsA a = Some cA" and "writes opsA (wc_conn cA) out" and "out wA = []"
    and "ch_Conn hB = Some b" and "connsB b = Some cB" and "receives opsB (wc_conn cB) inb"
    and "\<not> pod_dead pod" and "length busChan + length msgs < defaultBusChanSize"
  shows "\<exists>sA sA'. send_seq (websocket_connection env opsA) hA msgs (connsA, wA) =
        Inr (replicate (length msgs) SendOk, hA, sA)
    \<and> co_SendWithdraw (websocket_connection env opsA) a \<lparr>wd_Ack = False\<rparr> sA = (None, sA')
    \<and> (\<forall>wB. inb wB = out (snd sA') \<longrightarrow>
         (\<exists>pod' sB. read_loop (Suc (length msgs)) (websocket_connection envB opsB) hB pod busChan (connsB, wB) =
            Some (Inr (False, hB\<lparr>ch_Signaler := Signaler_SetPeerWithdrawn (ch_Signaler hB)\<rparr>, pod',
              busChan @ map valid_message msgs, sB))
          \<and> (\<forall>m \<in> set msgs. pod_handle pod' (Some (valid_message m)) = Some (Inr pod'))))"
proof -
  obtain w1 where w1: "send_seq (websocket_connection env opsA) hA msgs (connsA, wA) =
        Inr (replicate (length msgs) SendOk, hA, (connsA, w1))" "out w1 = map (message_frame env) msgs"
    using send_seq_frames [where c = cA and out = out and conns = connsA and w = wA, OF assms(3,4,6,5,2)] assms(7)
    by auto
  obtain w2 where w2: "ws_WriteMessage opsA (wc_conn cA) TextMessage (to_bytes withdrawMessage) w1 = (None, w2)"
      "out w2 = map (message_frame env) msgs @ [withdraw_frame]"
    using assms(6) w1(2) unfolding writes_def withdraw_frame_def by metis
  have "co_SendWithdraw (websocket_connection env opsA) a \<lparr>wd_Ack = False\<rparr> (connsA, w1) = (None, (connsA, w2))"
    using w2(1) assms(5)
    by (simp add: websocket_connection_def on_conn_def Conn_SendWithdraw_def Conn_WriteMessage_def)
  moreover have "\<exists>pod' sB. read_loop (Suc (length msgs)) (websocket_connection envB opsB) hB pod busChan (connsB, wB) =
            Some (Inr (False, hB\<lparr>ch_Signaler := Signaler_SetPeerWithdrawn (ch_Signaler hB)\<rparr>, pod',
              busChan @ map valid_message msgs, sB))
          \<and> (\<forall>m \<in> set msgs. pod_handle pod' (Some (valid_message m)) = Some (Inr pod'))"
    if eq: "inb wB = out w2" for wB
  proof -
    obtain w' where "delivers (websocket_connection envB opsB) b (map InMsg (map valid_message msgs) @ [InWithdraw])
        (connsB, wB) (connsB, w')"
      using delivers_frames [where c = cB and inb = inb and conns = connsB and w = wB and r = "[]",
          OF assms(10,1,9,2)] eq w2(2) by auto
    from read_loop_run [OF this assms(8,11)] assms(12) show ?thesis
      by (fastforce simp: reader_end_def)
  qed
  ultimately show ?thesis using w1(1) by auto
qed

theorem websocket_link_witness:
  "\<exists>sA sA'. send_seq (websocket_connection utc_env list_socket)
        \<lparr>ch_UUID = ''b'', ch_Conn = Some 0, ch_Signaler = NewSignaler, ch_ErrChan = [], ch_BelongsTo = ''*'', ch_Interests = []\<rparr>
        [NewMsg ''u'' 0 ''t'' [1, 2]] ([0 \<mapsto> \<lparr>wc_nodeUUID = ''b'', wc_conn = ()\<rparr>], ([], [])) = Inr ([SendOk],
        \<lparr>ch_UUID = ''b'', ch_Conn = Some 0, ch_Signaler = NewSignaler, ch_ErrChan = [], ch_BelongsTo = ''*'', ch_Interests = []\<rparr>, sA)
    \<and> co_SendWithdraw (websocket_connection utc_env list_socket)
        0 \<lparr>wd_Ack = False\<rparr> sA = (None, sA')
    \<and> (\<exists>pod' sB h. read_loop 2 (websocket_connection utc_env list_socket)
        \<lparr>ch_UUID = ''a'', ch_Conn = Some 0, ch_Signaler = NewSignaler, ch_ErrChan = [], ch_BelongsTo = ''*'', ch_Interests = []\<rparr>
        (newPod False) [] ([0 \<mapsto> \<lparr>wc_nodeUUID = ''a'', wc_conn = ()\<rparr>], (snd (snd sA'), [])) =
        Some (Inr (False, h, pod', [NewMsg ''u'' 0 ''t'' [1, 2]], sB)))"
proof -
  let ?env = "utc_env"
  let ?m = "NewMsg ''u'' 0 ''t'' [1, 2]"
  let ?hA = "\<lparr>ch_UUID = ''b'', ch_Conn = Some (0 :: addr), ch_Signaler = NewSignaler, ch_ErrChan = [],
    ch_BelongsTo = ''*'', ch_Interests = []\<rparr>"
  let ?hB = "?hA\<lparr>ch_UUID := ''a''\<rparr>"
  have strings: "valid_message ?m = ?m" by (rule valid_message_id, rule text_ok_NewMsg) (simp_all add: code_def)
  have hyps: "env_ok ?env" "\<forall>m \<in> set [?m]. year_ok ?env (msg_Timestamp m)"
      "ch_Conn ?hA = Some 0" "\<not> Signaler_PeerWithdrawn (ch_Signaler ?hA)" "ch_Conn ?hB = Some 0"
      "\<not> pod_dead (newPod False)" "length [] + length [?m] < defaultBusChanSize"
    by (simp_all add: env_ok_def year_ok_def local_seconds_def nanos_per_second_def epoch_days_def NewMsg_def utc_env_def
        Signaler_PeerWithdrawn_def NewSignaler_def newPod_def defaultBusChanSize_def)
  obtain sA sA' where A: "send_seq (websocket_connection ?env list_socket) ?hA [?m]
        ([0 \<mapsto> \<lparr>wc_nodeUUID = ''b'', wc_conn = ()\<rparr>], ([], [])) = Inr (replicate (length [?m]) SendOk, ?hA, sA)"
      "co_SendWithdraw (websocket_connection ?env list_socket) 0 \<lparr>wd_Ack = False\<rparr> sA = (None, sA')"
    and B: "\<forall>wB. fst wB = snd (snd sA') \<longrightarrow>
         (\<exists>pod' sB. read_loop (Suc (length [?m])) (websocket_connection ?env list_socket) ?hB (newPod False) []
            ([0 \<mapsto> \<lparr>wc_nodeUUID = ''a'', wc_conn = ()\<rparr>], wB) =
            Some (Inr (False, ?hB\<lparr>ch_Signaler := Signaler_SetPeerWithdrawn (ch_Signaler ?hB)\<rparr>, pod',
              [] @ map valid_message [?m], sB))
          \<and> (\<forall>m \<in> set [?m]. pod_handle pod' (Some (valid_message m)) = Some (Inr pod')))"
    using websocket_link [where hA = ?hA and hB = ?hB and a = 0 and b = 0 and cA = "\<lparr>wc_nodeUUID = ''b'', wc_conn = ()\<rparr>"
        and cB = "\<lparr>wc_nodeUUID = ''a'', wc_conn = ()\<rparr>" and msgs = "[?m]" and env = ?env and envB = ?env
        and opsA = list_socket and opsB = list_socket and out = snd and inb = fst and wA = "([], [])"
        and connsA = "[0 \<mapsto> \<lparr>wc_nodeUUID = ''b'', wc_conn = ()\<rparr>]" and connsB = "[0 \<mapsto> \<lparr>wc_nodeUUID = ''a'', wc_conn = ()\<rparr>]"
        and pod = "newPod False" and busChan = "[]", OF hyps(1-4) _ list_socket_ok(1) _ hyps(5) _ list_socket_ok(2) hyps(6,7)]
    by (simp only: map_upd_Some_unfold snd_conv simp_thms) metis
  obtain pod' sB where R: "read_loop (Suc (length [?m])) (websocket_connection ?env list_socket) ?hB (newPod False) []
            ([0 \<mapsto> \<lparr>wc_nodeUUID = ''a'', wc_conn = ()\<rparr>], (snd (snd sA'), [])) =
            Some (Inr (False, ?hB\<lparr>ch_Signaler := Signaler_SetPeerWithdrawn (ch_Signaler ?hB)\<rparr>, pod',
              [] @ map valid_message [?m], sB))"
    using B by (metis fst_conv)
  show ?thesis
    by (intro exI [of _ sA] exI [of _ sA'] conjI exI [of _ pod'] exI [of _ sB]
        exI [of _ "?hB\<lparr>ch_Signaler := Signaler_SetPeerWithdrawn (ch_Signaler ?hB)\<rparr>"])
       (use A R strings in \<open>simp_all add: numeral_2_eq_2 del: read_loop.simps send_seq.simps\<close>)
qed

section \<open>The handshake\<close>

text \<open>The two sides of a websocket handshake agree. Let the dialling node write its
  handshake, the accepting node read that frame, answer, and the dialling node read the answer.
  Then the callback of the accepting node is called on the handshake that was sent, the dialling
  node returns the ack that the callback made, neither reports an error, and each connection carries
  the UUID the other side has given (strings in valid UTF-8).\<close>

theorem handshake_agrees:
  assumes "ws_WriteMessage opsA (wc_conn cA) BinaryMessage (handshake_Marshal envA h) wA = (None, wA1)"
    and "ws_ReadMessage opsB (wc_conn cB) wB = ((BinaryMessage, handshake_Marshal envA h, None), wB1)"
    and "ws_WriteMessage opsB (wc_conn cB) BinaryMessage (ack_Marshal envB (cb (valid_handshake h))) wB1 = (None, wB2)"
    and "ws_ReadMessage opsA (wc_conn cA) wA1 = ((BinaryMessage, ack_Marshal envB (cb (valid_handshake h)), None), wA2)"
  shows "Conn_IncomingHandshake envB opsB cB cb wB =
      ((Some (valid_handshake h), None), cB\<lparr>wc_nodeUUID := to_valid_utf8 (hs_UUID h)\<rparr>, wB2)
    \<and> Conn_OutgoingHandshake envA opsA cA h wA =
      ((Some (valid_ack (cb (valid_handshake h))), None),
       cA\<lparr>wc_nodeUUID := to_valid_utf8 (ack_UUID (cb (valid_handshake h)))\<rparr>, wA2)"
  using assms
  by (simp add: Conn_IncomingHandshake_def Conn_OutgoingHandshake_def Conn_WriteMessage_def valid_handshake_def
      valid_ack_def)

lemma valid_handshake_id:
  "valid_utf8 (hs_UUID h) \<Longrightarrow> valid_utf8 (hs_BelongsTo h) \<Longrightarrow> \<forall>x \<in> set (hs_Interests h). valid_utf8 x \<Longrightarrow>
   valid_handshake h = h"
  by (simp add: valid_handshake_def to_valid_utf8_id map_idI)

theorem handshake_agrees_witness:
  "\<exists>wA wA2 wB2 ack cA cB. Conn_OutgoingHandshake utc_env list_socket \<lparr>wc_nodeUUID = [], wc_conn = ()\<rparr>
      \<lparr>hs_UUID = ''a'', hs_BelongsTo = ''*'', hs_Interests = [''resize'']\<rparr> wA = ((Some ack, None), cA, wA2)
    \<and> Conn_IncomingHandshake utc_env list_socket \<lparr>wc_nodeUUID = [], wc_conn = ()\<rparr>
        (\<lambda>h. \<lparr>ack_Accept = True, ack_UUID = ''b'', ack_BelongsTo = ''*'', ack_Interests = []\<rparr>) (snd wA2, []) =
      ((Some \<lparr>hs_UUID = ''a'', hs_BelongsTo = ''*'', hs_Interests = [''resize'']\<rparr>, None), cB, wB2)
    \<and> wc_nodeUUID cA = ''b'' \<and> wc_nodeUUID cB = ''a''"
proof -
  let ?h = "\<lparr>hs_UUID = ''a'', hs_BelongsTo = ''*'', hs_Interests = [''resize'']\<rparr>"
  let ?ack = "\<lparr>ack_Accept = True, ack_UUID = ''b'', ack_BelongsTo = ''*'', ack_Interests = []\<rparr>"
  let ?c = "\<lparr>wc_nodeUUID = [], wc_conn = ()\<rparr>"
  let ?hs = "(BinaryMessage, handshake_Marshal utc_env ?h)" and ?a = "(BinaryMessage, ack_Marshal utc_env ?ack)"
  have ascii: "valid_utf8 ''a''" "valid_utf8 ''b''" "valid_utf8 ''*''" "valid_utf8 ''resize''"
    by (rule valid_utf8_ascii; simp add: code_def)+
  then have h: "valid_handshake ?h = ?h" by (intro valid_handshake_id) (simp_all only: transportHandshake.simps list.set ball_simps simp_thms)
  have "Conn_IncomingHandshake utc_env list_socket ?c (\<lambda>_. ?ack) ([?hs], []) =
      ((Some (valid_handshake ?h), None), ?c\<lparr>wc_nodeUUID := to_valid_utf8 (hs_UUID ?h)\<rparr>, ([], [?a]))
    \<and> Conn_OutgoingHandshake utc_env list_socket ?c ?h ([?a], []) =
      ((Some (valid_ack ?ack), None), ?c\<lparr>wc_nodeUUID := to_valid_utf8 (ack_UUID ?ack)\<rparr>, ([], [?hs]))"
    using h by (intro handshake_agrees [of list_socket ?c utc_env ?h "([?a], [])" "([?a], [?hs])" list_socket ?c
        "([?hs], [])" "([], [])" utc_env "\<lambda>_. ?ack" "([], [?a])" "([], [?hs])"]) (simp_all add: list_socket_def)
  then have "Conn_OutgoingHandshake utc_env list_socket ?c ?h ([?a], []) = ((Some (valid_ack ?ack), None), ?c\<lparr>wc_nodeUUID := ''b''\<rparr>, ([], [?hs]))"
    "Conn_IncomingHandshake utc_env list_socket ?c (\<lambda>_. ?ack) (snd ([] :: frame list, [?hs]), []) = ((Some ?h, None), ?c\<lparr>wc_nodeUUID := ''a''\<rparr>, ([], [?a]))"
    using h ascii by (simp_all add: to_valid_utf8_id del: to_valid_utf8.simps)
  then show ?thesis by (intro exI conjI) (assumption, assumption, simp_all)
qed

text \<open>When an incoming handshake fails. Unless the first frame is a binary one that decodes to
  a handshake, the callback of the hub is not called, nothing is written, the connection keeps no UUID of
  the peer and an error is returned; otherwise the callback has been called on the decoded
  handshake, and the only error left is that the answer cannot be written.\<close>

theorem incoming_handshake_outcome:
  "case Conn_IncomingHandshake env ops c cb w of ((called, err), c', w') \<Rightarrow>
     (case ws_ReadMessage ops (wc_conn c) w of
        ((BinaryMessage, d, None), w1) \<Rightarrow>
          (case handshake_Unmarshal d of
             Inl _ \<Rightarrow> called = None \<and> err \<noteq> None \<and> c' = c \<and> w' = w1
           | Inr h \<Rightarrow> called = Some h \<and>
               (err = None \<longleftrightarrow> fst (ws_WriteMessage ops (wc_conn c) BinaryMessage (ack_Marshal env (cb h)) w1) = None) \<and>
               c' = (if err = None then c\<lparr>wc_nodeUUID := hs_UUID h\<rparr> else c))
      | (_, w1) \<Rightarrow> called = None \<and> err \<noteq> None \<and> c' = c \<and> w' = w1)"
  by (auto simp: Conn_IncomingHandshake_def Conn_WriteMessage_def Let_def
      split: prod.splits option.splits sum.splits frame_type.splits)

section \<open>Reading and sending\<close>

text \<open>Property C30. \<open>ReadMsg\<close> keeps the contract of its interface, whatever the peer writes: it returns
  a message, a withdraw or an error, and exactly one of the three. The reading goroutine of a handler that
  has a connection therefore never runs into a nil message: no bytes from the network make it panic.\<close>

theorem websocket_reader_never_panics:
  assumes "ch_Conn h = Some a" and "conns a = Some c"
  shows "(case fst (Conn_ReadMsg ops c w) of (m, wd, e) \<Rightarrow>
            length (filter id [m \<noteq> None, wd \<noteq> None, e \<noteq> None]) = 1)
    \<and> (\<forall>p. read_turn (websocket_connection env ops) h pod busChan (conns, w) \<noteq> Some (Inl p))"
proof -
  obtain m wd e w' where r: "Conn_ReadMsg ops c w = ((m, wd, e), w')" by (metis surj_pair)
  then have one: "(m \<noteq> None \<and> wd = None \<and> e = None) \<or> (m = None \<and> wd \<noteq> None \<and> e = None) \<or>
      (m = None \<and> wd = None \<and> e \<noteq> None)"
    by (auto simp: Conn_ReadMsg_def Let_def split: prod.splits option.splits sum.splits if_splits)
  then have "length (filter id [m \<noteq> None, wd \<noteq> None, e \<noteq> None]) = 1" by auto
  moreover have "read_turn (websocket_connection env ops) h pod busChan (conns, w) \<noteq> Some (Inl p)" for p
    using one r assms
    by (auto simp: read_turn_def websocket_connection_def on_conn_def pod_Send_def Let_def
        split: prod.splits option.splits sum.splits if_splits)
  ultimately show ?thesis using r by simp
qed

theorem websocket_reader_never_panics_witness:
  "read_turn (websocket_connection utc_env list_socket)
     \<lparr>ch_UUID = ''a'', ch_Conn = Some 0, ch_Signaler = NewSignaler, ch_ErrChan = [], ch_BelongsTo = ''*'', ch_Interests = []\<rparr>
     (newPod False) [] ([0 \<mapsto> \<lparr>wc_nodeUUID = ''a'', wc_conn = ()\<rparr>], ([(TextMessage, [1, 2])], [])) \<noteq> Some (Inl NilDereference)"
proof -
  let ?h = "\<lparr>ch_UUID = ''a'', ch_Conn = Some 0, ch_Signaler = NewSignaler, ch_ErrChan = [], ch_BelongsTo = ''*'', ch_Interests = []\<rparr>"
  have "ch_Conn ?h = Some 0" "[0 \<mapsto> \<lparr>wc_nodeUUID = ''a'', wc_conn = ()\<rparr>] 0 = Some \<lparr>wc_nodeUUID = ''a'', wc_conn = ()\<rparr>"
    by simp_all
  then show ?thesis using websocket_reader_never_panics by metis
qed

text \<open>What a failed send is for the hub. An error of the websocket reaches the handler as
  \<open>ErrConnectionClosed\<close> if it is, or wraps, the error of a connection whose close frame is out; any
  other error is wrapped, so that it is never one of the errors \<open>ErrConnectionClosed\<close> and
  \<open>ErrNodeWithdrawn\<close> the hub compares with, except \<open>ErrNodeWithdrawn\<close> itself. The handler then offers
  this very error to the scanner and reports failure to the hub; a message that cannot be encoded does
  the same, although the connection is fine.\<close>

theorem send_error_reaches_scanner:
  assumes "ch_Conn h = Some a" and "conns a = Some c" and "\<not> Signaler_PeerWithdrawn (ch_Signaler h)"
  shows "case Conn_SendMsg env ops c m w of (err, w') \<Rightarrow>
      (case message_Marshal env m of
         Inl e \<Rightarrow> err = Some (Wrapped e ''[transport-websocket] failed to Marshal message'') \<and> w' = w
       | Inr d \<Rightarrow>
           (case fst (ws_WriteMessage ops (wc_conn c) BinaryMessage d w) of
              None \<Rightarrow> err = None
            | Some e \<Rightarrow>
                (err = Some ErrConnectionClosed \<longleftrightarrow> errors_Is e (ws_ErrCloseSent ops)) \<and>
                (err = Some ErrNodeWithdrawn \<longleftrightarrow> e = ErrNodeWithdrawn \<and> \<not> errors_Is e (ws_ErrCloseSent ops))))
    \<and> connectionHandler_Send (websocket_connection env ops) h m (conns, w) =
        Inr (case err of
               None \<Rightarrow> (SendOk, h, (conns, w'))
             | Some e \<Rightarrow> (SendBlocks (Wrapped e ''failed to SendMsg''), h\<lparr>ch_ErrChan := ch_ErrChan h @ [e]\<rparr>, (conns, w')))"
  using assms
  by (auto simp: Conn_SendMsg_def Conn_WriteMessage_def connectionHandler_Send_def websocket_connection_def on_conn_def
      split: prod.splits option.splits sum.splits if_splits)

theorem send_error_reaches_scanner_witness:
  "\<exists>err. Conn_SendMsg utc_env list_socket
        \<lparr>wc_nodeUUID = ''a'', wc_conn = ()\<rparr> (NewMsg ''u'' (- 100000000000000000000) ''t'' []) ([], []) = (err, ([], []))
    \<and> connectionHandler_Send (websocket_connection utc_env list_socket)
        \<lparr>ch_UUID = ''a'', ch_Conn = Some 0, ch_Signaler = NewSignaler, ch_ErrChan = [], ch_BelongsTo = ''*'', ch_Interests = []\<rparr>
        (NewMsg ''u'' (- 100000000000000000000) ''t'' []) ([0 \<mapsto> \<lparr>wc_nodeUUID = ''a'', wc_conn = ()\<rparr>], ([], [])) =
      Inr (case err of
               None \<Rightarrow> (SendOk, \<lparr>ch_UUID = ''a'', ch_Conn = Some 0, ch_Signaler = NewSignaler, ch_ErrChan = [], ch_BelongsTo = ''*'', ch_Interests = []\<rparr>,
                   ([0 \<mapsto> \<lparr>wc_nodeUUID = ''a'', wc_conn = ()\<rparr>], ([], [])))
             | Some e \<Rightarrow> (SendBlocks (Wrapped e ''failed to SendMsg''),
                 \<lparr>ch_UUID = ''a'', ch_Conn = Some 0, ch_Signaler = NewSignaler, ch_ErrChan = [e], ch_BelongsTo = ''*'', ch_Interests = []\<rparr>,
                   ([0 \<mapsto> \<lparr>wc_nodeUUID = ''a'', wc_conn = ()\<rparr>], ([], []))))
    \<and> err \<noteq> None"
proof -
  let ?env = "utc_env"
  let ?m = "NewMsg ''u'' (- 100000000000000000000) ''t'' []"
  let ?h = "\<lparr>ch_UUID = ''a'', ch_Conn = Some (0 :: addr), ch_Signaler = NewSignaler, ch_ErrChan = [], ch_BelongsTo = ''*'', ch_Interests = []\<rparr>"
  let ?c = "\<lparr>wc_nodeUUID = ''a'', wc_conn = ()\<rparr>"
  have "\<not> year_ok ?env (msg_Timestamp ?m)"
    by (simp add: NewMsg_def utc_env_def year_ok_def local_seconds_def nanos_per_second_def epoch_days_def)
  then obtain e where e: "message_Marshal ?env ?m = Inl e"
    using Marshal_ok_iff [of ?env ?m] by (cases "message_Marshal ?env ?m") auto
  have hyps: "ch_Conn ?h = Some 0" "[0 \<mapsto> ?c] 0 = Some ?c" "\<not> Signaler_PeerWithdrawn (ch_Signaler ?h)"
    by (simp_all add: Signaler_PeerWithdrawn_def NewSignaler_def)
  show ?thesis
    using send_error_reaches_scanner [where env = ?env and ops = list_socket and m = ?m and w = "([], [])"
        and conns = "[0 \<mapsto> ?c]" and c = ?c, OF hyps] e
    by (cases "Conn_SendMsg ?env list_socket ?c ?m ([], [])") simp
qed

end
