(* ===== verification/Mesh_Over_Websocket.thy ===== *)
theory Mesh_Over_Websocket
  imports Websocket_Properties Hub_Properties
begin

text \<open>
  The hub of one node and the hub of another, joined by a websocket: the handshake of the hubs on
  top of the handshake of the transport, each node with its own store of connections and its own
  end of the network.
\<close>

text \<open>A hub whose strings are valid UTF-8.\<close>

definition hub_text :: "('c, 'b) hub \<Rightarrow> bool" where
  "hub_text h \<longleftrightarrow> valid_utf8 (hub_nodeUUID h) \<and> valid_utf8 (hub_belongsTo h) \<and> (\<forall>x \<in> set (hub_interests h). valid_utf8 x)"

lemma hub_text_handshake: "hub_text h \<Longrightarrow> valid_handshake (own_handshake h) = own_handshake h"
  by (simp add: hub_text_def own_handshake_def valid_handshake_id)

lemma hub_text_ack: "hub_text h \<Longrightarrow> valid_ack (handshake_callback h hs) = handshake_callback h hs"
  by (simp add: hub_text_def handshake_callback_def valid_ack_def to_valid_utf8_id map_idI)

text \<open>What goes over the wire: the dialling end writes \<open>hs\<close> and reads \<open>ack\<close>, the other end the reverse.\<close>

definition exchanged ::
  "('k, 'w) gorilla \<Rightarrow> 'k \<Rightarrow> 'w \<Rightarrow> byte list \<Rightarrow> byte list \<Rightarrow> 'w \<Rightarrow> bool" where
  "exchanged ops k w hs ack w' \<longleftrightarrow>
     (\<exists>w1. ws_WriteMessage ops k BinaryMessage hs w = (None, w1) \<and> ws_ReadMessage ops k w1 = ((BinaryMessage, ack, None), w'))"

definition answered ::
  "('k, 'w) gorilla \<Rightarrow> 'k \<Rightarrow> 'w \<Rightarrow> byte list \<Rightarrow> byte list \<Rightarrow> 'w \<Rightarrow> bool" where
  "answered ops k w hs ack w' \<longleftrightarrow>
     (\<exists>w1. ws_ReadMessage ops k w = ((BinaryMessage, hs, None), w1) \<and> ws_WriteMessage ops k BinaryMessage ack w1 = (None, w'))"

lemma websocket_outgoing:
  assumes "exchanged ops (wc_conn c) w (handshake_Marshal env h) (ack_Marshal envB ack) w'" and "conns a = Some c"
    and "valid_ack ack = ack"
  shows "co_OutgoingHandshake (websocket_connection env ops) a h (conns, w) =
    ((Some ack, None), (conns(a \<mapsto> c\<lparr>wc_nodeUUID := ack_UUID ack\<rparr>), w'))"
  using assms
  by (auto simp: exchanged_def websocket_connection_def update_conn_def Conn_OutgoingHandshake_def Conn_WriteMessage_def)

lemma websocket_incoming:
  assumes "answered ops (wc_conn c) w (handshake_Marshal envA h) (ack_Marshal env (cb h)) w'" and "conns a = Some c"
    and "valid_handshake h = h"
  shows "co_IncomingHandshake (websocket_connection env ops) a cb (conns, w) =
    ((Some h, None), (conns(a \<mapsto> c\<lparr>wc_nodeUUID := hs_UUID h\<rparr>), w'))"
  using assms
  by (auto simp: answered_def websocket_connection_def update_conn_def Conn_IncomingHandshake_def Conn_WriteMessage_def)

lemma websocket_close:
  "snd (co_Close (websocket_connection env ops) a (conns(a \<mapsto> c), w)) = (conns(a \<mapsto> c), snd (ws_Close ops (wc_conn c) w))"
  by (simp add: websocket_connection_def on_conn_def Conn_Close_def split: prod.splits option.splits)

text \<open>Property C16. Two hubs join over a websocket. If the frames of the handshake are carried as written,
  the dialling hub and the accepting hub, each with its own connections and its own end of the network,
  come to the same decision, from the group of the dialling node: either each has a connection
  under the UUID of the other, and the transport's connection carries that UUID, or both hubs are
  unchanged and both ends have been closed.\<close>

theorem hubs_join_over_websocket:
  fixes hA hB :: "(addr, 'b) hub"
  assumes "hub_text hA" and "hub_text hB" and "hub_nodeUUID hA \<noteq> []" and "hub_nodeUUID hB \<noteq> []"
    and "uuid \<in> {[], hub_nodeUUID hB}"
    and "hub_findConnection hA (hub_nodeUUID hB) = None" and "hub_findConnection hB (hub_nodeUUID hA) = None"
    and "connsA a = Some cA" and "connsB b = Some cB"
    and "exchanged opsA (wc_conn cA) wA (handshake_Marshal envA (own_handshake hA))
           (ack_Marshal envB (handshake_callback hB (own_handshake hA))) wA'"
    and "answered opsB (wc_conn cB) wB (handshake_Marshal envA (own_handshake hA))
           (ack_Marshal envB (handshake_callback hB (own_handshake hA))) wB'"
  shows "\<exists>hA' sA hB' sB.
      hub_setupOutgoingConnection (websocket_connection envA opsA) hA a uuid (connsA, wA) = Inr (hA', sA)
    \<and> hub_handleIncomingConnection (websocket_connection envB opsB) hB b (connsB, wB) = (hB', sB)
    \<and> map_option wc_nodeUUID (fst sA a) = Some (hub_nodeUUID hB) \<and> map_option wc_nodeUUID (fst sB b) = Some (hub_nodeUUID hA)
    \<and> (if hub_belongsTo hA \<in> {hub_belongsTo hB, ''*''}
       then hub_findConnection hA' (hub_nodeUUID hB) = Some a \<and> hub_findConnection hB' (hub_nodeUUID hA) = Some b
          \<and> snd sA = wA' \<and> snd sB = wB'
       else hA' = hA \<and> hB' = hB
          \<and> snd sA = snd (ws_Close opsA (wc_conn cA) wA') \<and> snd sB = snd (ws_Close opsB (wc_conn cB) wB'))"
proof -
  let ?ack = "handshake_callback hB (own_handshake hA)"
  let ?cA = "cA\<lparr>wc_nodeUUID := hub_nodeUUID hB\<rparr>" and ?cB = "cB\<lparr>wc_nodeUUID := hub_nodeUUID hA\<rparr>"
  let ?sA = "(connsA(a \<mapsto> ?cA), wA')" and ?sB = "(connsB(b \<mapsto> ?cB), wB')"
  have ack: "ack_UUID ?ack = hub_nodeUUID hB" "ack_Accept ?ack = (hub_belongsTo hA \<in> {hub_belongsTo hB, ''*''})"
    by (auto simp: handshake_callback_def own_handshake_def)
  have hs: "hs_UUID (own_handshake hA) = hub_nodeUUID hA" "hs_BelongsTo (own_handshake hA) = hub_belongsTo hA"
    by (simp_all add: own_handshake_def)
  have "co_OutgoingHandshake (websocket_connection envA opsA) a (own_handshake hA) (connsA, wA) = ((Some ?ack, None), ?sA)"
    using websocket_outgoing [where conns = connsA and c = cA, OF assms(10,8) hub_text_ack [OF assms(2)]] ack(1) by simp
  then have out: "hub_setupOutgoingConnection (websocket_connection envA opsA) hA a uuid (connsA, wA) =
      Inr (if ack_Accept ?ack
         then hub_setupNewConnection (websocket_connection envA opsA) hA a (ack_UUID ?ack) (ack_BelongsTo ?ack) (ack_Interests ?ack) ?sA
         else (hA, snd (co_Close (websocket_connection envA opsA) a ?sA)))"
    by (rule outgoing_accepted) (use assms(4,5) ack(1) in simp_all)
  have "co_IncomingHandshake (websocket_connection envB opsB) b (handshake_callback hB) (connsB, wB) =
      ((Some (own_handshake hA), None), ?sB)"
    using websocket_incoming [where conns = connsB and c = cB and cb = "handshake_callback hB", OF assms(11,9) hub_text_handshake [OF assms(1)]] hs(1) by simp
  then have inc: "hub_handleIncomingConnection (websocket_connection envB opsB) hB b (connsB, wB) =
      (if hub_belongsTo hA \<in> {hub_belongsTo hB, ''*''}
       then hub_setupNewConnection (websocket_connection envB opsB) hB b (hub_nodeUUID hA) (hub_belongsTo hA)
              (hs_Interests (own_handshake hA)) ?sB
       else (hB, snd (co_Close (websocket_connection envB opsB) b ?sB)))"
    using incoming_read [of "websocket_connection envB opsB" b hB "(connsB, wB)" "own_handshake hA" ?sB] assms(3)
    by (simp add: hs)
  show ?thesis
    using out inc ack assms(6,7) by (simp add: find_add(2) websocket_close)
qed

theorem hubs_join_over_websocket_witness:
  "let hA = (new_hub ''a'' ''g'' [] :: (addr, nat) hub); hB = (new_hub ''b'' ''g'' [''resize''] :: (addr, nat) hub);
       hs = (BinaryMessage, handshake_Marshal utc_env (own_handshake hA));
       ack = (BinaryMessage, ack_Marshal utc_env (handshake_callback hB (own_handshake hA)))
   in \<exists>hA' sA hB' sB.
       hub_setupOutgoingConnection (websocket_connection utc_env list_socket) hA 0 [] ([0 \<mapsto> \<lparr>wc_nodeUUID = [], wc_conn = ()\<rparr>], ([ack], [])) = Inr (hA', sA)
     \<and> hub_handleIncomingConnection (websocket_connection utc_env list_socket) hB 1 ([1 \<mapsto> \<lparr>wc_nodeUUID = [], wc_conn = ()\<rparr>], ([hs], [])) = (hB', sB)
     \<and> hub_findConnection hA' ''b'' = Some 0 \<and> hub_findConnection hB' ''a'' = Some 1"
proof -
  let ?hA = "new_hub ''a'' ''g'' [] :: (addr, nat) hub" and ?hB = "new_hub ''b'' ''g'' [''resize''] :: (addr, nat) hub"
  let ?c = "\<lparr>wc_nodeUUID = [], wc_conn = ()\<rparr>"
  let ?hs = "handshake_Marshal utc_env (own_handshake ?hA)" and ?ack = "ack_Marshal utc_env (handshake_callback ?hB (own_handshake ?hA))"
  have names: "hub_nodeUUID ?hA = ''a''" "hub_nodeUUID ?hB = ''b''" "hub_belongsTo ?hA = ''g''" "hub_belongsTo ?hB = ''g''"
    "hub_interests ?hA = []" "hub_interests ?hB = [''resize'']"
    by (simp_all add: new_hub_def)
  have ascii: "valid_utf8 ''a''" "valid_utf8 ''b''" "valid_utf8 ''g''" "valid_utf8 ''resize''"
    by (rule valid_utf8_ascii; simp add: code_def)+
  have t: "hub_text ?hA" "hub_text ?hB"
    by (simp_all only: hub_text_def names ascii list.set ball_simps simp_thms)
  have n: "hub_nodeUUID ?hA \<noteq> []" "hub_nodeUUID ?hB \<noteq> []" "[] \<in> {[], hub_nodeUUID ?hB}"
      "hub_findConnection ?hA (hub_nodeUUID ?hB) = None" "hub_findConnection ?hB (hub_nodeUUID ?hA) = None"
    by (simp_all add: names hub_findConnection_def) (simp_all add: new_hub_def)
  have c: "[0 \<mapsto> ?c] 0 = Some ?c" "[1 \<mapsto> ?c] (1 :: addr) = Some ?c" by simp_all
  have e: "exchanged list_socket (wc_conn ?c) ([(BinaryMessage, ?ack)], []) ?hs ?ack ([], [(BinaryMessage, ?hs)])"
    by (simp add: exchanged_def list_socket_def)
  have r: "answered list_socket (wc_conn ?c) ([(BinaryMessage, ?hs)], []) ?hs ?ack ([], [(BinaryMessage, ?ack)])"
    by (simp add: answered_def list_socket_def)
  have "hub_belongsTo ?hA \<in> {hub_belongsTo ?hB, ''*''}" by (simp add: names)
  then show ?thesis
    using hubs_join_over_websocket [where connsA = "[0 \<mapsto> ?c]" and cA = ?c and connsB = "[1 \<mapsto> ?c]" and cB = ?c, OF t n c e r]
    unfolding Let_def names by (simp only: if_True) blast
qed

end
