(* ===== verification/Bridges.thy ===== *)
theory Bridges
  imports Message_Codec Connection_Handler
begin

text \<open>
  The bridges to centralized brokers: \<open>transport/nats/transport.go\<close> and \<open>transport/kafka/transport.go\<close>.
  The clients of NATS and Kafka are parameters: records of functions on the state \<open>'w\<close> of the
  broker. Both bridges set a function on a pod that publishes the messages of one type, and run
  a goroutine that puts what it receives on the bus; the locale \<open>bus_feeder\<close> is the contract of the
  turns of such a goroutine.
\<close>

section \<open>A goroutine that feeds the bus\<close>

text \<open>The pod after it has sent messages: its filter keeps them from coming back.\<close>

definition sent_filter :: "pod \<Rightarrow> message list \<Rightarrow> pod" where
  "sent_filter pod ms =
     pod\<lparr>pod_filter := foldl (\<lambda>f m. FilterUUID f (msg_UUID m) False) (pod_filter pod) ms\<rparr>"

lemma sent_filter_simps [simp]:
  "sent_filter pod [] = pod"
  "sent_filter (sent_filter pod xs) ys = sent_filter pod (xs @ ys)"
  "pod_dead (sent_filter pod ms) = pod_dead pod"
  "pod_onFunc (sent_filter pod ms) = pod_onFunc pod"
  by (simp_all add: sent_filter_def)

lemma pod_Send_ok:
  "\<not> pod_dead pod \<Longrightarrow> length busChan < defaultBusChanSize \<Longrightarrow>
   pod_Send pod busChan (Some m) = Some (Inr (Some \<lparr>rc_UUID = msg_UUID m\<rparr>, sent_filter pod [m], busChan @ [m]))"
  by (simp add: pod_Send_def sent_filter_def)

lemma sent_filter_UUIDs:
  "UUIDMap (foldl (\<lambda>f m. FilterUUID f (msg_UUID m) False) f ms) u =
     (if u \<in> msg_UUID ` set ms then Some False else UUIDMap f u)"
  by (induction ms arbitrary: f) (auto simp: FilterUUID_def)

text \<open>A message that the pod has sent is not handled by its function.\<close>

lemma sent_not_handled:
  "m \<in> set ms \<Longrightarrow> pod_handle (sent_filter pod ms) (Some m) = Some (Inr (sent_filter pod ms))"
  by (auto simp: pod_handle_def handler_enter_def allow_iff decided_def sent_filter_def sent_filter_UUIDs
      split: option.splits)

text \<open>The loop of the goroutine, for \<open>n\<close> turns at most.\<close>

type_synonym 'w turn_result = "(bool \<times> pod \<times> message list \<times> 'w) run"

fun turn_loop :: "nat \<Rightarrow> (pod \<Rightarrow> message list \<Rightarrow> 'w \<Rightarrow> 'w turn_result) \<Rightarrow> pod \<Rightarrow> message list \<Rightarrow> 'w \<Rightarrow> 'w turn_result" where
  "turn_loop 0 turn pod busChan w = Some (Inr (True, pod, busChan, w))"
| "turn_loop (Suc n) turn pod busChan w =
     (case turn pod busChan w of
        None \<Rightarrow> None
      | Some (Inl e) \<Rightarrow> Some (Inl e)
      | Some (Inr (True, pod', busChan', w')) \<Rightarrow> turn_loop n turn pod' busChan' w'
      | Some (Inr (False, r)) \<Rightarrow> Some (Inr (False, r)))"

text \<open>A source yields lists of messages, one list per turn.\<close>

fun yields_all :: "('w \<Rightarrow> message list \<Rightarrow> 'w \<Rightarrow> bool) \<Rightarrow> message list list \<Rightarrow> 'w \<Rightarrow> 'w \<Rightarrow> bool" where
  "yields_all yields [] w w' \<longleftrightarrow> w' = w"
| "yields_all yields (ms # mss) w w' \<longleftrightarrow> (\<exists>w1. yields w ms w1 \<and> yields_all yields mss w1 w')"

text \<open>
  The contract: when the source yields messages, a turn puts them on the bus, in order, and the
  goroutine goes on.
\<close>

locale bus_feeder =
  fixes turn :: "pod \<Rightarrow> message list \<Rightarrow> 'w \<Rightarrow> 'w turn_result"
    and yields :: "'w \<Rightarrow> message list \<Rightarrow> 'w \<Rightarrow> bool"
  assumes turn_yields:
    "yields w ms w' \<Longrightarrow> \<not> pod_dead pod \<Longrightarrow> length busChan + length ms \<le> defaultBusChanSize \<Longrightarrow>
       turn pod busChan w = Some (Inr (True, sent_filter pod ms, busChan @ ms, w'))"
begin

lemma loop_yields:
  "yields_all yields mss w w' \<Longrightarrow> \<not> pod_dead pod \<Longrightarrow> length busChan + length (concat mss) \<le> defaultBusChanSize \<Longrightarrow>
     turn_loop (length mss + n) turn pod busChan w =
     turn_loop n turn (sent_filter pod (concat mss)) (busChan @ concat mss) w'"
proof (induction mss arbitrary: pod busChan w)
  case Nil
  then show ?case by simp
next
  case (Cons ms mss)
  then obtain w1 where w1: "yields w ms w1" "yields_all yields mss w1 w'" by auto
  then have "turn pod busChan w = Some (Inr (True, sent_filter pod ms, busChan @ ms, w1))"
    using turn_yields Cons.prems(2,3) by simp
  with Cons.IH [OF w1(2), of "sent_filter pod ms" "busChan @ ms"] Cons.prems(2,3) show ?case by simp
qed

end

section \<open>NATS\<close>

record ('s, 'w) natsClient =
  nats_SubscribeSync :: "string \<Rightarrow> 'w \<Rightarrow> (error + 's) \<times> 'w"
  nats_Publish :: "string \<Rightarrow> byte list \<Rightarrow> 'w \<Rightarrow> error option \<times> 'w"
  nats_NextMsg :: "'s \<Rightarrow> 'w \<Rightarrow> (error + byte list) \<times> 'w"
  nats_Unsubscribe :: "'s \<Rightarrow> 'w \<Rightarrow> error option \<times> 'w"
  nats_ErrTimeout :: error
  nats_fresh :: "'w \<Rightarrow> uuid \<times> time"

record 's natsConn =
  nc_topic :: string
  nc_sub :: 's

text \<open>\<open>New\<close>, on what \<open>nats.Connect\<close> returns; the connection to the server is part of the client.\<close>

definition nats_New :: "error option \<Rightarrow> error option" where
  "nats_New connect_err = map_option (\<lambda>err. Wrapped err ''failed to nats.Connect'') connect_err"

definition nats_ConnectTopic :: "('s, 'w) natsClient \<Rightarrow> string \<Rightarrow> 'w \<Rightarrow> (error + 's natsConn) \<times> 'w" where
  "nats_ConnectTopic ops topic w =
     (case nats_SubscribeSync ops topic w of
        (Inl err, w') \<Rightarrow> (Inl (Wrapped err ''failed to SubscribeSync''), w')
      | (Inr sub, w') \<Rightarrow> (Inr \<lparr>nc_topic = topic, nc_sub = sub\<rparr>, w'))"

text \<open>The function \<open>Start\<close> sets on the pod for the messages whose type is the topic.\<close>

definition nats_publish ::
  "marshalEnv \<Rightarrow> ('s, 'w) natsClient \<Rightarrow> 's natsConn \<Rightarrow> message \<Rightarrow> 'w \<Rightarrow> error option \<times> 'w" where
  "nats_publish env ops c msg w =
     (case message_Marshal env msg of
        Inl err \<Rightarrow> (Some (Wrapped err ''failed to Marshal message''), w)
      | Inr msgBytes \<Rightarrow>
          (case nats_Publish ops (nc_topic c) msgBytes w of
             (Some err, w') \<Rightarrow> (Some (Wrapped err ''failed to pubFn''), w')
           | (None, w') \<Rightarrow> (None, w')))"

definition nats_Start :: "'s natsConn \<Rightarrow> msgFunc \<Rightarrow> pod \<Rightarrow> pod option" where
  "nats_Start c publish pod = pod_OnType pod (nc_topic c) (Some publish)"

text \<open>The message that bytes from a broker stand for: raw data, of the type of the topic, if they do not decode.\<close>

definition bridge_message :: "string \<Rightarrow> uuid \<times> time \<Rightarrow> byte list \<Rightarrow> message" where
  "bridge_message topic fresh bytes =
     (case MsgFromBytes bytes of Inr m \<Rightarrow> m | Inl _ \<Rightarrow> NewMsg (fst fresh) (snd fresh) topic bytes)"

text \<open>One turn of the receiving goroutine.\<close>

definition nats_turn ::
  "('s, 'w) natsClient \<Rightarrow> 's natsConn \<Rightarrow> pod \<Rightarrow> message list \<Rightarrow> 'w \<Rightarrow> 'w turn_result" where
  "nats_turn ops c pod busChan w =
     (case nats_NextMsg ops (nc_sub c) w of
        (Inl err, w') \<Rightarrow>
          (if err = nats_ErrTimeout ops then Some (Inr (True, pod, busChan, w'))
           else Some (Inr (False, pod, busChan, w')))
      | (Inr data, w') \<Rightarrow>
          (case pod_Send pod busChan (Some (bridge_message (nc_topic c) (nats_fresh ops w') data)) of
             None \<Rightarrow> None
           | Some (Inl e) \<Rightarrow> Some (Inl e)
           | Some (Inr (_, pod', busChan')) \<Rightarrow> Some (Inr (True, pod', busChan', w'))))"

definition nats_loop ::
  "nat \<Rightarrow> ('s, 'w) natsClient \<Rightarrow> 's natsConn \<Rightarrow> pod \<Rightarrow> message list \<Rightarrow> 'w \<Rightarrow> 'w turn_result" where
  "nats_loop n ops c = turn_loop n (nats_turn ops c)"

definition nats_Close :: "('s, 'w) natsClient \<Rightarrow> 's natsConn \<Rightarrow> 'w \<Rightarrow> 'w" where
  "nats_Close ops c w = snd (nats_Unsubscribe ops (nc_sub c) w)"

text \<open>What a turn of the subscription gives: nothing on a timeout, or one message.\<close>

definition nats_yields :: "('s, 'w) natsClient \<Rightarrow> 's natsConn \<Rightarrow> 'w \<Rightarrow> message list \<Rightarrow> 'w \<Rightarrow> bool" where
  "nats_yields ops c w ms w' \<longleftrightarrow>
     (case nats_NextMsg ops (nc_sub c) w of
        (Inl err, w1) \<Rightarrow> err = nats_ErrTimeout ops \<and> ms = [] \<and> w' = w1
      | (Inr data, w1) \<Rightarrow> ms = [bridge_message (nc_topic c) (nats_fresh ops w1) data] \<and> w' = w1)"

lemma nats_feeds:
  "nats_yields ops c w ms w' \<Longrightarrow> \<not> pod_dead pod \<Longrightarrow> length busChan + length ms \<le> defaultBusChanSize \<Longrightarrow>
     nats_turn ops c pod busChan w = Some (Inr (True, sent_filter pod ms, busChan @ ms, w'))"
  by (auto simp: nats_yields_def nats_turn_def pod_Send_ok split: prod.splits sum.splits)

interpretation nats: bus_feeder "nats_turn ops c" "nats_yields ops c" for ops c
  by unfold_locales (rule nats_feeds)

section \<open>Kafka\<close>

record ('k, 'w) kafkaClient =
  kafka_NewClient :: "string \<Rightarrow> string \<Rightarrow> 'w \<Rightarrow> (error + 'k) \<times> 'w"
  kafka_ProduceSync :: "'k \<Rightarrow> string \<Rightarrow> byte list \<Rightarrow> 'w \<Rightarrow> error option \<times> 'w"
  kafka_PollFetches :: "'k \<Rightarrow> 'w \<Rightarrow> (error list \<times> byte list list) \<times> 'w"
  kafka_CloseClient :: "'k \<Rightarrow> 'w \<Rightarrow> 'w"
  kafka_fresh :: "'w \<Rightarrow> byte list \<Rightarrow> uuid \<times> time"

record kafkaTransport =
  kt_endpoint :: string

record 'k kafkaConn =
  kc_topic :: string
  kc_conn :: 'k

definition kafka_New :: "string \<Rightarrow> kafkaTransport" where
  "kafka_New endpoint = \<lparr>kt_endpoint = endpoint\<rparr>"

definition kafka_ConnectTopic ::
  "('k, 'w) kafkaClient \<Rightarrow> kafkaTransport \<Rightarrow> string \<Rightarrow> 'w \<Rightarrow> (error + 'k kafkaConn) \<times> 'w" where
  "kafka_ConnectTopic ops t topic w =
     (case kafka_NewClient ops (kt_endpoint t) topic w of
        (Inl err, w') \<Rightarrow> (Inl (Wrapped err ''failed to NewClient''), w')
      | (Inr client, w') \<Rightarrow> (Inr \<lparr>kc_topic = topic, kc_conn = client\<rparr>, w'))"

definition kafka_publish ::
  "marshalEnv \<Rightarrow> ('k, 'w) kafkaClient \<Rightarrow> 'k kafkaConn \<Rightarrow> message \<Rightarrow> 'w \<Rightarrow> error option \<times> 'w" where
  "kafka_publish env ops c msg w =
     (case message_Marshal env msg of
        Inl err \<Rightarrow> (Some (Wrapped err ''failed to Marshal message''), w)
      | Inr msgBytes \<Rightarrow>
          (case kafka_ProduceSync ops (kc_conn c) (kc_topic c) msgBytes w of
             (Some err, w') \<Rightarrow> (Some (Wrapped err ''failed to ProduceSync''), w')
           | (None, w') \<Rightarrow> (None, w')))"

definition kafka_Start :: "'k kafkaConn \<Rightarrow> msgFunc \<Rightarrow> pod \<Rightarrow> pod option" where
  "kafka_Start c publish pod = pod_OnType pod (kc_topic c) (Some publish)"

text \<open>The loop over the records of a fetch.\<close>

fun kafka_records ::
  "(byte list \<Rightarrow> uuid \<times> time) \<Rightarrow> string \<Rightarrow> pod \<Rightarrow> message list \<Rightarrow> byte list list \<Rightarrow> (pod \<times> message list) run" where
  "kafka_records fresh topic pod busChan [] = Some (Inr (pod, busChan))"
| "kafka_records fresh topic pod busChan (record # rest) =
     (case pod_Send pod busChan (Some (bridge_message topic (fresh record) record)) of
        None \<Rightarrow> None
      | Some (Inl e) \<Rightarrow> Some (Inl e)
      | Some (Inr (_, pod', busChan')) \<Rightarrow> kafka_records fresh topic pod' busChan' rest)"

text \<open>One turn of the receiving goroutine. Its loop has no exit: the first result is always true.\<close>

definition kafka_turn ::
  "('k, 'w) kafkaClient \<Rightarrow> 'k kafkaConn \<Rightarrow> pod \<Rightarrow> message list \<Rightarrow> 'w \<Rightarrow> 'w turn_result" where
  "kafka_turn ops c pod busChan w =
     (case kafka_PollFetches ops (kc_conn c) w of
        ((errs, records), w') \<Rightarrow>
          (if length errs > 0 then Some (Inr (True, pod, busChan, w'))
           else (case kafka_records (kafka_fresh ops w') (kc_topic c) pod busChan records of
                   None \<Rightarrow> None
                 | Some (Inl e) \<Rightarrow> Some (Inl e)
                 | Some (Inr (pod', busChan')) \<Rightarrow> Some (Inr (True, pod', busChan', w')))))"

definition kafka_loop ::
  "nat \<Rightarrow> ('k, 'w) kafkaClient \<Rightarrow> 'k kafkaConn \<Rightarrow> pod \<Rightarrow> message list \<Rightarrow> 'w \<Rightarrow> 'w turn_result" where
  "kafka_loop n ops c = turn_loop n (kafka_turn ops c)"

definition kafka_Close :: "('k, 'w) kafkaClient \<Rightarrow> 'k kafkaConn \<Rightarrow> 'w \<Rightarrow> 'w" where
  "kafka_Close ops c w = kafka_CloseClient ops (kc_conn c) w"

lemma kafka_records_ok:
  "\<not> pod_dead pod \<Longrightarrow> length busChan + length rs \<le> defaultBusChanSize \<Longrightarrow>
     kafka_records fresh topic pod busChan rs =
     Some (Inr (sent_filter pod (map (\<lambda>r. bridge_message topic (fresh r) r) rs),
                busChan @ map (\<lambda>r. bridge_message topic (fresh r) r) rs))"
  by (induction rs arbitrary: pod busChan) (simp_all add: pod_Send_ok)

text \<open>A poll gives nothing if it reports any error, else its records.\<close>

definition kafka_yields :: "('k, 'w) kafkaClient \<Rightarrow> 'k kafkaConn \<Rightarrow> 'w \<Rightarrow> message list \<Rightarrow> 'w \<Rightarrow> bool" where
  "kafka_yields ops c w ms w' \<longleftrightarrow>
     (case kafka_PollFetches ops (kc_conn c) w of
        ((errs, records), w1) \<Rightarrow>
          w' = w1 \<and> ms = (if errs = [] then map (\<lambda>r. bridge_message (kc_topic c) (kafka_fresh ops w1 r) r) records else []))"

lemma kafka_feeds:
  "kafka_yields ops c w ms w' \<Longrightarrow> \<not> pod_dead pod \<Longrightarrow> length busChan + length ms \<le> defaultBusChanSize \<Longrightarrow>
     kafka_turn ops c pod busChan w = Some (Inr (True, sent_filter pod ms, busChan @ ms, w'))"
  by (auto simp: kafka_yields_def kafka_turn_def kafka_records_ok split: prod.splits if_splits)

interpretation kafka: bus_feeder "kafka_turn ops c" "kafka_yields ops c" for ops c
  by unfold_locales (rule kafka_feeds)

section \<open>Properties\<close>

text \<open>Property C32. The NATS bridge puts every message it receives on the bus, in order, decoded or as raw
  data of the topic's type, over any number of timeouts; it hands none of them back to the
  broker, and its goroutine ends at the first other error.\<close>

theorem nats_loop_forwards:
  assumes "yields_all (nats_yields ops c) mss w w'" and "nats_NextMsg ops (nc_sub c) w' = (Inl err, w'')"
    and "err \<noteq> nats_ErrTimeout ops" and "\<not> pod_dead pod"
    and "length busChan + length (concat mss) \<le> defaultBusChanSize"
  shows "\<exists>pod'. nats_loop (Suc (length mss)) ops c pod busChan w = Some (Inr (False, pod', busChan @ concat mss, w''))
    \<and> (\<forall>m \<in> set (concat mss). pod_handle pod' (Some m) = Some (Inr pod'))"
proof -
  have "nats_loop (Suc (length mss)) ops c pod busChan w =
      turn_loop 1 (nats_turn ops c) (sent_filter pod (concat mss)) (busChan @ concat mss) w'"
    using nats.loop_yields [OF assms(1,4,5), of 1] by (simp add: nats_loop_def del: turn_loop.simps)
  also have "\<dots> = Some (Inr (False, sent_filter pod (concat mss), busChan @ concat mss, w''))"
    using assms(2,3) by (simp add: nats_turn_def)
  finally show ?thesis using sent_not_handled by blast
qed

text \<open>Clients whose brokers are lists of what the next calls give; NATS echoes what is published.\<close>

definition list_nats :: "(unit, (error + byte list) list) natsClient" where
  "list_nats =
     \<lparr>nats_SubscribeSync = (\<lambda>_ w. (Inr (), w)), nats_Publish = (\<lambda>_ b w. (None, w @ [Inr b])),
      nats_NextMsg = (\<lambda>_ w. case w of [] \<Rightarrow> (Inl (ErrorText ''nats: invalid subscription''), []) | x # r \<Rightarrow> (x, r)),
      nats_Unsubscribe = (\<lambda>_ w. (None, [])), nats_ErrTimeout = ErrorText ''nats: timeout'',
      nats_fresh = (\<lambda>_. (''f'', 0))\<rparr>"

definition list_kafka :: "(unit, (error list \<times> byte list list) list) kafkaClient" where
  "list_kafka =
     \<lparr>kafka_NewClient = (\<lambda>_ _ w. (Inr (), w)), kafka_ProduceSync = (\<lambda>_ _ b w. (None, w @ [([], [b])])),
      kafka_PollFetches = (\<lambda>_ w. case w of [] \<Rightarrow> (([ErrorText ''client closed''], []), []) | x # r \<Rightarrow> (x, r)),
      kafka_CloseClient = (\<lambda>_ w. []), kafka_fresh = (\<lambda>_ _. (''f'', 0))\<rparr>"

theorem nats_loop_forwards_witness:
  "\<exists>pod'. nats_loop 3 list_nats \<lparr>nc_topic = ''t'', nc_sub = ()\<rparr> (newPod False) []
        [Inl (ErrorText ''nats: timeout''), Inr [1, 2]] =
      Some (Inr (False, pod', [bridge_message ''t'' (''f'', 0) [1, 2]], []))"
proof -
  let ?c = "\<lparr>nc_topic = ''t'', nc_sub = ()\<rparr>"
  let ?mss = "[[], [bridge_message ''t'' (''f'', 0) [1, 2]]]"
  have y: "yields_all (nats_yields list_nats ?c) ?mss [Inl (ErrorText ''nats: timeout''), Inr [1, 2]] []"
    by (simp add: nats_yields_def list_nats_def)
  have e: "nats_NextMsg list_nats (nc_sub ?c) [] = (Inl (ErrorText ''nats: invalid subscription''), [])"
    "ErrorText ''nats: invalid subscription'' \<noteq> nats_ErrTimeout list_nats" "\<not> pod_dead (newPod False)"
    "length ([] :: message list) + length (concat ?mss) \<le> defaultBusChanSize"
    by (simp_all add: list_nats_def newPod_def defaultBusChanSize_def)
  have "Suc (length ?mss) = 3" "[] @ concat ?mss = [bridge_message ''t'' (''f'', 0) [1, 2]]" by simp_all
  with nats_loop_forwards [OF y e] show ?thesis by metis
qed

text \<open>Property C33. NATS hands a message also to the subscriptions of the connection that published it. If
  the function of the pod publishes a message and the subscription delivers these bytes, the
  goroutine puts the same message on the bus a second time: every other pod of the node gets a
  bridged message twice. The bridge does not publish it again.\<close>

theorem nats_echo_duplicates:
  assumes "env_ok env" and "text_ok m"
    and "nats_publish env ops c m w = (None, w1)"
    and "\<forall>bytes. message_Marshal env m = Inr bytes \<longrightarrow> nats_NextMsg ops (nc_sub c) w1 = (Inr bytes, w2)"
    and "\<not> pod_dead pod" and "length busChan < defaultBusChanSize"
  shows "\<exists>pod'. nats_turn ops c pod busChan w1 = Some (Inr (True, pod', busChan @ [m], w2))
    \<and> pod_handle pod' (Some m) = Some (Inr pod')"
proof -
  obtain bytes where b: "message_Marshal env m = Inr bytes"
    using assms(3) by (auto simp: nats_publish_def split: sum.splits)
  then have "MsgFromBytes bytes = Inr m"
    using MsgFromBytes_Marshal [OF assms(1)] valid_message_id [OF assms(2)] by simp
  then have "nats_yields ops c w1 [m] w2" using assms(4) b by (simp add: nats_yields_def bridge_message_def)
  then have "nats_turn ops c pod busChan w1 = Some (Inr (True, sent_filter pod [m], busChan @ [m], w2))"
    using assms(5,6) by (intro nats_feeds) simp_all
  then show ?thesis using sent_not_handled [of m "[m]"] by auto
qed

theorem nats_echo_duplicates_witness:
  "\<exists>w1 pod'. nats_publish utc_env list_nats
        \<lparr>nc_topic = ''t'', nc_sub = ()\<rparr> (NewMsg ''u'' 0 ''t'' []) [] = (None, w1)
    \<and> nats_turn list_nats \<lparr>nc_topic = ''t'', nc_sub = ()\<rparr> (newPod False) [] w1 =
        Some (Inr (True, pod', [NewMsg ''u'' 0 ''t'' []], []))"
proof -
  let ?env = "utc_env"
  let ?m = "NewMsg ''u'' 0 ''t'' []" and ?c = "\<lparr>nc_topic = ''t'', nc_sub = ()\<rparr>"
  have env: "env_ok ?env" by simp
  have strings: "text_ok ?m" by (rule text_ok_NewMsg) (simp_all add: code_def)
  have "year_ok ?env (msg_Timestamp ?m)"
    by (simp add: NewMsg_def utc_env_def year_ok_def local_seconds_def nanos_per_second_def epoch_days_def)
  then obtain bytes where b: "message_Marshal ?env ?m = Inr bytes" using Marshal_ok_iff by blast
  then have pub: "nats_publish ?env list_nats ?c ?m [] = (None, [Inr bytes])"
    by (simp add: nats_publish_def list_nats_def)
  have d: "\<forall>bytes'. message_Marshal ?env ?m = Inr bytes' \<longrightarrow> nats_NextMsg list_nats (nc_sub ?c) [Inr bytes] = (Inr bytes', [])"
    using b by (simp add: list_nats_def)
  have p: "\<not> pod_dead (newPod False)" "length ([] :: message list) < defaultBusChanSize"
    by (simp_all add: newPod_def defaultBusChanSize_def)
  from nats_echo_duplicates [OF env strings pub d p] pub show ?thesis by auto
qed

text \<open>The Kafka bridge puts the records of every fetch without errors on the bus, in order,
  decoded or as raw data of the topic's type, and hands none of them back to the broker.\<close>

theorem kafka_loop_forwards:
  assumes "yields_all (kafka_yields ops c) mss w w'" and "\<not> pod_dead pod"
    and "length busChan + length (concat mss) \<le> defaultBusChanSize"
  shows "\<exists>pod'. kafka_loop (length mss) ops c pod busChan w = Some (Inr (True, pod', busChan @ concat mss, w'))
    \<and> (\<forall>m \<in> set (concat mss). pod_handle pod' (Some m) = Some (Inr pod'))"
proof -
  have "kafka_loop (length mss) ops c pod busChan w =
      Some (Inr (True, sent_filter pod (concat mss), busChan @ concat mss, w'))"
    using kafka.loop_yields [OF assms, of 0] by (simp add: kafka_loop_def)
  then show ?thesis using sent_not_handled by blast
qed

theorem kafka_loop_forwards_witness:
  "\<exists>pod'. kafka_loop 1 list_kafka \<lparr>kc_topic = ''t'', kc_conn = ()\<rparr> (newPod False) [] [([], [[1], [2]])] =
      Some (Inr (True, pod', [bridge_message ''t'' (''f'', 0) [1], bridge_message ''t'' (''f'', 0) [2]], []))"
proof -
  let ?c = "\<lparr>kc_topic = ''t'', kc_conn = ()\<rparr>"
  let ?ms = "[bridge_message ''t'' (''f'', 0) [1], bridge_message ''t'' (''f'', 0) [2]]"
  have y: "yields_all (kafka_yields list_kafka ?c) [?ms] [([], [[1], [2]])] []"
    by (simp add: kafka_yields_def list_kafka_def)
  have p: "\<not> pod_dead (newPod False)" "length ([] :: message list) + length (concat [?ms]) \<le> defaultBusChanSize"
    by (simp_all add: newPod_def defaultBusChanSize_def)
  have "length [?ms] = 1" "[] @ concat [?ms] = ?ms" by simp_all
  with kafka_loop_forwards [OF y p] show ?thesis by metis
qed

text \<open>The goroutine of the Kafka bridge never ends. No turn stops it; while every fetch reports an
  error, as all do once the client is closed, it polls again and again and puts nothing on the bus,
  whatever records come with the errors.\<close>

theorem kafka_goroutine_never_ends:
  assumes "\<forall>v. fst (fst (kafka_PollFetches ops (kc_conn c) v)) \<noteq> []"
  shows "\<exists>w'. kafka_loop n ops c pod busChan w = Some (Inr (True, pod, busChan, w'))"
proof (induction n arbitrary: w)
  case 0
  then show ?case by (simp add: kafka_loop_def)
next
  case (Suc n)
  obtain errs rs w' where "kafka_PollFetches ops (kc_conn c) w = ((errs, rs), w')" by (metis surj_pair)
  moreover from this have "errs \<noteq> []" using assms [rule_format, of w] by simp
  ultimately have "kafka_turn ops c pod busChan w = Some (Inr (True, pod, busChan, w'))"
    by (simp add: kafka_turn_def)
  then show ?case using Suc.IH [of w'] by (simp add: kafka_loop_def)
qed

theorem kafka_goroutine_never_ends_witness:
  "\<exists>w'. kafka_loop 1000 (list_kafka\<lparr>kafka_PollFetches := (\<lambda>_ w. (([ErrorText ''client closed''], [[1]]), w))\<rparr>)
      \<lparr>kc_topic = ''t'', kc_conn = ()\<rparr> (newPod False) [] [] = Some (Inr (True, newPod False, [], w'))"
  by (rule kafka_goroutine_never_ends) simp

end
