(* ===== verification/Local_Discovery.thy ===== *)
theory Local_Discovery
  imports Websocket Hub Plugin_Setup
begin

text \<open>
  The discovery of peers in the local network, \<open>discovery/local/discovery.go\<close>, with the options of
  \<open>grav/discovery.go\<close> that \<open>initHub\<close> gives it. The multicast of the package peerdiscovery is a
  parameter: it sends the bytes of the payload function to every node, this one included, and calls
  the notify function with the address and the payload of each node it hears.
\<close>

section \<open>State and operations\<close>

text \<open>
  The plugin: its options and its stop channel, both nil before \<open>Start\<close>, and the function that
  reports a discovered node.
\<close>

type_synonym discoveryFunc = "string \<Rightarrow> uuid \<Rightarrow> unit"

record discovery =
  ld_opts :: "discoveryOpts option"
  ld_stopChan :: bool
  ld_discoveryFunc :: "discoveryFunc option"

record discoveryPayload =
  dp_UUID :: string
  dp_Port :: string
  dp_Path :: string

definition discovery_New :: discovery where
  "discovery_New = \<lparr>ld_opts = None, ld_stopChan = False, ld_discoveryFunc = None\<rparr>"

definition discovery_Start :: "discovery \<Rightarrow> discoveryOpts \<Rightarrow> discoveryFunc \<Rightarrow> discovery" where
  "discovery_Start d opts f = d\<lparr>ld_opts := Some opts, ld_discoveryFunc := Some f, ld_stopChan := True\<rparr>"

definition UseDiscoveryFunc :: "discovery \<Rightarrow> discoveryFunc \<Rightarrow> discovery" where
  "UseDiscoveryFunc d f = d\<lparr>ld_discoveryFunc := Some f\<rparr>"

text \<open>\<open>Stop\<close> sends on the unbuffered stop channel: \<open>None\<close> if it blocks, as it does on a nil channel.\<close>

definition discovery_Stop :: "discovery \<Rightarrow> bool \<Rightarrow> unit option" where
  "discovery_Stop d discover_receives = (if ld_stopChan d \<and> discover_receives then Some () else None)"

definition payload_fields :: "string list" where
  "payload_fields = [''uuid'', ''port'', ''path'']"

definition json_discovery :: "discoveryPayload \<Rightarrow> json" where
  "json_discovery p =
     JObj [(''uuid'', json_string (dp_UUID p)), (''port'', json_string (dp_Port p)), (''path'', json_string (dp_Path p))]"

definition set_discovery :: "string \<Rightarrow> json \<Rightarrow> discoveryPayload \<Rightarrow> discoveryPayload option" where
  "set_discovery name j p =
     (if name = ''uuid'' then map_option (\<lambda>s. p\<lparr>dp_UUID := s\<rparr>) (decode_string j (dp_UUID p))
      else if name = ''port'' then map_option (\<lambda>s. p\<lparr>dp_Port := s\<rparr>) (decode_string j (dp_Port p))
      else map_option (\<lambda>s. p\<lparr>dp_Path := s\<rparr>) (decode_string j (dp_Path p)))"

text \<open>What a node announces. The payload reads the UUID from \<open>d.opts\<close>, the rest from the argument of \<open>Start\<close>.\<close>

definition payloadFunc :: "discovery \<Rightarrow> discoveryOpts \<Rightarrow> byte list" where
  "payloadFunc d opts =
     to_bytes (json_print (json_discovery
       \<lparr>dp_UUID = do_NodeUUID (the (ld_opts d)), dp_Port = do_TransportPort opts, dp_Path = do_TransportURI opts\<rparr>))"

text \<open>The call of the discovery function that \<open>notifyFunc\<close> makes for a peer, if any.\<close>

definition zero_payload :: discoveryPayload where
  "zero_payload = \<lparr>dp_UUID = [], dp_Port = [], dp_Path = []\<rparr>"

definition notifyFunc :: "string \<Rightarrow> byte list \<Rightarrow> (string \<times> uuid) option" where
  "notifyFunc peer_Address peer_Payload =
     (case json_Unmarshal (decode_struct payload_fields set_discovery) peer_Payload zero_payload of
        Inl _ \<Rightarrow> None
      | Inr p \<Rightarrow> Some (peer_Address @ '':'' @ dp_Port p @ dp_Path p, dp_UUID p))"

section \<open>Round trip of the announcement\<close>

lemma discovery_field_names [simp]: "field_name ''port''" "field_name ''path''"
  by (simp_all add: field_name_def code_def)

lemma decode_discovery:
  "decode_struct payload_fields set_discovery (json_discovery p) old =
     Some \<lparr>dp_UUID = to_valid_utf8 (dp_UUID p), dp_Port = to_valid_utf8 (dp_Port p), dp_Path = to_valid_utf8 (dp_Path p)\<rparr>"
  by (simp add: decode_struct_def json_discovery_def decode_member_known payload_fields_def set_discovery_def
      del: decode_members.simps(2))

lemma encodable_discovery: "encodable maxNestingDepth (json_discovery p)"
  by (simp add: maxNestingDepth_def json_discovery_def)

lemma notify_payload:
  "notifyFunc addr (payloadFunc (discovery_Start d opts f) opts) =
     Some (addr @ '':'' @ to_valid_utf8 (do_TransportPort opts) @ to_valid_utf8 (do_TransportURI opts),
           to_valid_utf8 (do_NodeUUID opts))"
  by (simp add: notifyFunc_def payloadFunc_def discovery_Start_def encodable_discovery decode_discovery)

text \<open>Options in valid UTF-8.\<close>

definition opts_ok :: "discoveryOpts \<Rightarrow> bool" where
  "opts_ok opts \<longleftrightarrow> valid_utf8 (do_NodeUUID opts) \<and> valid_utf8 (do_TransportPort opts) \<and> valid_utf8 (do_TransportURI opts)"

section \<open>Properties\<close>

text \<open>Property C34. What a node announces is what its peers dial. The announcement of a node, heard from an
  address, makes the discovery of any node report the endpoint address:port/path of the announcing node
  and its UUID; the hub that hears itself, or a node it is connected to, does nothing; any other
  hub connects to that endpoint and insists on that UUID. The websocket transport dials it with the
  scheme \<open>ws://\<close>, unless the address begins with the letters \<open>ws\<close>.\<close>

theorem announcement_is_dialled:
  assumes "opts_ok (initHub_discoveryOpts nodeUUID options)"
    and "endpoint = addr @ '':'' @ opt_Port options @ opt_URI options" and "2 \<le> length addr"
  shows "notifyFunc addr (payloadFunc (discovery_Start d (initHub_discoveryOpts nodeUUID options) f)
           (initHub_discoveryOpts nodeUUID options)) = Some (endpoint, nodeUUID)
    \<and> hub_discoveryHandler ops mesh h endpoint nodeUUID w =
        (if hub_nodeUUID h = nodeUUID \<or> hub_findConnection h nodeUUID \<noteq> None then Inr (h, w)
         else (case hub_connectEndpoint ops mesh h endpoint nodeUUID w of
                 Inl e \<Rightarrow> Inl e
               | Inr (_, r) \<Rightarrow> Inr r))
    \<and> (dial_endpoint endpoint = ''ws://'' @ endpoint \<longleftrightarrow> take 2 addr \<noteq> ''ws'')"
proof -
  have "take 2 endpoint = take 2 addr" using assms(2,3) by simp
  then have "dial_endpoint endpoint = ''ws://'' @ endpoint \<longleftrightarrow> take 2 addr \<noteq> ''ws''"
    by (simp add: dial_endpoint_def)
  then show ?thesis
    using assms(1,2) notify_payload [of addr d "initHub_discoveryOpts nodeUUID options" f]
    by (auto simp: opts_ok_def initHub_discoveryOpts_def initHub_meshOptions_def to_valid_utf8_id hub_discoveryHandler_def
        split: sum.splits prod.splits)
qed

theorem announcement_is_dialled_witness:
  "\<forall>f (ops :: (nat, nat) connection) mesh w. notifyFunc ''10.0.0.2'' (payloadFunc (discovery_Start discovery_New
       (initHub_discoveryOpts ''n'' (defaultOptions :: (nat, nat, nat) options)) f)
       (initHub_discoveryOpts ''n'' (defaultOptions :: (nat, nat, nat) options))) =
     Some (''10.0.0.2:8080/meta/message'', ''n'')
   \<and> hub_discoveryHandler ops mesh (new_hub ''n'' ''*'' [] :: (nat, nat) hub) ''10.0.0.2:8080/meta/message'' ''n'' w =
       Inr (new_hub ''n'' ''*'' [], w)"
proof -
  let ?o = "defaultOptions :: (nat, nat, nat) options"
  have "valid_utf8 ''n''" "valid_utf8 ''8080''" "valid_utf8 ''/meta/message''"
    by (rule valid_utf8_ascii; simp add: code_def)+
  then have ok: "opts_ok (initHub_discoveryOpts ''n'' ?o)"
    by (simp only: opts_ok_def initHub_discoveryOpts_def initHub_meshOptions_def Let_def defaultOptions_def
        discoveryOpts.simps meshOptions.simps options.simps simp_thms)
  have e: "''10.0.0.2:8080/meta/message'' = ''10.0.0.2'' @ '':'' @ opt_Port ?o @ opt_URI ?o"
    by (simp add: defaultOptions_def)
  have "hub_nodeUUID (new_hub ''n'' ''*'' [] :: (nat, nat) hub) = ''n''" by (simp add: new_hub_def)
  then show ?thesis
    using announcement_is_dialled [OF ok e, where d = discovery_New and h = "new_hub ''n'' ''*'' [] :: (nat, nat) hub"
        and ops = "_ :: (nat, nat) connection"] by auto
qed

text \<open>Anything that announces a JSON object is dialled. The check of the payload only rejects
  bytes that are not such an object, or fields that are not strings: the announcement of another
  program in the same multicast group, without any of the fields, makes the discovery report the
  endpoint address: with no port and no path, and the empty UUID, with which the hub accepts whatever
  node answers there.\<close>

theorem foreign_announcement_is_dialled:
  assumes "json_parse (of_bytes bytes) = Some (JObj ms)"
    and "\<forall>m \<in> set ms. \<exists>k. unescape (fst m) = Some k \<and> find_field payload_fields k = None"
  shows "notifyFunc addr bytes = Some (addr @ '':'', [])
    \<and> (hub_nodeUUID h \<noteq> [] \<and> hub_findConnection h [] = None \<and> mt_Connect mesh (addr @ '':'') w = (Inr conn, w1)
         \<and> co_OutgoingHandshake ops conn \<lparr>hs_UUID = hub_nodeUUID h, hs_BelongsTo = hub_belongsTo h, hs_Interests = hub_interests h\<rparr> w1
             = ((Some ack, None), w2)
         \<and> ack_Accept ack \<and> ack_UUID ack \<noteq> []
       \<longrightarrow> hub_discoveryHandler ops (Some mesh) h (addr @ '':'') [] w =
             Inr (hub_setupNewConnection ops h conn (ack_UUID ack) (ack_BelongsTo ack) (ack_Interests ack) w2))"
  using assms(1) decode_members_foreign [OF assms(2), of set_discovery zero_payload]
  by (auto simp: notifyFunc_def json_Unmarshal_def zero_payload_def hub_discoveryHandler_def hub_connectEndpoint_def
      hub_setupOutgoingConnection_def Let_def split: prod.splits)

theorem foreign_announcement_is_dialled_witness:
  "notifyFunc ''10.0.0.3'' (to_bytes (json_print (JObj [(''chat'', JStr ''hello'')]))) = Some (''10.0.0.3:'', [])"
proof -
  let ?j = "JObj [(''chat'', JStr ''hello'')]"
  have s: "scannable ''chat''" "scannable ''hello''" by (rule plain_scannable; simp add: code_def)+
  have "encodable maxNestingDepth ?j"
    by (simp only: encodable.simps encodable_members.simps fst_conv snd_conv s) (simp add: maxNestingDepth_def)
  then have p: "json_parse (of_bytes (to_bytes (json_print ?j))) = Some ?j"
    by (simp only: of_bytes_to_bytes json_parse_print)
  have u: "unescape ''chat'' = Some ''chat''" by (rule plain_unescape) (simp add: code_def)
  have "find_field payload_fields ''chat'' = None"
    by (simp add: find_field_def payload_fields_def code_def)
  with u have "\<forall>m \<in> set [(''chat'', JStr ''hello'')]. \<exists>k. unescape (fst m) = Some k \<and> find_field payload_fields k = None"
    by (simp only: list.set ball_simps fst_conv option.inject) simp
  then have "notifyFunc ''10.0.0.3'' (to_bytes (json_print ?j)) = Some (''10.0.0.3'' @ '':'', [])"
    by (rule conjunct1 [OF foreign_announcement_is_dialled [OF p]])
  then show ?thesis by (simp only: append.simps)
qed

text \<open>Stopping a plugin that was never started blocks: nothing can receive from a nil channel.\<close>

lemma stop_blocks_before_start: "discovery_Stop discovery_New r = None"
  by (simp add: discovery_Stop_def discovery_New_def)

end
