(* ===== verification/Spec2Isabelle.thy ===== *)
theory Spec2Isabelle
  imports Go_Utf8 Go_Json_Text Go_Json Go_Base64 Go_Time Message Message_Codec Msg_Buffer Tunnel_Balancer Message_Filter
    Pod_Connection Pod_Delivery Connection_Pool Message_Bus Bus_Steps Bus_Interleaved Bus_Senders Pod Pod_Wait Pod_Calls Async_Counter Signaler Options Transport Plugin_Setup Connection_Handler
    Hub Hub_Mesh Hub_Properties Hub_Deadlock Hub_Interleaved Grav Websocket Websocket_Properties Mesh_Over_Websocket Bridges Local_Discovery
begin

text \<open>
  A verification development for Grav, an embedded message bus for Go with a mesh
  of peers. The sources are under \<open>src/grav\<close>.

  The program. Pods (\<open>pod.go\<close>) are the bidirectional connections of an application to the bus.
  \<open>Send\<close> puts a message on the bus channel; the bus goroutine (\<open>bus.go\<close>) takes messages from it
  one by one and goes once around a ring of connections (\<open>pool.go\<close>, \<open>podconnection.go\<close>), one per
  pod, handing each the message and reading the feedback that its pod has reported: successes,
  failed messages, a request for a replay or for disconnection. Recent messages are kept in a
  bounded buffer (\<open>msgbuffer.go\<close>) for replays. On the pod's side one goroutine per message filters
  it (\<open>filter.go\<close>) and calls the function the owner has set; \<open>WaitUntil\<close> and the receipts
  (\<open>receipt.go\<close>) are built on that function. The hub (\<open>hub.go\<close>) has a pod of its own: it sends
  the messages of the bus to the connections to other nodes and puts their messages on the
  bus, through one handler per connection (\<open>connectionhandler.go\<close>); it sets connections up
  by handshakes over a transport plugin (\<open>transport.go\<close>), scans for broken ones, sends tunnelled
  messages to nodes that advertise a capability (\<open>tunnel/balancer.go\<close>) and withdraws from
  the mesh (\<open>withdraw/signaler.go\<close>). \<open>grav.go\<close> puts the parts together. Under \<open>src/transport\<close> and
  \<open>src/discovery\<close> are the plugins: a mesh transport over websockets, bridges to NATS and Kafka, and
  the discovery of peers in the local network. Messages and handshakes travel as JSON.

  How the model corresponds to the code. A method \<open>func (r *T) M\<close> is the definition \<open>T_M\<close>, a struct
  a record whose fields carry a prefix, a package function a definition of its name (with a
  suffix where HOL has the name). A nil pointer or interface is \<open>None\<close>; a Go error is a value
  of \<open>error\<close>; a run-time panic is \<open>Inl\<close> of a value of \<open>panic\<close>. A result of type \<open>'a run\<close> is
  \<open>None\<close> if the code blocks or loops forever. IDs and durations are 64-bit words. Methods that
  hold their object's mutex throughout are single functions. Buffered channels are lists with
  the capacity of the source (bus channel 256, pod channels 128); goroutines that other parts
  can overtake are phases in a state, moved by an inductive step relation. The iteration order
  of a Go map is an argument. Network, clock and random UUIDs are arguments too.

  The theories, in the order of the code:

  \<open>Grav_Prelude\<close>: errors, panics, Go's indexing; reachability; and the three interfaces as
  locales: \<open>invariant_system\<close> (an invariant of a step relation, interpreted for the connection, its history,
  the bus among other goroutines, with and without the senders, the waiting pod, the signaler, and the hub with its operations in sequence, interleaved,
  and interleaved without overlapping handshakes), \<open>round_robin\<close> (interpreted for the balancer and the
  buffer's \<open>Next\<close>) and \<open>forward_simulation\<close> (interpreted for the ring of connections).

  \<open>Message\<close>: \<open>message.go\<close>, the message with its constructors and accessors.

  \<open>Msg_Buffer\<close>: \<open>msgbuffer.go\<close>. The ring index arithmetic is proved to implement a log of the last
  \<open>limit\<close> messages; the locale \<open>replay_log\<close> is the contract the bus relies on. A repeated UUID can
  make a replay send nil.

  \<open>Tunnel_Balancer\<close>: \<open>tunnel/balancer.go\<close>. Every node gets its share; \<open>Next\<close> panics only when empty.

  \<open>Message_Filter\<close>: \<open>filter.go\<close>.

  \<open>Pod_Connection\<close>: \<open>podconnection.go\<close>. What a status check reports, and that in no interleaving of
  the sending goroutines with \<open>disconnect\<close> a message is sent on the closed channel.

  \<open>Pod_Delivery\<close>: the same steps with a history: until the connection is removed the messages
  sent to it are, as a multiset, those taken and those on their way, and every schedule of the
  goroutines and the pod delivers all of them within \<open>way_length\<close> steps.

  \<open>Connection_Pool\<close>: \<open>pool.go\<close> and \<open>insertAfter\<close>, on a heap of connections linked by \<open>next\<close>. The
  pointer operations refine operations on the list of addresses; \<open>prepareNext\<close> is described by
  \<open>doomed\<close> (the connection is removed) and \<open>prepared\<close> (it stays).

  \<open>Message_Bus\<close>: \<open>bus.go\<close>. The two nested loops end, deliver a message exactly once to each connection
  that stays, and crash exactly when none stays. The loops are \<open>partial_function (option)\<close>, so
  every statement that they return is part of the theorem.

  \<open>Bus_Steps\<close>: the same bus goroutine in atomic steps, one access to shared state each, as the
  code takes and releases the lock of the pool and receives feedback one message at a time. Run alone it
  computes what the functions of \<open>Message_Bus\<close> do.

  \<open>Bus_Interleaved\<close>: those steps among others: pods that are connected, report feedback and send at
  any moment. An invariant says where the traversal is on a ring that changes under it. It gives that the
  bus never panics while one pod stays, and that no connection is missed when a message is handed out; its measure \<open>fuel\<close> (40 steps per
  connection, one per unread feedback message and 34 more) bounds the steps to the next receive; and two
  theorems show the race of \<open>insert\<close> with \<open>deleteNext\<close>, where a new pod is removed in place of another
  and a message is delivered twice.

  \<open>Bus_Senders\<close>: that system composed with the goroutines of \<open>send\<close> and the receive loops of the pods. Here \<open>deleteNext\<close> takes the lock of
  the pool, asks for the write lock of the connection, which keeps new readers out, and waits for the senders that hold the read lock; those wait
  for room in the channel, and that for the pod. The wait always ends and the bus comes back to its receive (twice the bound above, since taking
  the lock is a step of its own); and every message reaches the receive loop of each pod that stays connected, whatever else happens
  meanwhile. A goroutine is an entry of \<open>pc_sends\<close> with its phase in \<open>ss_phase\<close>; what the loop has taken is kept in \<open>ss_taken\<close>.

  \<open>Pod\<close>, \<open>Pod_Wait\<close>: \<open>pod.go\<close>, \<open>receipt.go\<close>, \<open>timeout.go\<close>. The operations of a pod on every branch;
  the goroutines of \<open>WaitUntil\<close> step by step, with the correctness of the result, the case in
  which it can always return, and the deadlock.

  \<open>Pod_Calls\<close>: functions that call methods of their own pod, as programs (\<open>script\<close>), and the goroutines,
  owners and the bus that compete for \<open>onFuncLock\<close> and the two channels. The bus checks the status of the connection and removes it when it
  is asked to or has 64 failed messages; from then on nobody reads the feedback. Functions that send, reply and
  succeed cannot deadlock the pod while it is connected; one that sets the function does; after a full replay
  the feedback channel is one entry too short; and a pod that is disconnected with more than 128 messages in its functions blocks for good.

  \<open>Signaler\<close>, \<open>Options\<close>: \<open>withdraw/signaler.go\<close>, \<open>options.go\<close>.

  \<open>Transport\<close>, \<open>Plugin_Setup\<close>: the interfaces of \<open>transport.go\<close> and \<open>discovery.go\<close>, as records of functions on
  a world of type \<open>'w\<close>, and the part of \<open>initHub\<close> that starts the plugins.

  \<open>Connection_Handler\<close>: \<open>connectionhandler.go\<close>, with both goroutines of \<open>Start\<close>.

  \<open>Hub\<close>, \<open>Hub_Mesh\<close>, \<open>Hub_Properties\<close>: \<open>hub.go\<close>. The invariant \<open>hub_ok\<close> relates connections and
  balancers and is kept by every operation; on it rest the theorems on handshakes, scanning,
  broadcasting, tunnelling (at most 32 attempts, as in the source) and withdrawing.

  \<open>Hub_Deadlock\<close>: the hub's lock, the scanner and the broadcasting goroutines step by step. Run alone they
  end as the functions of \<open>Hub\<close> do (\<open>lock_view\<close> is what the locks see of a hub).

  \<open>Hub_Interleaved\<close>: the goroutines that set connections up, tunnel, scan and broadcast, interleaved between
  their locks. While no two handshakes with a peer overlap (\<open>hub_apart\<close>) \<open>hub_ok\<close> holds there too; what is left of it otherwise is \<open>hub_mild\<close>;
  \<open>inter_fresh\<close> says that a connection is with one goroutine
  or in the map. Panics of every step, and the accesses to a map without the lock that end a program, are collected in \<open>hy_panics\<close>. With
  \<open>hub_mild\<close> a tunnel on its own finds a working connection. Two handshakes with a peer that overlap lose a connection, and a tunnel can wait for ever
  for a scan of a connection that has been removed.

  \<open>Grav\<close>: \<open>grav.go\<close> and \<open>initHub\<close>; the bus of an instance survives, in every interleaving, because the hub's
  pod never fails.

  \<open>Go_Utf8\<close>, \<open>Go_Json_Text\<close>, \<open>Go_Json\<close>, \<open>Go_Base64\<close>, \<open>Go_Time\<close>: the parts of Go's standard library that
  the encoding of messages rests on, down to the bytes: UTF-8, the scanner, parser and printer of
  \<open>encoding/json\<close> with its string escapes and its matching of keys to fields, base64, and times in
  RFC 3339. Each encoder has its decoder; the locale \<open>codec\<close> is their contract, interpreted for bytes,
  JSON texts and base64. The parser takes fuel; twice the length of the text is enough
  (\<open>parse_fuel\<close>: more makes no difference), and its other bound, 10000 nested values, is Go's.

  \<open>Message_Codec\<close>: \<open>Marshal\<close>, \<open>Unmarshal\<close>, \<open>MsgFromBytes\<close> of \<open>message.go\<close> and the JSON of the handshakes. A
  message survives its encoding; a JSON object that is not a message is taken for an empty one.

  \<open>Websocket\<close>, \<open>Websocket_Properties\<close>, \<open>Mesh_Over_Websocket\<close>: \<open>transport/websocket/transport.go\<close>, over websockets
  that are a parameter (the record \<open>gorilla\<close>). What is assumed of them is that frames arrive as they
  were written, in order. On this rest the link from the sender of one node to the bus of the
  other, and the agreement of two hubs on their handshake.

  \<open>Bridges\<close>: \<open>transport/nats/transport.go\<close> and \<open>transport/kafka/transport.go\<close>, over clients that are parameters; the
  locale \<open>bus_feeder\<close>, interpreted for both, is the contract of a goroutine that feeds the bus.

  \<open>Async_Counter\<close>: \<open>testutil/asynccoutner.go\<close>, the counter of the tests.

  \<open>Local_Discovery\<close>: \<open>discovery/local/discovery.go\<close>, from the announcement of a node to the call of the
  hub of another.

  What is simplified. In \<open>Message_Bus\<close> pods do not write feedback while the bus handles one message;
  \<open>Bus_Interleaved\<close> and \<open>Bus_Senders\<close> have no such restriction; in the first of these \<open>disconnect\<close> does not wait for its lock. There and in \<open>Pod_Wait\<close> a pod's function is a pure function of
  the message; \<open>Pod_Calls\<close> has functions that call methods of their pod. In the sequential model of the hub a goroutine that
  offers an error to the scanner is an entry of \<open>ch_ErrChan\<close>; its interplay with the lock is
  in \<open>Hub_Deadlock\<close>. There one operation of the hub follows the other, so that setting up a
  connection is not interrupted between its two locks; \<open>Hub_Interleaved\<close> lets it be. In \<open>tunnel_loop\<close> the parameter \<open>env\<close> is what the rest of the program does while
  a failing send is blocked, \<open>None\<close> if nobody ever receives the error. \<open>withdraw_wait\<close> takes the rounds of the polling loop before the
  timeout as a list.

  In the standard library part, an array element null at a repeated key reads as the zero value
  or the element before it, times are read by the strict grammar of RFC 3339, and the fold of
  keys is the one of Go for names of ASCII letters. The encoders are given which empty slices are
  nil and in which zone a time is written; the model of a message does not hold these.

  Not modelled: logging, and the options that only carry the logger; \<open>url.Parse\<close> and the libraries for
  websockets, NATS, Kafka and multicast, which are parameters; \<open>TransportWithdraw\<close>, which
  nothing uses; the test programs and examples.
\<close>

end
